(* ===== verification/Prelude.thy ===== *)
theory Prelude
  imports Main "HOL-Library.Char_ord" "HOL-Library.List_Lexorder" "HOL-Library.Product_Lexorder"
    "HOL-Library.Multiset" "HOL-Library.Sublist"
begin

text \<open>
  The prelude of the development: the fact collections, the result type for Go's
  \<^verbatim>\<open>(value, error)\<close> pairs and panics, reachability over a step relation with its invariant
  rule, and the generic lemmas on lists and association lists that the components share.

  Conventions of every theory above this one. A Go \<^verbatim>\<open>string\<close> or \<^verbatim>\<open>[]byte\<close> is a
  \<^typ>\<open>string\<close>: an Isabelle character is one byte, so lengths, slices and comparisons are
  Go's. A Go map is an association list without repeated keys whose list order is the order in
  which a \<^verbatim>\<open>range\<close> loop visits it; Go leaves that order open, so a statement for every list is a
  statement for every iteration order. \<^verbatim>\<open>nil\<close> is \<open>None\<close>.
\<close>

section \<open>Fact collections\<close>

named_theorems go_strings \<open>evaluation and shape of Go's string operations\<close>
named_theorems findings_simps \<open>what a rule callback reports\<close>
named_theorems step_inv \<open>preservation lemmas of the state machines\<close>

section \<open>Results\<close>

text \<open>A failing operation returns \<open>Inl\<close> of its error (or panic) message, as Go returns a
  non-nil error; \<open>Inr\<close> carries the value.\<close>

type_synonym 'a result = "string + 'a"

fun is_ok :: "'e + 'a \<Rightarrow> bool" where
  "is_ok (Inl e) = False"
| "is_ok (Inr x) = True"

lemma is_ok_iff: "is_ok r \<longleftrightarrow> (\<exists>x. r = Inr x)"
  by (cases r) auto

section \<open>Reachability and invariants\<close>

inductive reach :: "('s \<Rightarrow> bool) \<Rightarrow> ('s \<Rightarrow> 's \<Rightarrow> bool) \<Rightarrow> 's \<Rightarrow> bool"
  for init :: "'s \<Rightarrow> bool" and step :: "'s \<Rightarrow> 's \<Rightarrow> bool" where
  reach_start [intro]: "init s \<Longrightarrow> reach init step s"
| reach_step [intro]: "reach init step s \<Longrightarrow> step s t \<Longrightarrow> reach init step t"

text \<open>The contract of a state machine with an inductive invariant. Each concurrent component
  interprets it with its own step relation.\<close>

locale invariant_machine =
  fixes init :: "'s \<Rightarrow> bool"
    and step :: "'s \<Rightarrow> 's \<Rightarrow> bool"
    and inv :: "'s \<Rightarrow> bool"
  assumes inv_init: "init s \<Longrightarrow> inv s"
    and inv_step: "inv s \<Longrightarrow> step s t \<Longrightarrow> inv t"
begin

lemma inv_reach: "reach init step s \<Longrightarrow> inv s"
proof (induction rule: reach.induct)
  case (reach_start s)
  then show ?case by (rule inv_init)
next
  case (reach_step s t)
  then show ?case by (blast intro: inv_step)
qed

lemma inv_run: "step\<^sup>*\<^sup>* s t \<Longrightarrow> inv s \<Longrightarrow> inv t"
  by (induction rule: rtranclp_induct) (auto intro: inv_step)

end

text \<open>A machine with internal steps that it takes on its own: they make a rank smaller, and one of them is
  possible as long as the machine is not at rest. So every internal run is bounded, and comes to rest.\<close>

locale draining_machine = invariant_machine +
  fixes internal :: "'s \<Rightarrow> 's \<Rightarrow> bool"
    and rest :: "'s \<Rightarrow> bool"
    and rank :: "'s \<Rightarrow> nat"
  assumes internal_step: "internal s t \<Longrightarrow> step s t"
    and rank_less: "inv s \<Longrightarrow> internal s t \<Longrightarrow> rank t < rank s"
    and progress: "inv s \<Longrightarrow> \<not> rest s \<Longrightarrow> \<exists>t. internal s t"
begin

lemma inv_internal: "internal\<^sup>*\<^sup>* s t \<Longrightarrow> inv s \<Longrightarrow> inv t"
  by (induction rule: rtranclp_induct) (auto intro: inv_step internal_step)

lemma run_bounded: "(internal ^^ n) s t \<Longrightarrow> inv s \<Longrightarrow> n + rank t \<le> rank s"
proof (induction n arbitrary: t)
  case (Suc n)
  then obtain u where u: "(internal ^^ n) s u" "internal u t" by auto
  then have "inv u" using Suc.prems(2) inv_internal by (metis relpowp_imp_rtranclp)
  then show ?case using Suc.IH [OF u(1) Suc.prems(2)] rank_less [OF _ u(2)] by simp
qed simp

lemma comes_to_rest: "inv s \<Longrightarrow> \<exists>t. internal\<^sup>*\<^sup>* s t \<and> rest t"
proof (induction "rank s" arbitrary: s rule: less_induct)
  case less
  show ?case
  proof (cases "rest s")
    case False
    then obtain u where u: "internal s u" using progress less.prems by blast
    then obtain t where "internal\<^sup>*\<^sup>* u t" "rest t"
      using less.hyps rank_less less.prems inv_step internal_step by meson
    then show ?thesis using u by (meson converse_rtranclp_into_rtranclp)
  qed blast
qed

lemma drains:
  assumes "reach init step s"
  shows "\<exists>t. internal\<^sup>*\<^sup>* s t \<and> rest t" and "(internal ^^ n) s t \<Longrightarrow> n \<le> rank s"
  using comes_to_rest run_bounded [of n s t] inv_reach [OF assms] by auto

end

section \<open>Lists\<close>

text \<open>\<open>occurs_twice\<close>: the value stands at two positions of the list, Go's
  \<^verbatim>\<open>len(byName[x]) > 1\<close>.\<close>

definition occurs_twice :: "'a \<Rightarrow> 'a list \<Rightarrow> bool" where
  "occurs_twice x xs \<longleftrightarrow> 2 \<le> count_list xs x"

lemma count_list_eq_length_indices:
  "count_list xs x = length (filter (\<lambda>i. xs ! i = x) [0..<length xs])"
proof (induction xs rule: rev_induct)
  case Nil
  then show ?case by simp
next
  case (snoc y ys)
  have "filter (\<lambda>i. (ys @ [y]) ! i = x) [0..<length ys] = filter (\<lambda>i. ys ! i = x) [0..<length ys]"
    by (rule filter_cong) (auto simp: nth_append)
  with snoc show ?case by simp
qed

lemma distinct_iff_no_twice: "distinct xs \<longleftrightarrow> (\<forall>x. \<not> occurs_twice x xs)"
proof
  assume "distinct xs"
  then have "count_list xs x \<le> 1" for x
    by (simp add: distinct_count_atmost_1 flip: count_mset)
  then show "\<forall>x. \<not> occurs_twice x xs"
    unfolding occurs_twice_def by (metis Suc_1 not_less_eq_eq)
next
  assume "\<forall>x. \<not> occurs_twice x xs"
  then have le: "count_list xs x \<le> 1" for x
    unfolding occurs_twice_def by (metis Suc_1 not_less_eq_eq)
  have "count (mset xs) x = (if x \<in> set xs then 1 else 0)" for x
    using le [of x] by (auto simp: count_list_0_iff count_mset le_Suc_eq)
  then show "distinct xs"
    by (simp add: distinct_count_atmost_1)
qed

lemma occurs_twice_nth:
  assumes "i < length xs"
  shows "occurs_twice (xs ! i) xs \<longleftrightarrow> (\<exists>j < length xs. j \<noteq> i \<and> xs ! j = xs ! i)"
proof -
  let ?is = "filter (\<lambda>j. xs ! j = xs ! i) [0..<length xs]"
  have c: "count_list xs (xs ! i) = card (set ?is)"
    by (simp add: count_list_eq_length_indices distinct_card [of ?is] del: set_filter)
  have i: "i \<in> set ?is" using assms by simp
  show ?thesis
  proof
    assume "occurs_twice (xs ! i) xs"
    then have "1 < card (set ?is)" using c by (simp add: occurs_twice_def)
    then obtain j where "j \<in> set ?is" "j \<noteq> i"
      by (metis card_1_singleton_iff card_le_Suc0_iff_eq finite_set i less_irrefl_nat not_less One_nat_def)
    then show "\<exists>j < length xs. j \<noteq> i \<and> xs ! j = xs ! i" by auto
  next
    assume "\<exists>j < length xs. j \<noteq> i \<and> xs ! j = xs ! i"
    then obtain j where "j \<noteq> i" "{i, j} \<subseteq> set ?is" using assms by auto
    then have "2 \<le> card (set ?is)" using card_mono [of "set ?is" "{i, j}"] by simp
    with c show "occurs_twice (xs ! i) xs" by (simp add: occurs_twice_def)
  qed
qed

lemma takeWhile_upto:
  "c \<notin> set xs \<Longrightarrow> takeWhile (\<lambda>x. x \<noteq> c) (xs @ c # ys) = xs \<and> dropWhile (\<lambda>x. x \<noteq> c) (xs @ c # ys) = c # ys"
  by (induction xs) auto

lemma split_upto: "c \<in> set xs \<Longrightarrow> takeWhile (\<lambda>x. x \<noteq> c) xs @ c # tl (dropWhile (\<lambda>x. x \<noteq> c) xs) = xs"
  by (induction xs) auto

lemma first_of_filter: "filter P xs = y # ys \<Longrightarrow> y \<in> set xs \<and> P y"
  by (metis filter_is_subset filter_set list.set_intros(1) mem_Collect_eq set_filter subsetD)

lemma sort_empty_iff: "sort xs = [] \<longleftrightarrow> xs = []" for xs :: "'a::linorder list"
  by (metis set_empty set_sort)

lemma filter_enumerate:
  "map (\<lambda>(i, x). f i x) (filter (\<lambda>(i, x). P x) (enumerate 0 xs)) =
    map (\<lambda>i. f i (xs ! i)) (filter (\<lambda>i. P (xs ! i)) [0..<length xs])"
proof (induction xs rule: rev_induct)
  case (snoc x xs)
  have "filter (\<lambda>i. P ((xs @ [x]) ! i)) [0..<length xs] = filter (\<lambda>i. P (xs ! i)) [0..<length xs]"
    by (rule filter_cong) (auto simp: nth_append)
  moreover have "map (\<lambda>i. f i ((xs @ [x]) ! i)) (filter Q [0..<length xs]) =
      map (\<lambda>i. f i (xs ! i)) (filter Q [0..<length xs])" for Q
    by (rule map_cong) (auto simp: nth_append)
  ultimately show ?case using snoc by (simp add: enumerate_append_eq)
qed simp

lemma filter_key_unique: "distinct (map f xs) \<Longrightarrow> k \<in> set xs \<Longrightarrow> filter (\<lambda>x. f k = f x) xs = [k]"
  by (induction xs) (auto simp: filter_empty_conv rev_image_eqI)

text \<open>With distinct keys the sorted list does not depend on the order of the input.\<close>

lemma sort_key_perm:
  assumes "mset xs = mset ys" "distinct (map f xs)"
  shows "sort_key f xs = sort_key f ys"
proof (rule properties_for_sort_key [symmetric])
  have d: "distinct (map f zs)" if "mset zs = mset xs" for zs
    using assms(2) that by (metis mset_eq_imp_distinct_iff mset_map)
  show "mset (sort_key f xs) = mset ys" using assms(1) by simp
  show "sorted (map f (sort_key f xs))" by simp
  fix k
  assume k: "k \<in> set (sort_key f xs)"
  then have "k \<in> set ys" using assms(1) by (metis set_mset_mset set_sort)
  then show "filter (\<lambda>x. f k = f x) (sort_key f xs) = filter (\<lambda>x. f k = f x) ys"
    using filter_key_unique [OF d k] filter_key_unique [OF d, of ys k] assms(1) by simp
qed

lemma prefix_take_iff: "prefix xs ys \<longleftrightarrow> take (length xs) ys = xs"
  by (metis append_eq_conv_conj append_take_drop_id prefix_def)

section \<open>Sums over the parts of a state\<close>

text \<open>One part of a state moves, the sum over all of them follows.\<close>

lemma sum_list_move:
  fixes f :: "'a \<Rightarrow> 'm::comm_monoid_add"
  assumes "i < length xs"
  shows "sum_list (map f (xs[i := p])) + f (xs ! i) = sum_list (map f xs) + f p"
proof -
  have "xs = take i xs @ xs ! i # drop (Suc i) xs" using assms by (simp add: id_take_nth_drop [symmetric])
  then have "sum_list (map f xs) = sum_list (map f (take i xs @ xs ! i # drop (Suc i) xs))" by argo
  moreover have "xs[i := p] = take i xs @ p # drop (Suc i) xs" using assms by (rule upd_conv_take_nth_drop)
  ultimately show ?thesis by (simp add: ac_simps)
qed

lemma sum_fun_move:
  fixes h :: "'i \<Rightarrow> 'p \<Rightarrow> 'm::comm_monoid_add"
  assumes "finite A" "i \<in> A"
  shows "(\<Sum>j\<in>A. h j ((f(i := p)) j)) + h i (f i) = (\<Sum>j\<in>A. h j (f j)) + h i p"
proof -
  have "(\<Sum>j\<in>A - {i}. h j ((f(i := p)) j)) = (\<Sum>j\<in>A - {i}. h j (f j))" by (rule sum.cong) auto
  then show ?thesis
    using sum.remove [OF assms, of "\<lambda>j. h j ((f(i := p)) j)"] sum.remove [OF assms, of "\<lambda>j. h j (f j)"]
    by (simp add: ac_simps)
qed

section \<open>Association lists\<close>

lemma map_of_perm:
  assumes "distinct (map fst xs)" and "mset xs = mset ys"
  shows "map_of xs = map_of ys"
proof -
  from assms have "distinct (map fst ys)"
    by (metis distinct_count_atmost_1 mset_map set_mset_mset)
  with assms show ?thesis
    by (metis map_of_eqI map_of_inject_set set_map set_mset_mset)
qed

end
