(* ===== verification/Go_Strings.thy ===== *)
theory Go_Strings
  imports Prelude
begin

text \<open>
  What the sources use of Go's packages \<^verbatim>\<open>unicode/utf8\<close>, \<^verbatim>\<open>unicode\<close>,
  \<^verbatim>\<open>strings\<close>, \<^verbatim>\<open>strconv\<close>, \<^verbatim>\<open>path/filepath\<close> and \<^verbatim>\<open>fmt\<close>, on
  byte strings. UTF-8 decoding is Go's, invalid bytes included. The Unicode tables above the ASCII
  range are a parameter, the record \<open>ucd\<close>; nothing is assumed of it.
\<close>

section \<open>Bytes, runes and UTF-8\<close>

abbreviation byte :: "char \<Rightarrow> nat" where
  "byte c \<equiv> of_char c"

definition is_ascii :: "string \<Rightarrow> bool" where
  "is_ascii s \<longleftrightarrow> list_all (\<lambda>c. byte c < 128) s"

definition is_cont :: "char \<Rightarrow> bool" where
  "is_cont c \<longleftrightarrow> 128 \<le> byte c \<and> byte c \<le> 191"

definition RuneError :: nat where
  "RuneError = 65533"

text \<open>\<^verbatim>\<open>utf8.DecodeRuneInString\<close>: the first rune and its width; a byte that starts no valid
  encoding (overlong forms, surrogates and values above 0x10FFFF included) is
  \<open>RuneError\<close> of width 1.\<close>

definition decode2 :: "nat \<Rightarrow> string \<Rightarrow> (nat \<times> nat) option" where
  "decode2 b0 cs =
    (case cs of
       c1 # _ \<Rightarrow> if is_cont c1 then Some ((b0 - 192) * 64 + (byte c1 - 128), 2) else None
     | [] \<Rightarrow> None)"

definition decode3 :: "nat \<Rightarrow> string \<Rightarrow> (nat \<times> nat) option" where
  "decode3 b0 cs =
    (case cs of
       c1 # c2 # _ \<Rightarrow>
         if (if b0 = 224 then 160 else 128) \<le> byte c1 \<and> byte c1 \<le> (if b0 = 237 then 159 else 191)
            \<and> is_cont c2
         then Some ((b0 - 224) * 4096 + (byte c1 - 128) * 64 + (byte c2 - 128), 3) else None
     | _ \<Rightarrow> None)"

definition decode4 :: "nat \<Rightarrow> string \<Rightarrow> (nat \<times> nat) option" where
  "decode4 b0 cs =
    (case cs of
       c1 # c2 # c3 # _ \<Rightarrow>
         if (if b0 = 240 then 144 else 128) \<le> byte c1 \<and> byte c1 \<le> (if b0 = 244 then 143 else 191)
            \<and> is_cont c2 \<and> is_cont c3
         then Some ((b0 - 240) * 262144 + (byte c1 - 128) * 4096 + (byte c2 - 128) * 64 + (byte c3 - 128), 4)
         else None
     | _ \<Rightarrow> None)"

definition decode_multi :: "nat \<Rightarrow> string \<Rightarrow> (nat \<times> nat) option" where
  "decode_multi b0 cs =
    (if 194 \<le> b0 \<and> b0 \<le> 223 then decode2 b0 cs
     else if 224 \<le> b0 \<and> b0 \<le> 239 then decode3 b0 cs
     else if 240 \<le> b0 \<and> b0 \<le> 244 then decode4 b0 cs
     else None)"

fun decodeRune :: "string \<Rightarrow> nat \<times> nat" where
  "decodeRune [] = (RuneError, 0)"
| "decodeRune (c0 # cs) =
    (if byte c0 < 128 then (byte c0, 1)
     else case decode_multi (byte c0) cs of Some d \<Rightarrow> d | None \<Rightarrow> (RuneError, 1))"

declare decodeRune.simps(2) [simp del]

lemmas decode_defs = decodeRune.simps(2) decode_multi_def decode2_def decode3_def decode4_def

definition valid_rune :: "nat \<Rightarrow> bool" where
  "valid_rune r \<longleftrightarrow> r < 55296 \<or> (57344 \<le> r \<and> r < 1114112)"

text \<open>\<^verbatim>\<open>utf8.AppendRune\<close>: an invalid rune is written as \<open>RuneError\<close>.\<close>

definition encodeValid :: "nat \<Rightarrow> string" where
  "encodeValid r =
    (if r < 128 then [char_of r]
     else if r < 2048 then [char_of (192 + r div 64), char_of (128 + r mod 64)]
     else if r < 65536 then
       [char_of (224 + r div 4096), char_of (128 + r div 64 mod 64), char_of (128 + r mod 64)]
     else [char_of (240 + r div 262144), char_of (128 + r div 4096 mod 64),
           char_of (128 + r div 64 mod 64), char_of (128 + r mod 64)])"

definition encodeRune :: "nat \<Rightarrow> string" where
  "encodeRune r = encodeValid (if valid_rune r then r else RuneError)"

lemma decode2_bounds:
  "decode2 b0 cs = Some (r, w) \<Longrightarrow> 194 \<le> b0 \<Longrightarrow> 128 \<le> r \<and> 0 < w \<and> w \<le> Suc (length cs)"
  by (cases cs) (auto simp: decode2_def split: if_splits)

lemma decode3_bounds:
  "decode3 b0 cs = Some (r, w) \<Longrightarrow> 224 \<le> b0 \<Longrightarrow> 128 \<le> r \<and> 0 < w \<and> w \<le> Suc (length cs)"
  by (cases "b0 = 224") (auto simp: decode3_def split: if_splits list.splits)

lemma decode4_bounds:
  "decode4 b0 cs = Some (r, w) \<Longrightarrow> 240 \<le> b0 \<Longrightarrow> 128 \<le> r \<and> 0 < w \<and> w \<le> Suc (length cs)"
  by (cases "b0 = 240") (auto simp: decode4_def split: if_splits list.splits)

lemma decode_multi_bounds:
  "decode_multi b0 cs = Some (r, w) \<Longrightarrow> 128 \<le> r \<and> 0 < w \<and> w \<le> Suc (length cs)"
  by (auto simp: decode_multi_def split: if_splits dest: decode2_bounds decode3_bounds decode4_bounds)

lemma decodeRune_cases:
  assumes "decodeRune (c # cs) = (r, w)"
  obtains (ascii) "byte c < 128" "r = byte c" "w = 1"
    | (multi) "128 \<le> r" "0 < w" "w \<le> Suc (length cs)"
proof (cases "byte c < 128")
  case True
  with assms show ?thesis by (auto simp: decodeRune.simps(2) intro: ascii)
next
  case False
  show ?thesis
  proof (cases "decode_multi (byte c) cs")
    case None
    with assms False have "r = RuneError" "w = 1" by (simp_all add: decodeRune.simps(2))
    then show ?thesis by (intro multi) (simp_all add: RuneError_def)
  next
    case (Some d)
    with assms False have "decode_multi (byte c) cs = Some (r, w)" by (simp add: decodeRune.simps(2))
    then show ?thesis using decode_multi_bounds multi by blast
  qed
qed

lemma decodeRune_width: "decodeRune (c # cs) = (r, w) \<Longrightarrow> 0 < w \<and> w \<le> Suc (length cs)"
  by (erule decodeRune_cases) auto

lemma decode_multi_high:
  assumes "decode_multi b0 cs = Some (r, w)"
  shows "\<forall>x\<in>set (take (w - 1) cs). 128 \<le> byte x"
proof -
  consider "decode2 b0 cs = Some (r, w)" | "decode3 b0 cs = Some (r, w)" | "decode4 b0 cs = Some (r, w)"
    using assms by (auto simp: decode_multi_def split: if_splits)
  then show ?thesis
    by cases (auto simp: decode2_def decode3_def decode4_def is_cont_def numeral_2_eq_2
        split: list.splits if_splits)
qed

lemma decodeRune_high:
  assumes "decodeRune (c # cs) = (r, w)" "128 \<le> r"
  shows "\<forall>x\<in>set (take w (c # cs)). 128 \<le> byte x"
proof (cases "byte c < 128")
  case True
  with assms show ?thesis by (simp add: decodeRune.simps(2))
next
  case False
  show ?thesis
  proof (cases "decode_multi (byte c) cs")
    case None
    with assms False have "w = 1" by (simp add: decodeRune.simps(2))
    with False show ?thesis by simp
  next
    case (Some d)
    with assms False have "decode_multi (byte c) cs = Some (r, w)" by (simp add: decodeRune.simps(2))
    with decode_multi_high [OF this] decode_multi_bounds [OF this] False show ?thesis
      by (cases w) auto
  qed
qed

lemma decodeRune_small: "decodeRune (c # cs) = (r, w) \<Longrightarrow> r < 128 \<Longrightarrow> byte c = r \<and> w = 1"
  by (erule decodeRune_cases) auto

lemma decodeRune_ascii [go_strings]: "byte c < 128 \<Longrightarrow> decodeRune (c # cs) = (byte c, 1)"
  by (simp add: decodeRune.simps(2))

lemma byte_char_of: "n < 256 \<Longrightarrow> byte (char_of n) = n"
  by simp

lemma base64_digits:
  fixes r :: nat
  shows "\<exists>q x y z. r = 64 * q + z \<and> q = 64 * x + y \<and> z < 64 \<and> y < 64 \<and>
    r div 4096 = x \<and> r div 64 mod 64 = y \<and> r mod 64 = z"
  using div_mult2_eq [of r 64 64]
  by (intro exI [of _ "r div 64"] exI [of _ "r div 4096"] exI [of _ "r div 64 mod 64"]
      exI [of _ "r mod 64"]) simp

text \<open>Decoding reads back what encoding wrote, whatever follows.\<close>

lemma decode_encodeValid:
  assumes "valid_rune r"
  shows "decodeRune (encodeValid r @ s) = (r, length (encodeValid r))"
proof -
  consider (a) "r < 128" | (b) "128 \<le> r" "r < 2048" | (c) "2048 \<le> r" "r < 65536"
    | (d) "65536 \<le> r" "r < 1114112"
    using assms unfolding valid_rune_def by linarith
  then show ?thesis
  proof cases
    case a
    then show ?thesis by (simp add: encodeValid_def decodeRune.simps(2))
  next
    case b
    have e: "encodeValid r = [char_of (192 + r div 64), char_of (128 + r mod 64)]"
      using b by (simp add: encodeValid_def)
    have "2 \<le> r div 64" "r div 64 < 32" using b by (auto simp: div_le_mono less_mult_imp_div_less)
    then show ?thesis unfolding e
      by (simp add: decode_defs byte_char_of is_cont_def)
  next
    case c
    obtain q x y z where r: "r = 64 * q + z" "q = 64 * x + y" and lt: "z < 64" "y < 64"
      and dv: "r div 4096 = x" "r div 64 mod 64 = y" "r mod 64 = z"
      using base64_digits by blast
    have e: "encodeValid r = [char_of (224 + x), char_of (128 + y), char_of (128 + z)]"
      using c dv by (simp add: encodeValid_def)
    have hi: "x < 16" and lo: "x = 0 \<Longrightarrow> 32 \<le> y" using r lt c by linarith+
    have sur: "x = 13 \<Longrightarrow> y < 32"
      using assms r lt c unfolding valid_rune_def by linarith
    have "decodeRune (encodeValid r @ s) = (4096 * x + 64 * y + z, 3)"
      using hi lo sur lt
      by (auto simp: e decode_defs byte_char_of is_cont_def)
    then show ?thesis using r e by simp
  next
    case d
    obtain q x y z where r: "r = 64 * q + z" "q = 64 * x + y" and lt: "z < 64" "y < 64"
      and dv: "r div 4096 = x" "r div 64 mod 64 = y" "r mod 64 = z"
      using base64_digits by blast
    define v w where dv': "v = x div 64" "w = x mod 64"
    then have x: "x = 64 * v + w" and w: "w < 64" by simp_all
    have "r div 262144 = v" "r div 4096 mod 64 = w"
      using dv dv' div_mult2_eq [of r 4096 64] by simp_all
    then have e: "encodeValid r =
        [char_of (240 + v), char_of (128 + w), char_of (128 + y), char_of (128 + z)]"
      using d dv by (simp add: encodeValid_def)
    have hi: "v < 5" and lo: "v = 0 \<Longrightarrow> 16 \<le> w" and top: "v = 4 \<Longrightarrow> w < 16"
      using r x lt w d by linarith+
    have "decodeRune (encodeValid r @ s) = (262144 * v + 4096 * w + 64 * y + z, 4)"
      using hi lo top lt w
      by (auto simp: e decode_defs byte_char_of is_cont_def)
    then show ?thesis using r x e by simp
  qed
qed

text \<open>Conversely, a rune that was decoded from a valid encoding encodes to the bytes read.\<close>

lemma char_of_byte_split: "k \<le> byte c \<Longrightarrow> char_of (k + (byte c - k)) = c"
  by simp

lemma cont_offset: "is_cont c \<Longrightarrow> byte c - 128 < 64 \<and> char_of (128 + (byte c - 128)) = c"
  by (auto simp: is_cont_def)

lemma encode_decode2:
  assumes "decode2 (byte c0) (c1 # cs) = Some (r, w)" "194 \<le> byte c0" "byte c0 \<le> 223"
  shows "encodeValid r = take w (c0 # c1 # cs) \<and> valid_rune r"
proof -
  define x y where xy: "x = byte c0 - 192" "y = byte c1 - 128"
  have c1: "is_cont c1" and r: "r = x * 64 + y" "w = 2"
    using assms(1) by (auto simp: decode2_def xy split: if_splits)
  have b: "y < 64" "2 \<le> x" "x < 32" using cont_offset [OF c1] assms xy by auto
  then have "128 \<le> r" "r < 2048" "r div 64 = x" "r mod 64 = y" using r by auto
  then show ?thesis
    using r(2) cont_offset [OF c1] char_of_byte_split [of 192 c0] assms xy
    by (simp add: encodeValid_def valid_rune_def)
qed

lemma encode_decode3:
  assumes "decode3 (byte c0) (c1 # c2 # cs) = Some (r, w)" "224 \<le> byte c0" "byte c0 \<le> 239"
  shows "encodeValid r = take w (c0 # c1 # c2 # cs) \<and> valid_rune r"
proof -
  define x y z where xyz: "x = byte c0 - 224" "y = byte c1 - 128" "z = byte c2 - 128"
  have c: "is_cont c1" "is_cont c2" and r: "r = (x * 64 + y) * 64 + z" "w = 3"
    and lo: "x = 0 \<Longrightarrow> 32 \<le> y" and sur: "x = 13 \<Longrightarrow> y < 32"
    using assms by (auto simp: decode3_def is_cont_def xyz split: if_splits)
  have flat: "r = 4096 * x + 64 * y + z" using r by simp
  have b: "y < 64" "z < 64" "x < 16" using cont_offset [OF c(1)] cont_offset [OF c(2)] assms xyz by auto
  have "r mod 64 = z" using b by (simp only: r(1) mod_mult_self3 mod_less)
  moreover have "r div 64 = x * 64 + y" using r b by auto
  moreover from this have "r div 4096 = x" using b div_mult2_eq [of r 64 64] by simp
  moreover have "2048 \<le> r" using r lo by (cases "x = 0") auto
  moreover have "r < 65536" using flat b by linarith
  moreover have "r < 55296 \<or> 57344 \<le> r"
  proof (cases "x = 13")
    case True
    with sur r b show ?thesis by auto
  next
    case False
    then have "x \<le> 12 \<or> 14 \<le> x" by linarith
    with flat b show ?thesis by linarith
  qed
  ultimately show ?thesis
    using r(2) b cont_offset [OF c(1)] cont_offset [OF c(2)] char_of_byte_split [of 224 c0] assms xyz
    by (simp add: encodeValid_def valid_rune_def)
qed

lemma encode_decode4:
  assumes "decode4 (byte c0) (c1 # c2 # c3 # cs) = Some (r, w)" "240 \<le> byte c0" "byte c0 \<le> 244"
  shows "encodeValid r = take w (c0 # c1 # c2 # c3 # cs) \<and> valid_rune r"
proof -
  define v x y z where vxyz: "v = byte c0 - 240" "x = byte c1 - 128" "y = byte c2 - 128" "z = byte c3 - 128"
  have c: "is_cont c1" "is_cont c2" "is_cont c3" and r: "r = ((v * 64 + x) * 64 + y) * 64 + z" "w = 4"
    and lo: "v = 0 \<Longrightarrow> 16 \<le> x" and top: "v = 4 \<Longrightarrow> x < 16"
    using assms by (auto simp: decode4_def is_cont_def vxyz split: if_splits)
  have flat: "r = 262144 * v + 4096 * x + 64 * y + z" using r by simp
  have b: "x < 64" "y < 64" "z < 64" "v < 5"
    using cont_offset [OF c(1)] cont_offset [OF c(2)] cont_offset [OF c(3)] assms vxyz by auto
  have q: "r div 64 = (v * 64 + x) * 64 + y" using r b by auto
  have q': "r div 4096 = v * 64 + x" using q b div_mult2_eq [of r 64 64] by simp
  have dz: "r mod 64 = z" using b by (simp only: r(1) mod_mult_self3 mod_less)
  have dy: "r div 64 mod 64 = y" using b by (simp only: q mod_mult_self3 mod_less)
  have dx: "r div 4096 mod 64 = x" using b by (simp only: q' mod_mult_self3 mod_less)
  have dv: "r div 262144 = v" using q' b div_mult2_eq [of r 4096 64] by simp
  have lb: "65536 \<le> r" using r lo by (cases "v = 0") auto
  have ub: "r < 1114112"
  proof (cases "v = 4")
    case True
    with top r b show ?thesis by auto
  next
    case False
    with b have "v \<le> 3" by linarith
    with flat b show ?thesis by linarith
  qed
  have "encodeValid r = [char_of (240 + v), char_of (128 + x), char_of (128 + y), char_of (128 + z)]"
    unfolding encodeValid_def dv dx dy dz using lb by simp
  also have "\<dots> = [c0, c1, c2, c3]"
    using cont_offset [OF c(1)] cont_offset [OF c(2)] cont_offset [OF c(3)]
      char_of_byte_split [of 240 c0] assms(2) unfolding vxyz by simp
  finally show ?thesis using r(2) lb ub by (simp add: valid_rune_def)
qed

lemma encode_decodeRune:
  assumes "decodeRune (c # cs) = (r, w)" "r \<noteq> RuneError \<or> w \<noteq> 1"
  shows "encodeValid r = take w (c # cs) \<and> valid_rune r"
proof (cases "byte c < 128")
  case True
  with assms show ?thesis by (auto simp: decodeRune.simps(2) encodeValid_def valid_rune_def)
next
  case False
  with assms have d: "decode_multi (byte c) cs = Some (r, w)"
    by (auto simp: decodeRune.simps(2) split: option.splits)
  then consider (two) c1 t where "194 \<le> byte c" "byte c \<le> 223" "cs = c1 # t" "decode2 (byte c) cs = Some (r, w)"
    | (three) c1 c2 t where "224 \<le> byte c" "byte c \<le> 239" "cs = c1 # c2 # t" "decode3 (byte c) cs = Some (r, w)"
    | (four) c1 c2 c3 t where "240 \<le> byte c" "byte c \<le> 244" "cs = c1 # c2 # c3 # t" "decode4 (byte c) cs = Some (r, w)"
    by (auto simp: decode_multi_def decode2_def decode3_def decode4_def split: if_splits list.splits)
  then show ?thesis
  proof cases
    case two
    then show ?thesis using encode_decode2 by blast
  next
    case three
    then show ?thesis using encode_decode3 by blast
  next
    case four
    then show ?thesis using encode_decode4 by blast
  qed
qed

section \<open>Splitting a string into its runes\<close>

text \<open>Each rune with the bytes it was decoded from.\<close>

function runes :: "string \<Rightarrow> (nat \<times> string) list" where
  "runes [] = []"
| "runes (c # cs) =
    (case decodeRune (c # cs) of (r, w) \<Rightarrow> (r, take w (c # cs)) # runes (drop w (c # cs)))"
  by pat_completeness auto
termination
proof (relation "measure length", goal_cases)
  case (2 c cs r w)
  then show ?case using decodeRune_width [of c cs r w] by simp
qed simp

declare runes.simps(2) [simp del]

lemma concat_runes [simp]: "concat (map snd (runes s)) = s"
  by (induction s rule: runes.induct) (auto simp: runes.simps(2) split: prod.splits)

lemma runes_eq_Nil [simp]: "runes s = [] \<longleftrightarrow> s = []"
  by (cases s) (auto simp: runes.simps(2) split: prod.splits)

lemma runes_nonempty: "(r, ch) \<in> set (runes s) \<Longrightarrow> ch \<noteq> []"
proof (induction s rule: runes.induct)
  case (2 c cs)
  obtain r' w where "decodeRune (c # cs) = (r', w)" by fastforce
  with 2 show ?case using decodeRune_width [of c cs r' w] by (auto simp: runes.simps(2))
qed simp

text \<open>A rune below 128 is its own single byte.\<close>

lemma runes_small: "(r, ch) \<in> set (runes s) \<Longrightarrow> r < 128 \<Longrightarrow> ch = [char_of r]"
proof (induction s rule: runes.induct)
  case (2 c cs)
  obtain r' w where d: "decodeRune (c # cs) = (r', w)" by fastforce
  show ?case
  proof (cases "(r, ch) = (r', take w (c # cs))")
    case True
    then show ?thesis using decodeRune_small [OF d] 2(3) by auto
  next
    case False
    with 2 d show ?thesis by (auto simp: runes.simps(2))
  qed
qed simp

lemma runes_high: "(r, ch) \<in> set (runes s) \<Longrightarrow> 128 \<le> r \<Longrightarrow> \<forall>c\<in>set ch. 128 \<le> byte c"
proof (induction s rule: runes.induct)
  case (2 c cs)
  obtain r' w where d: "decodeRune (c # cs) = (r', w)" by fastforce
  then show ?case using 2 decodeRune_high [OF d] by (auto simp: runes.simps(2))
qed simp

lemma runes_ascii [go_strings]: "is_ascii s \<Longrightarrow> runes s = map (\<lambda>c. (byte c, [c])) s"
  by (induction s) (auto simp: is_ascii_def runes.simps(2) decodeRune_ascii)

text \<open>\<^verbatim>\<open>for i, r := range s\<close>: the byte offset and the rune of every step.\<close>

fun range_from :: "nat \<Rightarrow> (nat \<times> string) list \<Rightarrow> (nat \<times> nat) list" where
  "range_from i [] = []"
| "range_from i ((r, ch) # chs) = (i, r) # range_from (i + length ch) chs"

definition range_string :: "string \<Rightarrow> (nat \<times> nat) list" where
  "range_string s = range_from 0 (runes s)"

section \<open>Package unicode\<close>

text \<open>The Unicode character database above ASCII, as Go's generated tables hold it.\<close>

record ucd =
  ucdIsLower :: "nat \<Rightarrow> bool"
  ucdIsDigit :: "nat \<Rightarrow> bool"
  ucdToLower :: "nat \<Rightarrow> nat"
  ucdIsPrint :: "nat \<Rightarrow> bool"

definition unicode_IsLower :: "ucd \<Rightarrow> nat \<Rightarrow> bool" where
  "unicode_IsLower u r = (if r < 128 then 97 \<le> r \<and> r \<le> 122 else ucdIsLower u r)"

definition unicode_IsDigit :: "ucd \<Rightarrow> nat \<Rightarrow> bool" where
  "unicode_IsDigit u r = (if r < 128 then 48 \<le> r \<and> r \<le> 57 else ucdIsDigit u r)"

definition unicode_ToLower :: "ucd \<Rightarrow> nat \<Rightarrow> nat" where
  "unicode_ToLower u r = (if r < 128 then (if 65 \<le> r \<and> r \<le> 90 then r + 32 else r) else ucdToLower u r)"

text \<open>\<^verbatim>\<open>unicode.IsSpace\<close>: the White\_Space property, a closed list.\<close>

definition unicode_IsSpace :: "nat \<Rightarrow> bool" where
  "unicode_IsSpace r \<longleftrightarrow> (9 \<le> r \<and> r \<le> 13) \<or> r = 32 \<or> r = 133 \<or> r = 160 \<or> r = 5760 \<or>
    (8192 \<le> r \<and> r \<le> 8202) \<or> r = 8232 \<or> r = 8233 \<or> r = 8239 \<or> r = 8287 \<or> r = 12288"

text \<open>The ASCII part of the database is all that ASCII text reads: a database that knows
  nothing above it.\<close>

definition ascii_ucd :: ucd where
  "ascii_ucd = \<lparr>ucdIsLower = (\<lambda>_. False), ucdIsDigit = (\<lambda>_. False), ucdToLower = id,
     ucdIsPrint = (\<lambda>_. False)\<rparr>"

section \<open>Package strings\<close>

definition strings_ToLower :: "ucd \<Rightarrow> string \<Rightarrow> string" where
  "strings_ToLower u s = concat (map (\<lambda>(r, ch). encodeRune (unicode_ToLower u r)) (runes s))"

definition lower_byte :: "char \<Rightarrow> char" where
  "lower_byte c = (if 65 \<le> byte c \<and> byte c \<le> 90 then char_of (byte c + 32) else c)"

lemma encodeRune_ascii: "r < 128 \<Longrightarrow> encodeRune r = [char_of r]"
  by (simp add: encodeRune_def encodeValid_def valid_rune_def)

lemma strings_ToLower_ascii [go_strings]: "is_ascii s \<Longrightarrow> strings_ToLower u s = map lower_byte s"
proof (induction s)
  case (Cons c s)
  then have "byte c < 128" "is_ascii s" by (simp_all add: is_ascii_def)
  with Cons show ?case
    by (simp add: strings_ToLower_def runes.simps(2) decodeRune_ascii unicode_ToLower_def
        encodeRune_ascii lower_byte_def)
qed (simp add: strings_ToLower_def)

abbreviation is_space :: "nat \<times> string \<Rightarrow> bool" where
  "is_space rc \<equiv> unicode_IsSpace (fst rc)"

text \<open>\<^verbatim>\<open>strings.TrimSpace\<close>: UTF-8 is self-synchronising, so trimming the decoded runes from
  the right is what Go does by decoding backwards.\<close>

definition strings_TrimSpace :: "string \<Rightarrow> string" where
  "strings_TrimSpace s =
    concat (map snd (rev (dropWhile is_space (rev (dropWhile is_space (runes s))))))"

text \<open>\<^verbatim>\<open>strings.Fields\<close>: the maximal runs of non-space runes.\<close>

fun fields_acc :: "string \<Rightarrow> (nat \<times> string) list \<Rightarrow> string list" where
  "fields_acc cur [] = (if cur = [] then [] else [cur])"
| "fields_acc cur ((r, ch) # chs) =
    (if unicode_IsSpace r then (if cur = [] then [] else [cur]) @ fields_acc [] chs
     else fields_acc (cur @ ch) chs)"

definition strings_Fields :: "string \<Rightarrow> string list" where
  "strings_Fields s = fields_acc [] (runes s)"

abbreviation strings_HasPrefix :: "string \<Rightarrow> string \<Rightarrow> bool" where
  "strings_HasPrefix s p \<equiv> prefix p s"

abbreviation strings_HasSuffix :: "string \<Rightarrow> string \<Rightarrow> bool" where
  "strings_HasSuffix s p \<equiv> suffix p s"

text \<open>\<^verbatim>\<open>strings.ReplaceAll(s, "c", "")\<close>, the only form the sources use.\<close>

definition strings_RemoveAll :: "char \<Rightarrow> string \<Rightarrow> string" where
  "strings_RemoveAll c s = filter (\<lambda>x. x \<noteq> c) s"

fun strings_Index :: "string \<Rightarrow> string \<Rightarrow> nat option" where
  "strings_Index [] sub = (if sub = [] then Some 0 else None)"
| "strings_Index (c # cs) sub =
    (if prefix sub (c # cs) then Some 0 else map_option Suc (strings_Index cs sub))"

definition strings_Contains :: "string \<Rightarrow> string \<Rightarrow> bool" where
  "strings_Contains s sub \<longleftrightarrow> strings_Index s sub \<noteq> None"

fun strings_Join :: "string list \<Rightarrow> string \<Rightarrow> string" where
  "strings_Join [] sep = []"
| "strings_Join [x] sep = x"
| "strings_Join (x # y # ys) sep = x @ sep @ strings_Join (y # ys) sep"

text \<open>\<^verbatim>\<open>strings.Split\<close> on a one-byte separator.\<close>

fun strings_Split :: "string \<Rightarrow> char \<Rightarrow> string list" where
  "strings_Split [] c = [[]]"
| "strings_Split (x # xs) c =
    (if x = c then [] # strings_Split xs c
     else (case strings_Split xs c of p # ps \<Rightarrow> (x # p) # ps | [] \<Rightarrow> [[x]]))"

text \<open>\<^verbatim>\<open>strings.TrimSuffix\<close>\<close>

definition strings_TrimSuffix :: "string \<Rightarrow> string \<Rightarrow> string" where
  "strings_TrimSuffix s p = (if suffix p s then take (length s - length p) s else s)"

lemma strings_Index_Some:
  "strings_Index s sub = Some i \<Longrightarrow> \<exists>pre post. s = pre @ sub @ post \<and> length pre = i"
proof (induction s sub arbitrary: i rule: strings_Index.induct)
  case (1 sub)
  then show ?case by (auto split: if_splits)
next
  case (2 c cs sub)
  show ?case
  proof (cases "prefix sub (c # cs)")
    case True
    with 2 show ?thesis by (auto simp: prefix_def)
  next
    case False
    with 2 obtain j where "strings_Index cs sub = Some j" "i = Suc j" by auto
    with 2(1) [OF False, of j] show ?thesis by (metis append_Cons length_Cons)
  qed
qed

lemma strings_Index_None: "strings_Index s sub = None \<longleftrightarrow> \<not> sublist sub s"
  by (induction s sub rule: strings_Index.induct) (auto simp: sublist_Cons_right)

lemma strings_Contains_iff [go_strings]: "strings_Contains s sub \<longleftrightarrow> sublist sub s"
  by (simp add: strings_Contains_def strings_Index_None)

lemma strings_Split_nonempty [simp]: "strings_Split s c \<noteq> []"
  by (induction s c rule: strings_Split.induct) (auto split: list.splits)

lemma strings_Join_Cons:
  "strings_Join (x # ys) sep = x @ (if ys = [] then [] else sep @ strings_Join ys sep)"
  by (cases ys) auto

text \<open>Splitting loses nothing.\<close>

lemma strings_Split_Join: "strings_Join (strings_Split s c) [c] = s"
proof (induction s c rule: strings_Split.induct)
  case (2 x xs c)
  then show ?case
    by (cases "strings_Split xs c") (auto simp: strings_Join_Cons)
qed simp

lemma strings_Split_no_sep: "c \<notin> set s \<Longrightarrow> strings_Split s c = [s]"
  by (induction s) auto

lemma strings_Split_append:
  "c \<notin> set p \<Longrightarrow> strings_Split (p @ c # s) c = p # strings_Split s c"
  by (induction p) auto

section \<open>Decimal and quoted text: strconv and fmt\<close>

definition digit_char :: "nat \<Rightarrow> char" where
  "digit_char d = char_of (48 + d)"

fun nat_dec :: "nat \<Rightarrow> string" where
  "nat_dec n = (if n < 10 then [digit_char n] else nat_dec (n div 10) @ [digit_char (n mod 10)])"

declare nat_dec.simps [simp del]

text \<open>\<^verbatim>\<open>%d\<close>\<close>

definition int_dec :: "int \<Rightarrow> string" where
  "int_dec i = (if i < 0 then CHR ''-'' # nat_dec (nat (- i)) else nat_dec (nat i))"

fun dec_value :: "nat \<Rightarrow> string \<Rightarrow> nat" where
  "dec_value acc [] = acc"
| "dec_value acc (c # cs) = dec_value (10 * acc + (byte c - 48)) cs"

lemma dec_value_append: "dec_value acc (s @ t) = dec_value (dec_value acc s) t"
  by (induction acc s rule: dec_value.induct) auto

lemma byte_digit_char: "d < 10 \<Longrightarrow> byte (digit_char d) = 48 + d"
  by (simp add: digit_char_def)

lemma dec_value_nat_dec [simp]: "dec_value 0 (nat_dec n) = n"
proof (induction n rule: nat_dec.induct)
  case (1 n)
  then show ?case
    by (cases "n < 10") (simp_all add: nat_dec.simps [of n] dec_value_append byte_digit_char)
qed

lemma nat_dec_digits: "c \<in> set (nat_dec n) \<Longrightarrow> 48 \<le> byte c \<and> byte c \<le> 57"
proof (induction n rule: nat_dec.induct)
  case (1 n)
  then show ?case
    by (cases "n < 10") (auto simp: nat_dec.simps [of n] byte_digit_char)
qed

lemma nat_dec_nonempty [simp]: "nat_dec n \<noteq> []"
  by (subst nat_dec.simps) simp

lemma nat_dec_inj: "nat_dec m = nat_dec n \<longleftrightarrow> m = n"
  by (metis dec_value_nat_dec)

definition hex_char :: "nat \<Rightarrow> char" where
  "hex_char d = (if d < 10 then char_of (48 + d) else char_of (87 + d))"

fun hex_digits :: "nat \<Rightarrow> nat \<Rightarrow> string" where
  "hex_digits 0 n = []"
| "hex_digits (Suc k) n = hex_digits k (n div 16) @ [hex_char (n mod 16)]"

definition strconv_IsPrint :: "ucd \<Rightarrow> nat \<Rightarrow> bool" where
  "strconv_IsPrint u r = (if r < 128 then 32 \<le> r \<and> r \<le> 126 else ucdIsPrint u r)"

text \<open>\<^verbatim>\<open>strconv.Quote\<close>, the text of \<^verbatim>\<open>%q\<close>: a byte that is no rune is a hexadecimal
  escape, the quote and the backslash are escaped, printable runes stand for themselves.\<close>

definition escape_rune :: "ucd \<Rightarrow> nat \<times> string \<Rightarrow> string" where
  "escape_rune u rc =
    (let r = fst rc; ch = snd rc in
     if length ch = 1 \<and> r = RuneError then [CHR 0x5C, CHR ''x''] @ hex_digits 2 (byte (hd ch))
     else if r = 34 \<or> r = 92 then CHR 0x5C # ch
     else if strconv_IsPrint u r then ch
     else if r = 7 then [CHR 0x5C, CHR ''a'']
     else if r = 8 then [CHR 0x5C, CHR ''b'']
     else if r = 12 then [CHR 0x5C, CHR ''f'']
     else if r = 10 then [CHR 0x5C, CHR ''n'']
     else if r = 13 then [CHR 0x5C, CHR ''r'']
     else if r = 9 then [CHR 0x5C, CHR ''t'']
     else if r = 11 then [CHR 0x5C, CHR ''v'']
     else if r < 32 \<or> r = 127 then [CHR 0x5C, CHR ''x''] @ hex_digits 2 r
     else if r < 65536 then [CHR 0x5C, CHR ''u''] @ hex_digits 4 r
     else [CHR 0x5C, CHR ''U''] @ hex_digits 8 r)"

definition strconv_Quote :: "ucd \<Rightarrow> string \<Rightarrow> string" where
  "strconv_Quote u s = [CHR 0x22] @ concat (map (escape_rune u) (runes s)) @ [CHR 0x22]"

definition plain_byte :: "char \<Rightarrow> bool" where
  "plain_byte c \<longleftrightarrow> 32 \<le> byte c \<and> byte c \<le> 126 \<and> byte c \<noteq> 34 \<and> byte c \<noteq> 92"

lemma strconv_Quote_plain [go_strings]:
  "list_all plain_byte s \<Longrightarrow> strconv_Quote u s = [CHR 0x22] @ s @ [CHR 0x22]"
proof (induction s)
  case (Cons c s)
  then have "byte c < 128" "plain_byte c" by (simp_all add: plain_byte_def)
  moreover from this have "escape_rune u (byte c, [c]) = [c]"
    by (simp add: escape_rune_def RuneError_def strconv_IsPrint_def plain_byte_def)
  ultimately show ?case using Cons
    by (simp add: strconv_Quote_def runes.simps(2) decodeRune_ascii)
qed (simp add: strconv_Quote_def)

section \<open>Package path/filepath\<close>

text \<open>\<^verbatim>\<open>filepath.Ext\<close>: the last element's text from its last dot on.\<close>

definition filepath_Ext :: "string \<Rightarrow> string" where
  "filepath_Ext path =
    (let base = takeWhile (\<lambda>c. c \<noteq> CHR ''/'') (rev path) in
     if CHR ''.'' \<in> set base then CHR ''.'' # rev (takeWhile (\<lambda>c. c \<noteq> CHR ''.'') base) else [])"

lemma prefix_takeWhile_hit:
  assumes "x \<in> set xs"
  shows "prefix (takeWhile (\<lambda>c. c \<noteq> x) xs @ [x]) xs"
  using assms by (induction xs) auto

lemma filepath_Ext_suffix: "suffix (filepath_Ext path) path"
proof (cases "CHR ''.'' \<in> set (takeWhile (\<lambda>c. c \<noteq> CHR ''/'') (rev path))")
  case True
  then have "prefix (takeWhile (\<lambda>c. c \<noteq> CHR ''.'') (takeWhile (\<lambda>c. c \<noteq> CHR ''/'') (rev path)) @ [CHR ''.''])
      (takeWhile (\<lambda>c. c \<noteq> CHR ''/'') (rev path))"
    by (rule prefix_takeWhile_hit)
  then have "prefix (takeWhile (\<lambda>c. c \<noteq> CHR ''.'') (takeWhile (\<lambda>c. c \<noteq> CHR ''/'') (rev path)) @ [CHR ''.''])
      (rev path)"
    using takeWhile_is_prefix by (rule prefix_order.trans)
  with True show ?thesis
    by (simp add: filepath_Ext_def Let_def suffix_to_prefix)
qed (simp add: filepath_Ext_def Let_def)

end
