(* ===== verification/Mcp_Model.thy ===== *)
theory Mcp_Model
  imports Go_Strings Complex_Main
begin

text \<open>
  The normalized view of a server's tools (\<^verbatim>\<open>internal/mcpmodel/tool.go\<close>) and the dynamically
  typed values a tool's schema holds: what \<^verbatim>\<open>encoding/json\<close> stores in a Go \<^verbatim>\<open>any\<close>.
\<close>

section \<open>Values of type any\<close>

text \<open>A decoded JSON value: \<^verbatim>\<open>nil\<close>, \<^verbatim>\<open>bool\<close>, \<^verbatim>\<open>float64\<close> (its exact value),
  \<^verbatim>\<open>string\<close>, \<^verbatim>\<open>[]any\<close> and \<^verbatim>\<open>map[string]any\<close>.\<close>

datatype json =
    JNull
  | JBool bool
  | JNum rat
  | JStr string
  | JArr "json list"
  | JObj "(string \<times> json) list"

type_synonym jmap = "(string \<times> json) list"

text \<open>Every map in the value has distinct keys.\<close>

fun json_wf :: "json \<Rightarrow> bool" where
  "json_wf (JArr xs) = list_all json_wf xs"
| "json_wf (JObj kvs) = (distinct (map fst kvs) \<and> list_all json_wf (map snd kvs))"
| "json_wf _ = True"

text \<open>The comma-ok map read followed by a type assertion: \<^verbatim>\<open>m["k"].(map[string]any)\<close> and
  \<^verbatim>\<open>m["k"].([]any)\<close>.\<close>

definition get_obj :: "jmap \<Rightarrow> string \<Rightarrow> jmap option" where
  "get_obj m k = (case map_of m k of Some (JObj kvs) \<Rightarrow> Some kvs | _ \<Rightarrow> None)"

definition get_arr :: "jmap \<Rightarrow> string \<Rightarrow> json list option" where
  "get_arr m k = (case map_of m k of Some (JArr xs) \<Rightarrow> Some xs | _ \<Rightarrow> None)"

definition has_key :: "jmap \<Rightarrow> string \<Rightarrow> bool" where
  "has_key m k \<longleftrightarrow> map_of m k \<noteq> None"

lemma has_key_iff: "has_key m k \<longleftrightarrow> k \<in> set (map fst m)"
  by (simp add: has_key_def map_of_eq_None_iff)

section \<open>Tools\<close>

record tool =
  Name :: string
  Description :: string
  InputSchema :: "jmap option"
  SourceFile :: string
  SourceLine :: int

record toolset =
  Tools :: "tool list"
  Source :: string

text \<open>The \<^verbatim>\<open>properties\<close> map of a tool's schema, when the schema is there and has one: the chain
  of early returns that four rules share.\<close>

definition schema_properties :: "tool \<Rightarrow> jmap option" where
  "schema_properties t = (case InputSchema t of None \<Rightarrow> None | Some schema \<Rightarrow> get_obj schema ''properties'')"

end
