(* ===== verification/Go_Json.thy ===== *)
theory Go_Json
  imports Mcp_Model
begin

text \<open>
  The parts of \<^verbatim>\<open>encoding/json\<close> the program uses: the encoder with \<^verbatim>\<open>SetIndent\<close> behind
  the three machine-readable outputs, and the parser behind the JSON and live intakes. The parser
  is a lexer followed by an automaton with an explicit stack, as the package's own scanner is, with
  its limit of 10000 open containers. The encoder's output parses back to the document.
\<close>

section \<open>Parsed values\<close>

text \<open>What the parser leaves: objects keep their members in document order, repeated keys included,
  and a number keeps its literal beside its exact value, because decoding into an integer looks at
  the literal.\<close>

datatype raw =
    RawNull
  | RawBool bool
  | RawNum string rat
  | RawStr string
  | RawArr "raw list"
  | RawObj "(string \<times> raw) list"

section \<open>Documents and their text\<close>

text \<open>What the program encodes: structs (fields in order), slices, strings, integers, booleans.\<close>

datatype jdoc =
    DStr string
  | DInt int
  | DBool bool
  | DArr "jdoc list"
  | DObj "(string \<times> jdoc) list"

abbreviation (input) bs :: char where "bs \<equiv> CHR 0x5C"
abbreviation (input) dq :: char where "dq \<equiv> CHR 0x22"
abbreviation (input) nl :: char where "nl \<equiv> CHR 0x0A"

text \<open>\<^verbatim>\<open>appendString\<close> with HTML escaping, rune by rune.\<close>

definition enc_rune :: "nat \<times> string \<Rightarrow> string" where
  "enc_rune rc =
    (let r = fst rc; ch = snd rc in
     if r = RuneError \<and> length ch = 1 then [bs, CHR ''u''] @ hex_digits 4 65533
     else if r = 34 \<or> r = 92 then bs # ch
     else if r = 8 then [bs, CHR ''b'']
     else if r = 12 then [bs, CHR ''f'']
     else if r = 10 then [bs, CHR ''n'']
     else if r = 13 then [bs, CHR ''r'']
     else if r = 9 then [bs, CHR ''t'']
     else if r < 32 \<or> r = 60 \<or> r = 62 \<or> r = 38 \<or> r = 8232 \<or> r = 8233
       then [bs, CHR ''u''] @ hex_digits 4 r
     else ch)"

definition enc_string :: "string \<Rightarrow> string" where
  "enc_string s = [dq] @ concat (map enc_rune (runes s)) @ [dq]"

definition newline_indent :: "nat \<Rightarrow> string" where
  "newline_indent d = nl # replicate (2 * d) (CHR '' '')"

fun enc_doc :: "nat \<Rightarrow> jdoc \<Rightarrow> string" where
  "enc_doc d (DStr s) = enc_string s"
| "enc_doc d (DInt i) = int_dec i"
| "enc_doc d (DBool b) = (if b then ''true'' else ''false'')"
| "enc_doc d (DArr []) = ''[]''"
| "enc_doc d (DArr (x # xs)) =
    ''['' @ newline_indent (d + 1) @ enc_doc (d + 1) x @
    concat (map (\<lambda>y. '','' @ newline_indent (d + 1) @ enc_doc (d + 1) y) xs) @
    newline_indent d @ '']''"
| "enc_doc d (DObj []) = ''{}''"
| "enc_doc d (DObj ((k, x) # kxs)) =
    ''{'' @ newline_indent (d + 1) @ enc_string k @ '': '' @ enc_doc (d + 1) x @
    concat (map (\<lambda>(k, y). '','' @ newline_indent (d + 1) @ enc_string k @ '': '' @ enc_doc (d + 1) y) kxs) @
    newline_indent d @ ''}''"

text \<open>\<^verbatim>\<open>json.Marshal\<close>: the document without white space.\<close>

fun Marshal :: "jdoc \<Rightarrow> string" where
  "Marshal (DStr s) = enc_string s"
| "Marshal (DInt i) = int_dec i"
| "Marshal (DBool b) = (if b then ''true'' else ''false'')"
| "Marshal (DArr xs) = ''['' @ strings_Join (map Marshal xs) '','' @ '']''"
| "Marshal (DObj kxs) =
    ''{'' @ strings_Join (map (\<lambda>(k, x). enc_string k @ '':'' @ Marshal x) kxs) '','' @ ''}''"

text \<open>\<^verbatim>\<open>Encoder.Encode\<close> ends the value with a newline.\<close>

definition Encode :: "jdoc \<Rightarrow> string" where
  "Encode x = enc_doc 0 x @ [nl]"

section \<open>Lexing\<close>

datatype token = TLBrace | TRBrace | TLBrack | TRBrack | TColon | TComma | TTrue | TFalse | TNull
  | TStr string | TNum string rat

definition hex_value :: "char \<Rightarrow> nat option" where
  "hex_value c =
    (let b = byte c in
     if 48 \<le> b \<and> b \<le> 57 then Some (b - 48)
     else if 97 \<le> b \<and> b \<le> 102 then Some (b - 87)
     else if 65 \<le> b \<and> b \<le> 70 then Some (b - 55)
     else None)"

text \<open>The four digits after a backslash and u, and the rest.\<close>

definition u4 :: "string \<Rightarrow> (nat \<times> string) option" where
  "u4 s =
    (case s of
       a # b # c # d # rest \<Rightarrow>
         (case (hex_value a, hex_value b, hex_value c, hex_value d) of
            (Some w, Some x, Some y, Some z) \<Rightarrow> Some (((w * 16 + x) * 16 + y) * 16 + z, rest)
          | _ \<Rightarrow> None)
     | _ \<Rightarrow> None)"

text \<open>A rune written as an escape: a high surrogate takes a following low surrogate with it, and
  any other surrogate becomes the replacement character.\<close>

definition u_escape :: "string \<Rightarrow> (string \<times> string) option" where
  "u_escape s =
    (case u4 s of
       None \<Rightarrow> None
     | Some (r, rest) \<Rightarrow>
         if r < 55296 \<or> 57344 \<le> r then Some (encodeRune r, rest)
         else
           (case rest of
              c # e # rest' \<Rightarrow>
                if c = bs \<and> e = CHR ''u'' then
                  (case u4 rest' of
                     Some (r2, rest2) \<Rightarrow>
                       if r < 56320 \<and> 56320 \<le> r2 \<and> r2 < 57344
                       then Some (encodeRune (65536 + (r - 55296) * 1024 + (r2 - 56320)), rest2)
                       else Some (encodeRune RuneError, rest)
                   | None \<Rightarrow> Some (encodeRune RuneError, rest))
                else Some (encodeRune RuneError, rest)
            | _ \<Rightarrow> Some (encodeRune RuneError, rest)))"

definition simple_escape :: "char \<Rightarrow> char option" where
  "simple_escape e =
    (if e = dq \<or> e = bs \<or> e = CHR ''/'' then Some e
     else if e = CHR ''b'' then Some (CHR 0x08)
     else if e = CHR ''f'' then Some (CHR 0x0C)
     else if e = CHR ''n'' then Some (CHR 0x0A)
     else if e = CHR ''r'' then Some (CHR 0x0D)
     else if e = CHR ''t'' then Some (CHR 0x09)
     else None)"

text \<open>One step inside a string literal: the text it stands for and what follows.\<close>

definition unquote_step :: "string \<Rightarrow> (string \<times> string) option" where
  "unquote_step s =
    (case s of
       [] \<Rightarrow> None
     | c # cs \<Rightarrow>
         if c = bs then
           (case cs of
              [] \<Rightarrow> None
            | e # rest \<Rightarrow>
                if e = CHR ''u'' then u_escape rest
                else map_option (\<lambda>x. ([x], rest)) (simple_escape e))
         else if byte c < 32 then None
         else (case decodeRune s of (r, w) \<Rightarrow> Some (encodeRune r, drop w s)))"

lemma u4_shorter: "u4 s = Some (r, rest) \<Longrightarrow> length rest < length s"
  by (auto simp: u4_def split: list.splits option.splits)

lemma u_escape_shorter: "u_escape s = Some (x, rest) \<Longrightarrow> length rest < length s"
  by (auto simp: u_escape_def split: option.splits prod.splits if_splits list.splits dest!: u4_shorter)

lemma unquote_step_shorter: "unquote_step s = Some (x, rest) \<Longrightarrow> length rest < length s"
proof (cases s)
  case (Cons c cs)
  assume "unquote_step s = Some (x, rest)"
  with Cons show ?thesis using decodeRune_width [of c cs]
    by (fastforce simp: unquote_step_def split: if_splits list.splits prod.splits dest: u_escape_shorter)
qed (simp add: unquote_step_def)

text \<open>The literal after its opening quote: its text and what follows the closing quote.\<close>

function unquote :: "string \<Rightarrow> (string \<times> string) option" where
  "unquote s =
    (if s \<noteq> [] \<and> hd s = dq then Some ([], tl s)
     else case unquote_step s of
       None \<Rightarrow> None
     | Some (x, rest) \<Rightarrow> map_option (\<lambda>(y, rest). (x @ y, rest)) (unquote rest))"
  by pat_completeness auto
termination
  by (relation "measure length") (auto dest: unquote_step_shorter)

declare unquote.simps [simp del]

lemma unquote_shorter: "unquote s = Some (x, rest) \<Longrightarrow> length rest < length s"
proof (induction s arbitrary: x rule: unquote.induct)
  case (1 s)
  show ?case
  proof (cases "s \<noteq> [] \<and> hd s = dq")
    case True
    with 1(2) show ?thesis by (cases s) (auto simp: unquote.simps [of "_ # _"])
  next
    case False
    with 1(2) obtain y s' z where s': "unquote_step s = Some (y, s')" "unquote s' = Some (z, rest)"
      by (subst (asm) unquote.simps [of s]) (auto split: if_splits option.splits)
    with 1(1) [OF False _ refl] have "length rest < length s'" by blast
    with unquote_step_shorter [OF s'(1)] show ?thesis by simp
  qed
qed

definition is_digit :: "char \<Rightarrow> bool" where
  "is_digit c \<longleftrightarrow> 48 \<le> byte c \<and> byte c \<le> 57"

definition span_digits :: "string \<Rightarrow> string \<times> string" where
  "span_digits s = (takeWhile is_digit s, dropWhile is_digit s)"

text \<open>The parts of a number literal: the integer digits without a leading zero, the fraction digits
  and the exponent.\<close>

definition lex_int :: "string \<Rightarrow> (nat \<times> string) option" where
  "lex_int s =
    (case s of
       [] \<Rightarrow> None
     | c # cs \<Rightarrow>
         if c = CHR ''0'' then Some (0, cs)
         else if is_digit c then Some (dec_value 0 (fst (span_digits s)), snd (span_digits s))
         else None)"

definition lex_frac :: "string \<Rightarrow> (rat \<times> string) option" where
  "lex_frac s =
    (case s of
       c # cs \<Rightarrow>
         if c = CHR ''.'' then
           (case span_digits cs of (ds, rest) \<Rightarrow>
              if ds = [] then None else Some (of_nat (dec_value 0 ds) / 10 ^ length ds, rest))
         else Some (0, s)
     | [] \<Rightarrow> Some (0, s))"

definition lex_exp :: "string \<Rightarrow> (rat \<times> string) option" where
  "lex_exp s =
    (case s of
       c # cs \<Rightarrow>
         if c = CHR ''e'' \<or> c = CHR ''E'' then
           (let neg = (cs \<noteq> [] \<and> hd cs = CHR ''-'');
                body = (if cs \<noteq> [] \<and> (hd cs = CHR ''-'' \<or> hd cs = CHR ''+'') then tl cs else cs)
            in case span_digits body of (ds, rest) \<Rightarrow>
                 if ds = [] then None
                 else Some (if neg then 1 / 10 ^ dec_value 0 ds else 10 ^ dec_value 0 ds, rest))
         else Some (1, s)
     | [] \<Rightarrow> Some (1, s))"

definition lex_number :: "string \<Rightarrow> (string \<times> rat \<times> string) option" where
  "lex_number s =
    (let neg = (s \<noteq> [] \<and> hd s = CHR ''-'') in
     case lex_int (if neg then tl s else s) of
       None \<Rightarrow> None
     | Some (n, s1) \<Rightarrow>
         (case lex_frac s1 of
            None \<Rightarrow> None
          | Some (f, s2) \<Rightarrow>
              (case lex_exp s2 of
                 None \<Rightarrow> None
               | Some (e, rest) \<Rightarrow>
                   Some (take (length s - length rest) s, (if neg then -1 else 1) * (of_nat n + f) * e, rest))))"

definition punctuation :: "(char \<times> token) list" where
  "punctuation = [(CHR ''{'', TLBrace), (CHR ''}'', TRBrace), (CHR ''['', TLBrack), (CHR '']'', TRBrack),
     (CHR '':'', TColon), (CHR '','', TComma)]"

definition is_json_space :: "char \<Rightarrow> bool" where
  "is_json_space c \<longleftrightarrow> c = CHR '' '' \<or> c = CHR 0x09 \<or> c = CHR 0x0D \<or> c = CHR 0x0A"

text \<open>The first token of a text that does not start with white space.\<close>

definition lex_token :: "string \<Rightarrow> (token \<times> string) option" where
  "lex_token s =
    (case s of
       [] \<Rightarrow> None
     | c # cs \<Rightarrow>
         (case map_of punctuation c of
            Some t \<Rightarrow> Some (t, cs)
          | None \<Rightarrow>
              if c = dq then map_option (\<lambda>(x, rest). (TStr x, rest)) (unquote cs)
              else if prefix ''true'' s then Some (TTrue, drop 4 s)
              else if prefix ''false'' s then Some (TFalse, drop 5 s)
              else if prefix ''null'' s then Some (TNull, drop 4 s)
              else map_option (\<lambda>(lit, q, rest). (TNum lit q, rest)) (lex_number s)))"

lemma lex_int_shorter: "lex_int s = Some (n, rest) \<Longrightarrow> length rest < length s"
  by (auto simp: lex_int_def span_digits_def split: list.splits if_splits
      intro: le_imp_less_Suc length_dropWhile_le)

lemma lex_frac_le: "lex_frac s = Some (f, rest) \<Longrightarrow> length rest \<le> length s"
  by (auto simp: lex_frac_def span_digits_def split: list.splits if_splits
      intro: le_SucI length_dropWhile_le)

lemma lex_exp_le: "lex_exp s = Some (e, rest) \<Longrightarrow> length rest \<le> length s"
proof -
  assume a: "lex_exp s = Some (e, rest)"
  have "length (dropWhile is_digit (tl cs)) \<le> length cs" "length (dropWhile is_digit cs) \<le> length cs" for cs
    using length_dropWhile_le [of is_digit "tl cs"] length_dropWhile_le [of is_digit cs] by auto
  with a show ?thesis
    by (auto simp: lex_exp_def span_digits_def Let_def le_SucI split: list.splits if_splits)
qed

lemma lex_number_shorter:
  assumes "lex_number s = Some (lit, q, rest)"
  shows "length rest < length s"
proof -
  let ?s = "if s \<noteq> [] \<and> hd s = CHR ''-'' then tl s else s"
  obtain n s1 f s2 e where "lex_int ?s = Some (n, s1)" "lex_frac s1 = Some (f, s2)" "lex_exp s2 = Some (e, rest)"
    using assms by (auto simp: lex_number_def Let_def split: option.splits)
  then have "length rest < length ?s"
    by (meson lex_int_shorter lex_frac_le lex_exp_le le_less_trans)
  then show ?thesis by (cases s) (auto split: if_splits)
qed

lemma lex_token_shorter: "lex_token s = Some (t, rest) \<Longrightarrow> length rest < length s"
  by (cases s) (auto simp: lex_token_def split: option.splits if_splits
      dest!: unquote_shorter lex_number_shorter)

function lex :: "string \<Rightarrow> token list option" where
  "lex [] = Some []"
| "lex (c # cs) =
    (if is_json_space c then lex cs
     else case lex_token (c # cs) of
       None \<Rightarrow> None
     | Some (t, rest) \<Rightarrow> map_option (\<lambda>ts. t # ts) (lex rest))"
  by pat_completeness auto
termination
  by (relation "measure length") (auto dest: lex_token_shorter)

declare lex.simps(2) [simp del]

section \<open>Parsing\<close>

text \<open>The automaton's states: what may come next, and the open containers with the elements read so
  far, last first, and for an object the key whose value comes next.\<close>

datatype frame = FArr "raw list" | FObj "(string \<times> raw) list" string

datatype pmode = WantValue | WantValueOrEnd | WantKey | WantKeyOrEnd | WantColon | HaveValue raw

definition maxNestingDepth :: nat where
  "maxNestingDepth = 10000"

definition push_frame :: "pmode \<Rightarrow> frame \<Rightarrow> frame list \<Rightarrow> (pmode \<times> frame list) option" where
  "push_frame m f stk = (if length stk < maxNestingDepth then Some (m, f # stk) else None)"

definition begin_value :: "frame list \<Rightarrow> token \<Rightarrow> (pmode \<times> frame list) option" where
  "begin_value stk t =
    (case t of
       TStr s \<Rightarrow> Some (HaveValue (RawStr s), stk)
     | TNum lit q \<Rightarrow> Some (HaveValue (RawNum lit q), stk)
     | TTrue \<Rightarrow> Some (HaveValue (RawBool True), stk)
     | TFalse \<Rightarrow> Some (HaveValue (RawBool False), stk)
     | TNull \<Rightarrow> Some (HaveValue RawNull, stk)
     | TLBrack \<Rightarrow> push_frame WantValueOrEnd (FArr []) stk
     | TLBrace \<Rightarrow> push_frame WantKeyOrEnd (FObj [] []) stk
     | _ \<Rightarrow> None)"

definition begin_key :: "frame list \<Rightarrow> token \<Rightarrow> (pmode \<times> frame list) option" where
  "begin_key stk t =
    (case stk of
       FObj kvs _ # stk' \<Rightarrow> (case t of TStr k \<Rightarrow> Some (WantColon, FObj kvs k # stk') | _ \<Rightarrow> None)
     | _ \<Rightarrow> None)"

definition end_value :: "raw \<Rightarrow> frame list \<Rightarrow> token \<Rightarrow> (pmode \<times> frame list) option" where
  "end_value v stk t =
    (case stk of
       [] \<Rightarrow> None
     | FArr vs # stk' \<Rightarrow>
         (case t of
            TComma \<Rightarrow> Some (WantValue, FArr (v # vs) # stk')
          | TRBrack \<Rightarrow> Some (HaveValue (RawArr (rev (v # vs))), stk')
          | _ \<Rightarrow> None)
     | FObj kvs k # stk' \<Rightarrow>
         (case t of
            TComma \<Rightarrow> Some (WantKey, FObj ((k, v) # kvs) k # stk')
          | TRBrace \<Rightarrow> Some (HaveValue (RawObj (rev ((k, v) # kvs))), stk')
          | _ \<Rightarrow> None))"

definition parse_step :: "pmode \<times> frame list \<Rightarrow> token \<Rightarrow> (pmode \<times> frame list) option" where
  "parse_step st t =
    (case st of (m, stk) \<Rightarrow>
       (case m of
          WantValue \<Rightarrow> begin_value stk t
        | WantValueOrEnd \<Rightarrow> if t = TRBrack then Some (HaveValue (RawArr []), tl stk) else begin_value stk t
        | WantKey \<Rightarrow> begin_key stk t
        | WantKeyOrEnd \<Rightarrow> if t = TRBrace then Some (HaveValue (RawObj []), tl stk) else begin_key stk t
        | WantColon \<Rightarrow> if t = TColon then Some (WantValue, stk) else None
        | HaveValue v \<Rightarrow> end_value v stk t))"

fun parse_run :: "pmode \<times> frame list \<Rightarrow> token list \<Rightarrow> raw option" where
  "parse_run st [] = (case st of (HaveValue v, []) \<Rightarrow> Some v | _ \<Rightarrow> None)"
| "parse_run st (t # ts) = (case parse_step st t of None \<Rightarrow> None | Some st' \<Rightarrow> parse_run st' ts)"

definition json_parse :: "string \<Rightarrow> raw option" where
  "json_parse s = (case lex s of None \<Rightarrow> None | Some ts \<Rightarrow> parse_run (WantValue, []) ts)"

section \<open>Round trip\<close>

text \<open>The value a document denotes: invalid UTF-8 reads back as the replacement character.\<close>

definition utf8_clean :: "string \<Rightarrow> string" where
  "utf8_clean s = concat (map (\<lambda>(r, _). encodeRune r) (runes s))"

fun doc_value :: "jdoc \<Rightarrow> raw" where
  "doc_value (DStr s) = RawStr (utf8_clean s)"
| "doc_value (DInt i) = RawNum (int_dec i) (of_int i)"
| "doc_value (DBool b) = RawBool b"
| "doc_value (DArr xs) = RawArr (map doc_value xs)"
| "doc_value (DObj kxs) = RawObj (map (\<lambda>(k, x). (utf8_clean k, doc_value x)) kxs)"

fun doc_depth :: "jdoc \<Rightarrow> nat" where
  "doc_depth (DArr xs) = Suc (Max (insert 0 (doc_depth ` set xs)))"
| "doc_depth (DObj kxs) = Suc (Max (insert 0 ((\<lambda>(k, x). doc_depth x) ` set kxs)))"
| "doc_depth _ = 0"

text \<open>The tokens of a document.\<close>

fun doc_tokens :: "jdoc \<Rightarrow> token list" where
  "doc_tokens (DStr s) = [TStr (utf8_clean s)]"
| "doc_tokens (DInt i) = [TNum (int_dec i) (of_int i)]"
| "doc_tokens (DBool b) = [if b then TTrue else TFalse]"
| "doc_tokens (DArr []) = [TLBrack, TRBrack]"
| "doc_tokens (DArr (x # xs)) =
    TLBrack # doc_tokens x @ concat (map (\<lambda>y. TComma # doc_tokens y) xs) @ [TRBrack]"
| "doc_tokens (DObj []) = [TLBrace, TRBrace]"
| "doc_tokens (DObj ((k, x) # kxs)) =
    TLBrace # TStr (utf8_clean k) # TColon # doc_tokens x @
    concat (map (\<lambda>(k, y). TComma # TStr (utf8_clean k) # TColon # doc_tokens y) kxs) @ [TRBrace]"

text \<open>Parsing the tokens of a document, in any context with room for its nesting, leaves its value.
  \<open>wants\<close>: the modes in which a value may begin.\<close>

definition wants :: "pmode \<Rightarrow> bool" where
  "wants m \<longleftrightarrow> m = WantValue \<or> m = WantValueOrEnd"

definition parses :: "jdoc \<Rightarrow> bool" where
  "parses x \<longleftrightarrow> (\<forall>m stk rest. wants m \<longrightarrow> length stk + doc_depth x \<le> maxNestingDepth \<longrightarrow>
     parse_run (m, stk) (doc_tokens x @ rest) = parse_run (HaveValue (doc_value x), stk) rest)"

lemma parses_array_tail:
  assumes "\<forall>y\<in>set ys. parses y \<and> length stk + Suc (doc_depth y) \<le> maxNestingDepth"
  shows "parse_run (HaveValue v, FArr vs # stk) (concat (map (\<lambda>y. TComma # doc_tokens y) ys) @ TRBrack # rest) =
    parse_run (HaveValue (RawArr (rev vs @ v # map doc_value ys)), stk) rest"
  using assms
proof (induction ys arbitrary: v vs)
  case Nil
  then show ?case by (simp add: parse_step_def end_value_def)
next
  case (Cons y ys)
  have "parse_run (WantValue, FArr (v # vs) # stk) (doc_tokens y @ rest') =
      parse_run (HaveValue (doc_value y), FArr (v # vs) # stk) rest'" for rest'
    using Cons.prems unfolding parses_def by (simp add: wants_def)
  with Cons show ?case by (simp add: parse_step_def end_value_def)
qed

lemma parses_object_tail:
  assumes "\<forall>(k, y)\<in>set kys. parses y \<and> length stk + Suc (doc_depth y) \<le> maxNestingDepth"
  shows "parse_run (HaveValue v, FObj kvs k # stk)
      (concat (map (\<lambda>(k, y). TComma # TStr (utf8_clean k) # TColon # doc_tokens y) kys) @ TRBrace # rest) =
    parse_run (HaveValue (RawObj (rev kvs @ (k, v) # map (\<lambda>(k, y). (utf8_clean k, doc_value y)) kys)), stk) rest"
  using assms
proof (induction kys arbitrary: v kvs k)
  case Nil
  then show ?case by (simp add: parse_step_def end_value_def)
next
  case (Cons ky kys)
  obtain k' y where ky: "ky = (k', y)" by fastforce
  have "parse_run (WantValue, FObj kvs' k'' # stk) (doc_tokens y @ rest') =
      parse_run (HaveValue (doc_value y), FObj kvs' k'' # stk) rest'" for kvs' k'' rest'
    using Cons.prems unfolding parses_def by (simp add: wants_def ky)
  with Cons ky show ?case by (simp add: parse_step_def end_value_def begin_key_def)
qed

lemma doc_depth_arr: "y \<in> set xs \<Longrightarrow> Suc (doc_depth y) \<le> doc_depth (DArr xs)"
  by (auto intro: Max_ge)

lemma doc_depth_obj: "(k, y) \<in> set kxs \<Longrightarrow> Suc (doc_depth y) \<le> doc_depth (DObj kxs)"
  by (force intro: Max_ge)

lemma parses_all: "parses x"
proof (induction x)
  case (DArr xs)
  show ?case
  proof (cases xs)
    case Nil
    then show ?thesis
      by (auto simp: parses_def wants_def parse_step_def begin_value_def push_frame_def)
  next
    case (Cons y ys)
    show ?thesis unfolding parses_def
    proof (intro allI impI)
      fix m and stk :: "frame list" and rest
      assume m: "wants m" and d: "length stk + doc_depth (DArr xs) \<le> maxNestingDepth"
      have fits: "length stk + Suc (doc_depth z) \<le> maxNestingDepth" if "z \<in> set xs" for z
        using d doc_depth_arr [OF that] by simp
      have "length stk < maxNestingDepth" using d by simp
      then have "parse_step (m, stk) TLBrack = Some (WantValueOrEnd, FArr [] # stk)"
        using m by (auto simp: wants_def parse_step_def begin_value_def push_frame_def)
      moreover have "parse_run (WantValueOrEnd, FArr [] # stk) (doc_tokens y @ rest') =
          parse_run (HaveValue (doc_value y), FArr [] # stk) rest'" for rest'
        using DArr [of y] Cons fits [of y] unfolding parses_def wants_def by simp
      ultimately show "parse_run (m, stk) (doc_tokens (DArr xs) @ rest) =
          parse_run (HaveValue (doc_value (DArr xs)), stk) rest"
        using parses_array_tail [of ys stk "doc_value y" "[]" rest] DArr Cons fits by simp
    qed
  qed
next
  case (DObj kxs)
  show ?case
  proof (cases kxs)
    case Nil
    then show ?thesis
      by (auto simp: parses_def wants_def parse_step_def begin_value_def push_frame_def)
  next
    case (Cons ky kys)
    obtain k y where ky: "ky = (k, y)" by fastforce
    have IH: "parses y'" if "(k', y') \<in> set kxs" for k' y'
      using DObj [OF that] by auto
    show ?thesis unfolding parses_def
    proof (intro allI impI)
      fix m and stk :: "frame list" and rest
      assume m: "wants m" and d: "length stk + doc_depth (DObj kxs) \<le> maxNestingDepth"
      have fits: "length stk + Suc (doc_depth z) \<le> maxNestingDepth" if "(k', z) \<in> set kxs" for k' z
        using d doc_depth_obj [OF that] by simp
      have "length stk < maxNestingDepth" using d by simp
      then have "parse_step (m, stk) TLBrace = Some (WantKeyOrEnd, FObj [] [] # stk)"
        using m by (auto simp: wants_def parse_step_def begin_value_def push_frame_def)
      moreover have "parse_run (WantValue, FObj [] k' # stk) (doc_tokens y @ rest') =
          parse_run (HaveValue (doc_value y), FObj [] k' # stk) rest'" for k' rest'
        using IH [of k y] Cons ky fits [of k y] unfolding parses_def wants_def by simp
      moreover have "\<forall>(k, y)\<in>set kys. parses y \<and> length stk + Suc (doc_depth y) \<le> maxNestingDepth"
        using IH fits Cons by auto
      note parses_object_tail [OF this, of "doc_value y" "[]" "utf8_clean k" rest]
      moreover have "parse_step (WantKeyOrEnd, FObj [] [] # stk) (TStr k') = Some (WantColon, FObj [] k' # stk)"
        "parse_step (WantColon, FObj [] k' # stk) TColon = Some (WantValue, FObj [] k' # stk)" for k'
        by (simp_all add: parse_step_def begin_key_def)
      ultimately show "parse_run (m, stk) (doc_tokens (DObj kxs) @ rest) =
          parse_run (HaveValue (doc_value (DObj kxs)), stk) rest"
        using Cons ky by simp
    qed
  qed
qed (auto simp: parses_def wants_def parse_step_def begin_value_def)

subsection \<open>String literals\<close>

lemma hex_value_char: "d < 16 \<Longrightarrow> hex_value (hex_char d) = Some d"
proof -
  assume d: "d < 16"
  show ?thesis
  proof (cases "d < 10")
    case True
    then have "byte (hex_char d) = 48 + d"
      unfolding hex_char_def using byte_char_of [of "48 + d"] by simp
    with True show ?thesis unfolding hex_value_def by (simp add: Let_def)
  next
    case False
    then have "byte (hex_char d) = 87 + d"
      unfolding hex_char_def using d byte_char_of [of "87 + d"] by simp
    with d False show ?thesis unfolding hex_value_def by (simp add: Let_def)
  qed
qed

lemma u4_hex_digits:
  assumes "n < 65536"
  shows "u4 (hex_digits 4 n @ t) = Some (n, t)"
proof -
  have "n div 4096 < 16" using assms by (simp add: less_mult_imp_div_less)
  then have lt: "n div 16 div 16 div 16 < 16" by (simp add: div_mult2_eq [symmetric])
  have "hex_digits 4 n = [hex_char (n div 16 div 16 div 16 mod 16), hex_char (n div 16 div 16 mod 16),
      hex_char (n div 16 mod 16), hex_char (n mod 16)]"
  proof -
    have four: "4 = Suc (Suc (Suc (Suc 0)))" by simp
    show ?thesis unfolding four hex_digits.simps by simp
  qed
  moreover have "((n div 16 div 16 div 16 * 16 + n div 16 div 16 mod 16) * 16 + n div 16 mod 16) * 16 + n mod 16 = n"
    by simp
  ultimately show ?thesis using lt by (simp add: u4_def hex_value_char)
qed

lemma u_escape_hex: "valid_rune n \<Longrightarrow> n < 65536 \<Longrightarrow> u_escape (hex_digits 4 n @ t) = Some (encodeRune n, t)"
  by (auto simp: u_escape_def u4_hex_digits valid_rune_def)

text \<open>A rune of a string with its bytes: an invalid byte, or a valid rune with its encoding.\<close>

lemma runes_chunk:
  "(r, ch) \<in> set (runes s) \<Longrightarrow> (r = RuneError \<and> length ch = 1) \<or> (ch = encodeValid r \<and> valid_rune r)"
proof (induction s rule: runes.induct)
  case (2 c cs)
  obtain r' w where d: "decodeRune (c # cs) = (r', w)" by fastforce
  show ?case
  proof (cases "r' = RuneError \<and> w = 1")
    case True
    with 2 d show ?thesis by (auto simp: runes.simps(2))
  next
    case False
    with encode_decodeRune [OF d] have "encodeValid r' = take w (c # cs)" "valid_rune r'" by auto
    with 2 d show ?thesis by (auto simp: runes.simps(2))
  qed
qed simp

lemma byte_neq: "byte c \<noteq> byte d \<Longrightarrow> c \<noteq> d"
  by blast

lemma encodeValid_multi:
  assumes "valid_rune r" "128 \<le> r"
  obtains c cs where "encodeValid r = c # cs" "128 \<le> byte c"
proof (cases "encodeValid r")
  case Nil
  then show ?thesis by (simp add: encodeValid_def split: if_splits)
next
  case (Cons c cs)
  with decode_encodeValid [OF assms(1), of "[]"] have "decodeRune (c # cs) = (r, length (encodeValid r))" by simp
  with assms(2) have "128 \<le> byte c" by (cases "byte c < 128") (auto simp: decodeRune_ascii)
  with Cons show ?thesis by (rule that)
qed

lemma unquote_step_plain:
  assumes "valid_rune r" "32 \<le> r" "r \<noteq> 34" "r \<noteq> 92"
  shows "unquote_step (encodeValid r @ t) = Some (encodeRune r, t) \<and> hd (encodeValid r @ t) \<noteq> dq"
proof (cases "r < 128")
  case True
  define c :: char where "c = char_of r"
  have e: "encodeValid r = [c]" using True by (simp add: encodeValid_def c_def)
  have c: "byte c = r" unfolding c_def using True by (intro byte_char_of) simp
  have b: "byte bs = 92" "byte dq = 34" by simp_all
  have ne: "c \<noteq> bs" by (rule byte_neq) (use c b assms in linarith)
  have nq: "c \<noteq> dq" by (rule byte_neq) (use c b assms in linarith)
  have d: "decodeRune (c # t) = (r, 1)" using decodeRune_ascii [of c t] c True by simp
  have "\<not> byte c < 32" using c assms by simp
  then have "unquote_step (c # t) = Some (encodeRune r, t)"
    unfolding unquote_step_def using ne d by simp
  with e nq show ?thesis by simp
next
  case False
  then have "128 \<le> r" by simp
  then obtain c cs where c: "encodeValid r = c # cs" "128 \<le> byte c"
    by (rule encodeValid_multi [OF assms(1)])
  have b: "byte bs = 92" "byte dq = 34" by simp_all
  have "c \<noteq> bs" by (rule byte_neq) (use c(2) b in linarith)
  moreover have "c \<noteq> dq" by (rule byte_neq) (use c(2) b in linarith)
  moreover have "\<not> byte c < 32" using c(2) by linarith
  moreover have "decodeRune (c # cs @ t) = (r, Suc (length cs))"
    using decode_encodeValid [OF assms(1), of t] c by simp
  ultimately show ?thesis using c assms by (simp add: unquote_step_def encodeRune_def)
qed


text \<open>The three escaped forms.\<close>

lemma char_ofI: "byte c = n \<Longrightarrow> char_of n = c"
  by (metis char_of_char)

definition short_escapes :: "nat list" where
  "short_escapes = [8, 9, 10, 12, 13, 34, 92]"

lemma unquote_step_short:
  assumes "r \<in> set short_escapes"
  shows "unquote_step (enc_rune (r, encodeValid r) @ t) = Some (encodeRune r, t) \<and>
    hd (enc_rune (r, encodeValid r) @ t) \<noteq> dq"
proof -
  have c: "char_of (8::nat) = CHR 0x08" "char_of (9::nat) = CHR 0x09" "char_of (10::nat) = CHR 0x0A"
    "char_of (12::nat) = CHR 0x0C" "char_of (13::nat) = CHR 0x0D" "char_of (34::nat) = CHR 0x22"
    "char_of (92::nat) = CHR 0x5C"
    by (rule char_ofI, simp)+
  have e: "encodeValid r = [char_of r] \<and> encodeRune r = [char_of r]"
    using assms by (auto simp: short_escapes_def encodeValid_def encodeRune_ascii)
  have "unquote_step (enc_rune (r, [char_of r]) @ t) = Some ([char_of r], t) \<and>
      hd (enc_rune (r, [char_of r]) @ t) \<noteq> dq"
    using assms unfolding short_escapes_def list.set
    by (elim insertE emptyE; simp add: enc_rune_def Let_def RuneError_def unquote_step_def simple_escape_def c)
  with e show ?thesis by simp
qed

lemma unquote_step_hex:
  assumes "valid_rune r" "r < 65536"
  shows "unquote_step (([bs, CHR ''u''] @ hex_digits 4 r) @ t) = Some (encodeRune r, t) \<and>
    hd (([bs, CHR ''u''] @ hex_digits 4 r) @ t) \<noteq> dq"
  using u_escape_hex [OF assms] unfolding unquote_step_def by simp

lemma unquote_step_enc_rune:
  assumes "(r, ch) \<in> set (runes s)"
  shows "unquote_step (enc_rune (r, ch) @ t) = Some (encodeRune r, t) \<and> hd (enc_rune (r, ch) @ t) \<noteq> dq"
proof (cases "r = RuneError \<and> length ch = 1")
  case True
  then show ?thesis
    using unquote_step_hex [of RuneError t] by (simp add: enc_rune_def RuneError_def valid_rune_def)
next
  case False
  with runes_chunk [OF assms] have ch: "ch = encodeValid r" "valid_rune r" by auto
  consider "r \<in> set short_escapes"
    | "r \<notin> set short_escapes" "r < 32 \<or> r \<in> {38, 60, 62, 8232, 8233}"
    | "r \<notin> set short_escapes" "32 \<le> r" "r \<notin> {38, 60, 62, 8232, 8233}"
    by fastforce
  then show ?thesis
  proof cases
    case 1
    then show ?thesis unfolding ch(1) by (rule unquote_step_short)
  next
    case 2
    then have "enc_rune (r, ch) = [bs, CHR ''u''] @ hex_digits 4 r"
      using False by (auto simp: enc_rune_def short_escapes_def)
    moreover have "r < 65536" using 2 by auto
    ultimately show ?thesis using unquote_step_hex [OF ch(2)] by simp
  next
    case 3
    then have "enc_rune (r, ch) = ch"
      using False by (auto simp: enc_rune_def short_escapes_def Let_def)
    with 3 show ?thesis
      using unquote_step_plain [OF ch(2), of t] ch(1) by (simp add: short_escapes_def)
  qed
qed

lemma unquote_enc_runes:
  assumes "set rs \<subseteq> set (runes s)"
  shows "unquote (concat (map enc_rune rs) @ dq # rest) = Some (concat (map (\<lambda>(r, _). encodeRune r) rs), rest)"
  using assms
proof (induction rs)
  case Nil
  then show ?case by (simp add: unquote.simps [of "_ # _"])
next
  case (Cons rc rs)
  obtain r ch where rc: "rc = (r, ch)" by fastforce
  let ?t = "concat (map enc_rune rs) @ dq # rest"
  have step: "unquote_step (enc_rune rc @ ?t) = Some (encodeRune r, ?t)" "hd (enc_rune rc @ ?t) \<noteq> dq"
    using unquote_step_enc_rune [of r ch s ?t] Cons.prems rc by auto
  then have "unquote (enc_rune rc @ ?t) = map_option (\<lambda>(y, rest). (encodeRune r @ y, rest)) (unquote ?t)"
    by (subst unquote.simps) simp
  with Cons rc show ?case by simp
qed

lemma lex_token_string: "lex_token (enc_string s @ rest) = Some (TStr (utf8_clean s), rest)"
  using unquote_enc_runes [of "runes s" s rest]
  by (simp add: enc_string_def lex_token_def punctuation_def utf8_clean_def)

subsection \<open>Numbers\<close>

text \<open>What may follow a number in the encoder's output.\<close>

definition ends_number :: "string \<Rightarrow> bool" where
  "ends_number s \<longleftrightarrow> s = [] \<or> hd s = CHR '','' \<or> hd s = nl \<or> hd s = CHR '']'' \<or> hd s = CHR ''}''"

lemma nat_dec_no_zero: "n \<noteq> 0 \<Longrightarrow> hd (nat_dec n) \<noteq> CHR ''0''"
proof (induction n rule: nat_dec.induct)
  case (1 n)
  have z: "byte (CHR ''0'') = 48" by simp
  show ?case
  proof (cases "n < 10")
    case True
    then have "byte (digit_char n) = 48 + n" by (rule byte_digit_char)
    with 1(2) z have "digit_char n \<noteq> CHR ''0''" by (metis add_cancel_right_right)
    with True show ?thesis by (subst nat_dec.simps) simp
  next
    case False
    then have "n div 10 \<noteq> 0" by (simp add: div_eq_0_iff)
    with 1(1) [OF False] have "hd (nat_dec (n div 10)) \<noteq> CHR ''0''" by blast
    moreover have "hd (nat_dec n) = hd (nat_dec (n div 10))"
      using False by (subst nat_dec.simps) simp
    ultimately show ?thesis by simp
  qed
qed

lemma lex_int_nat_dec:
  assumes "rest = [] \<or> \<not> is_digit (hd rest)"
  shows "lex_int (nat_dec n @ rest) = Some (n, rest)"
proof (cases "n = 0")
  case True
  moreover have "digit_char 0 = CHR ''0''" unfolding digit_char_def by (rule char_ofI) simp
  ultimately show ?thesis by (simp add: nat_dec.simps [of 0] lex_int_def)
next
  case False
  have digits: "\<forall>c\<in>set (nat_dec n). is_digit c" using nat_dec_digits by (auto simp: is_digit_def)
  then have span: "span_digits (nat_dec n @ rest) = (nat_dec n, rest)"
    using assms by (cases rest) (auto simp: span_digits_def)
  obtain c cs where c: "nat_dec n = c # cs" by (cases "nat_dec n") auto
  have "c \<noteq> CHR ''0''" using nat_dec_no_zero [of n] False c by simp
  moreover have "is_digit c" using digits c by simp
  ultimately show ?thesis using c span dec_value_nat_dec [of n] by (simp add: lex_int_def)
qed

lemma lex_number_int_dec:
  assumes "ends_number rest"
  shows "lex_number (int_dec i @ rest) = Some (int_dec i, of_int i, rest)"
proof -
  have z: "byte (CHR '','') = 44" "byte nl = 10" "byte (CHR ''-'') = 45" by simp_all
  have nd: "rest = [] \<or> \<not> is_digit (hd rest)" and fe: "lex_frac rest = Some (0, rest)" "lex_exp rest = Some (1, rest)"
    using assms by (cases rest; auto simp: ends_number_def is_digit_def lex_frac_def lex_exp_def)+
  note int = lex_int_nat_dec [OF nd]
  show ?thesis
  proof (cases "i < 0")
    case True
    then show ?thesis using int [of "nat (- i)"] fe by (simp add: int_dec_def lex_number_def)
  next
    case False
    obtain c cs where c: "nat_dec (nat i) = c # cs" by (cases "nat_dec (nat i)") auto
    with nat_dec_digits [of c "nat i"] z have "c \<noteq> CHR ''-''" by force
    with False c show ?thesis using int [of "nat i"] fe by (simp add: int_dec_def lex_number_def)
  qed
qed

subsection \<open>Documents\<close>

lemma lex_space: "is_json_space c \<Longrightarrow> lex (c # s) = lex s"
  by (simp add: lex.simps(2))

lemma lex_newline_indent [simp]: "lex (newline_indent d @ s) = lex s"
proof -
  have "lex (replicate n (CHR '' '') @ s) = lex s" for n
    by (induction n) (simp_all add: lex_space is_json_space_def)
  then show ?thesis by (simp add: newline_indent_def lex_space is_json_space_def)
qed

lemma lex_punctuation:
  "lex (CHR ''{'' # s) = map_option (\<lambda>ts. TLBrace # ts) (lex s)"
  "lex (CHR ''}'' # s) = map_option (\<lambda>ts. TRBrace # ts) (lex s)"
  "lex (CHR ''['' # s) = map_option (\<lambda>ts. TLBrack # ts) (lex s)"
  "lex (CHR '']'' # s) = map_option (\<lambda>ts. TRBrack # ts) (lex s)"
  "lex (CHR '':'' # s) = map_option (\<lambda>ts. TColon # ts) (lex s)"
  "lex (CHR '','' # s) = map_option (\<lambda>ts. TComma # ts) (lex s)"
  by (simp_all add: lex.simps(2) is_json_space_def lex_token_def punctuation_def)

lemma lex_first_token:
  assumes "lex_token (c # cs) = Some (t, rest)" "\<not> is_json_space c"
  shows "lex (c # cs) = map_option (\<lambda>ts. t # ts) (lex rest)"
  using assms by (simp add: lex.simps(2))

lemma lex_enc_string: "lex (enc_string s @ rest) = map_option (\<lambda>ts. TStr (utf8_clean s) # ts) (lex rest)"
proof -
  obtain cs where "enc_string s @ rest = dq # cs" by (simp add: enc_string_def)
  then show ?thesis
    using lex_first_token [of dq cs] lex_token_string [of s rest] by (simp add: is_json_space_def)
qed

text \<open>The first byte of an integer's text.\<close>

lemma int_dec_first:
  obtains c cs where "int_dec i = c # cs" "is_digit c \<or> c = CHR ''-''"
proof (cases "i < 0")
  case True
  then show ?thesis using that by (simp add: int_dec_def)
next
  case False
  obtain c cs where c: "nat_dec (nat i) = c # cs" by (cases "nat_dec (nat i)") auto
  with nat_dec_digits [of c "nat i"] have "is_digit c" by (simp add: is_digit_def)
  with c False that show ?thesis by (simp add: int_dec_def)
qed

lemma lex_enc_int:
  assumes "ends_number rest"
  shows "lex (int_dec i @ rest) = map_option (\<lambda>ts. TNum (int_dec i) (of_int i) # ts) (lex rest)"
proof -
  obtain c cs where c: "int_dec i = c # cs" "is_digit c \<or> c = CHR ''-''" by (rule int_dec_first)
  have b: "(48 \<le> byte c \<and> byte c \<le> 57) \<or> byte c = 45" using c(2) by (auto simp: is_digit_def)
  have ne: "c \<noteq> d" if "byte d \<noteq> 45" "byte d < 48 \<or> 57 < byte d" for d
    using b that by auto
  have "c \<noteq> CHR ''{''" "c \<noteq> CHR ''}''" "c \<noteq> CHR ''[''" "c \<noteq> CHR '']''" "c \<noteq> CHR '',''"
    by (rule ne; simp)+
  moreover have colon: "c \<noteq> CHR '':''" by (rule ne; simp)
  ultimately have punct: "map_of punctuation c = None" by (simp add: punctuation_def)
  have lits: "dq \<noteq> c" "CHR ''t'' \<noteq> c" "CHR ''f'' \<noteq> c" "CHR ''n'' \<noteq> c"
    by (rule not_sym, rule ne; simp)+
  have "c \<noteq> CHR '' ''" "c \<noteq> CHR 0x09" "c \<noteq> CHR 0x0D" "c \<noteq> nl" by (rule ne; simp)+
  then have space: "\<not> is_json_space c" by (simp add: is_json_space_def)
  have "lex_token (c # cs @ rest) = Some (TNum (int_dec i) (of_int i), rest)"
    using lex_number_int_dec [OF assms, of i] c(1) punct lits by (simp add: lex_token_def)
  with space c(1) show ?thesis using lex_first_token [of c "cs @ rest"] by simp
qed

lemma lex_bool: "lex ((if b then ''true'' else ''false'') @ rest) =
    map_option (\<lambda>ts. (if b then TTrue else TFalse) # ts) (lex rest)"
  by (cases b) (simp_all add: lex.simps(2) is_json_space_def lex_token_def punctuation_def)

definition lexes :: "jdoc \<Rightarrow> bool" where
  "lexes x \<longleftrightarrow> (\<forall>d rest ts. lex rest = Some ts \<longrightarrow> ends_number rest \<longrightarrow>
     lex (enc_doc d x @ rest) = Some (doc_tokens x @ ts))"

lemma ends_number_newline: "ends_number (newline_indent d @ s)"
  by (simp add: ends_number_def newline_indent_def)

text \<open>What follows the first element of a container: the further elements, each behind a comma, and
  the closing bracket.\<close>

definition array_tail :: "nat \<Rightarrow> jdoc list \<Rightarrow> string \<Rightarrow> string" where
  "array_tail d ys rest =
    concat (map (\<lambda>y. '','' @ newline_indent (d + 1) @ enc_doc (d + 1) y) ys) @ newline_indent d @ '']'' @ rest"

definition object_tail :: "nat \<Rightarrow> (string \<times> jdoc) list \<Rightarrow> string \<Rightarrow> string" where
  "object_tail d kys rest =
    concat (map (\<lambda>(k, y). '','' @ newline_indent (d + 1) @ enc_string k @ '': '' @ enc_doc (d + 1) y) kys) @
    newline_indent d @ ''}'' @ rest"

lemma tail_ends_number [simp]: "ends_number (array_tail d ys rest)" "ends_number (object_tail d kys rest)"
  by (cases ys; cases kys; auto simp: array_tail_def object_tail_def ends_number_newline ends_number_def
      newline_indent_def split: prod.split)+

lemma lex_array_tail:
  assumes "\<forall>y\<in>set ys. lexes y" "lex rest = Some ts"
  shows "lex (array_tail d ys rest) = Some (concat (map (\<lambda>y. TComma # doc_tokens y) ys) @ TRBrack # ts)"
  using assms(1)
proof (induction ys)
  case Nil
  then show ?case using assms(2) by (simp add: array_tail_def lex_punctuation)
next
  case (Cons y ys)
  have "array_tail d (y # ys) rest =
      CHR '','' # newline_indent (d + 1) @ enc_doc (d + 1) y @ array_tail d ys rest"
    by (simp add: array_tail_def)
  with Cons show ?case by (simp add: lex_punctuation lexes_def)
qed

lemma lex_colon: "lex ('': '' @ s) = map_option (\<lambda>ts. TColon # ts) (lex s)"
  by (simp add: lex_punctuation lex_space is_json_space_def)

lemma lex_object_tail:
  assumes "\<forall>(k, y)\<in>set kys. lexes y" "lex rest = Some ts"
  shows "lex (object_tail d kys rest) =
    Some (concat (map (\<lambda>(k, y). TComma # TStr (utf8_clean k) # TColon # doc_tokens y) kys) @ TRBrace # ts)"
  using assms(1)
proof (induction kys)
  case Nil
  then show ?case using assms(2) by (simp add: object_tail_def lex_punctuation)
next
  case (Cons ky kys)
  obtain k y where ky: "ky = (k, y)" by fastforce
  have "object_tail d (ky # kys) rest =
      CHR '','' # newline_indent (d + 1) @ enc_string k @ '': '' @ enc_doc (d + 1) y @ object_tail d kys rest"
    by (simp add: object_tail_def ky)
  then have e: "lex (object_tail d (ky # kys) rest) =
      map_option (\<lambda>ts. TComma # TStr (utf8_clean k) # TColon # ts) (lex (enc_doc (d + 1) y @ object_tail d kys rest))"
    unfolding lex_punctuation lex_newline_indent lex_enc_string lex_colon
    by (simp only: lex_punctuation lex_newline_indent lex_enc_string lex_colon option.map_comp o_def)
  have "lex (enc_doc (d + 1) y @ object_tail d kys rest) = Some (doc_tokens y @
      concat (map (\<lambda>(k, y). TComma # TStr (utf8_clean k) # TColon # doc_tokens y) kys) @ TRBrace # ts)"
    using Cons ky unfolding lexes_def by simp
  with e ky show ?case by simp
qed

lemma lexes_all: "lexes x"
proof (induction x)
  case (DStr s)
  then show ?case by (simp add: lexes_def lex_enc_string)
next
  case (DInt i)
  then show ?case by (simp add: lexes_def lex_enc_int)
next
  case (DBool b)
  then show ?case unfolding lexes_def enc_doc.simps lex_bool by simp
next
  case (DArr xs)
  show ?case
  proof (cases xs)
    case Nil
    then show ?thesis by (simp add: lexes_def lex_punctuation)
  next
    case (Cons y ys)
    have "enc_doc d (DArr xs) @ rest = CHR ''['' # newline_indent (d + 1) @ enc_doc (d + 1) y @ array_tail d ys rest"
      for d rest by (simp add: Cons array_tail_def)
    then have e: "lex (enc_doc d (DArr xs) @ rest) =
        map_option (\<lambda>ts. TLBrack # ts) (lex (enc_doc (d + 1) y @ array_tail d ys rest))" for d rest
      by (simp only: lex_punctuation lex_newline_indent)
    have "lex (enc_doc (d + 1) y @ array_tail d ys rest) =
        Some (doc_tokens y @ concat (map (\<lambda>y. TComma # doc_tokens y) ys) @ TRBrack # ts)"
      if "lex rest = Some ts" for d rest ts
      using DArr [of y] lex_array_tail [OF _ that] DArr Cons unfolding lexes_def [of y] by simp
    then show ?thesis unfolding lexes_def e by (simp add: Cons)
  qed
next
  case (DObj kxs)
  show ?case
  proof (cases kxs)
    case Nil
    then show ?thesis by (simp add: lexes_def lex_punctuation)
  next
    case (Cons ky kys)
    obtain k y where ky: "ky = (k, y)" by fastforce
    have IH: "\<forall>(k, y)\<in>set kxs. lexes y" using DObj by auto
    then have y: "lexes y" and kys: "\<forall>(k, y)\<in>set kys. lexes y" using Cons ky by auto
    have e: "enc_doc d (DObj kxs) @ rest = CHR ''{'' # newline_indent (d + 1) @ enc_string k @ '': '' @
        enc_doc (d + 1) y @ object_tail d kys rest" for d rest
      by (simp add: Cons ky object_tail_def)
    have "lex (enc_doc d (DObj kxs) @ rest) = Some (doc_tokens (DObj kxs) @ ts)" if "lex rest = Some ts" for d rest ts
    proof -
      have "lex (enc_doc (d + 1) y @ object_tail d kys rest) = Some (doc_tokens y @
          concat (map (\<lambda>(k, y). TComma # TStr (utf8_clean k) # TColon # doc_tokens y) kys) @ TRBrace # ts)"
        using y lex_object_tail [OF kys that] unfolding lexes_def by simp
      then show ?thesis
        unfolding e lex_punctuation lex_newline_indent lex_enc_string lex_colon by (simp add: Cons ky)
    qed
    then show ?thesis by (simp add: lexes_def)
  qed
qed

text \<open>Parsing what was encoded gives the document's value.\<close>

lemma json_parse_Encode:
  assumes "doc_depth x \<le> maxNestingDepth"
  shows "json_parse (Encode x) = Some (doc_value x)"
proof -
  have "lex [nl] = Some []" by (simp add: lex_space is_json_space_def)
  then have "lex (Encode x) = Some (doc_tokens x)"
    using lexes_all [of x] unfolding lexes_def Encode_def by (simp add: ends_number_def)
  moreover have "parse_run (WantValue, []) (doc_tokens x @ []) = parse_run (HaveValue (doc_value x), []) []"
    using parses_all [of x] assms unfolding parses_def wants_def by (metis add_0 list.size(3))
  ultimately show ?thesis by (simp add: json_parse_def)
qed

text \<open>Clean text is valid UTF-8: it survives the encoding.\<close>

definition clean :: "string \<Rightarrow> bool" where
  "clean s \<longleftrightarrow> utf8_clean s = s"

lemma clean_ascii: "is_ascii s \<Longrightarrow> clean s"
proof -
  assume a: "is_ascii s"
  have "concat (map (\<lambda>c. encodeRune (byte c)) s) = s"
    using a by (induction s) (auto simp: is_ascii_def encodeRune_ascii)
  with a show ?thesis by (simp add: clean_def utf8_clean_def runes_ascii o_def)
qed

lemma utf8_clean_ascii: "is_ascii s \<Longrightarrow> utf8_clean s = s"
  using clean_ascii by (simp add: clean_def)

subsection \<open>Compact documents\<close>

text \<open>The elements of a container after the first, in compact form.\<close>

lemma strings_Join_map_Cons:
  "strings_Join (map f (x # xs)) '','' = f x @ concat (map (\<lambda>y. '','' @ f y) xs)"
proof (induction xs arbitrary: x)
  case (Cons y ys)
  then show ?case by (simp add: strings_Join_Cons)
qed simp

definition lexes_compact :: "jdoc \<Rightarrow> bool" where
  "lexes_compact x \<longleftrightarrow> (\<forall>rest ts. lex rest = Some ts \<longrightarrow> ends_number rest \<longrightarrow>
     lex (Marshal x @ rest) = Some (doc_tokens x @ ts))"

lemma lex_compact_array_tail:
  assumes "\<forall>y\<in>set ys. lexes_compact y" "lex rest = Some ts"
  shows "lex (concat (map (\<lambda>y. '','' @ Marshal y) ys) @ '']'' @ rest) =
      Some (concat (map (\<lambda>y. TComma # doc_tokens y) ys) @ TRBrack # ts) \<and>
    ends_number (concat (map (\<lambda>y. '','' @ Marshal y) ys) @ '']'' @ rest)"
  using assms(1)
proof (induction ys)
  case Nil
  then show ?case using assms(2) by (simp add: lex_punctuation ends_number_def)
next
  case (Cons y ys)
  then have "lex (Marshal y @ concat (map (\<lambda>y. '','' @ Marshal y) ys) @ '']'' @ rest) =
      Some (doc_tokens y @ concat (map (\<lambda>y. TComma # doc_tokens y) ys) @ TRBrack # ts)"
    unfolding lexes_compact_def by simp
  then show ?case by (simp add: lex_punctuation ends_number_def)
qed

lemma lex_compact_object_tail:
  assumes "\<forall>(k, y)\<in>set kys. lexes_compact y" "lex rest = Some ts"
  shows "lex (concat (map (\<lambda>(k, y). '','' @ enc_string k @ '':'' @ Marshal y) kys) @ ''}'' @ rest) =
      Some (concat (map (\<lambda>(k, y). TComma # TStr (utf8_clean k) # TColon # doc_tokens y) kys) @ TRBrace # ts) \<and>
    ends_number (concat (map (\<lambda>(k, y). '','' @ enc_string k @ '':'' @ Marshal y) kys) @ ''}'' @ rest)"
  using assms(1)
proof (induction kys)
  case Nil
  then show ?case using assms(2) by (simp add: lex_punctuation ends_number_def)
next
  case (Cons ky kys)
  obtain k y where ky: "ky = (k, y)" by fastforce
  with Cons have "lex (Marshal y @ concat (map (\<lambda>(k, y). '','' @ enc_string k @ '':'' @ Marshal y) kys) @ ''}'' @ rest) =
      Some (doc_tokens y @ concat (map (\<lambda>(k, y). TComma # TStr (utf8_clean k) # TColon # doc_tokens y) kys) @ TRBrace # ts)"
    unfolding lexes_compact_def by simp
  then show ?case by (simp add: ky lex_punctuation lex_enc_string ends_number_def)
qed

lemma lexes_compact_all: "lexes_compact x"
proof (induction x)
  case (DStr s)
  then show ?case by (simp add: lexes_compact_def lex_enc_string)
next
  case (DInt i)
  then show ?case by (simp add: lexes_compact_def lex_enc_int)
next
  case (DBool b)
  then show ?case unfolding lexes_compact_def Marshal.simps lex_bool by simp
next
  case (DArr xs)
  show ?case
  proof (cases xs)
    case Nil
    then show ?thesis by (simp add: lexes_compact_def lex_punctuation)
  next
    case (Cons y ys)
    have "lex (Marshal (DArr xs) @ rest) = Some (doc_tokens (DArr xs) @ ts)" if "lex rest = Some ts" for rest ts
    proof -
      have "\<forall>y\<in>set ys. lexes_compact y" "lexes_compact y" using DArr Cons by auto
      with lex_compact_array_tail [OF this(1) that]
      have "lex (Marshal y @ concat (map (\<lambda>y. '','' @ Marshal y) ys) @ '']'' @ rest) =
          Some (doc_tokens y @ concat (map (\<lambda>y. TComma # doc_tokens y) ys) @ TRBrack # ts)"
        unfolding lexes_compact_def [of y] by blast
      then show ?thesis
        unfolding Marshal.simps Cons strings_Join_map_Cons by (simp add: lex_punctuation)
    qed
    then show ?thesis by (simp add: lexes_compact_def)
  qed
next
  case (DObj kxs)
  show ?case
  proof (cases kxs)
    case Nil
    then show ?thesis by (simp add: lexes_compact_def lex_punctuation)
  next
    case (Cons ky kys)
    obtain k y where ky: "ky = (k, y)" by fastforce
    have "lex (Marshal (DObj kxs) @ rest) = Some (doc_tokens (DObj kxs) @ ts)" if "lex rest = Some ts" for rest ts
    proof -
      have "\<forall>(k, y)\<in>set kxs. lexes_compact y" using DObj by auto
      then have "\<forall>(k, y)\<in>set kys. lexes_compact y" "lexes_compact y" using Cons ky by auto
      with lex_compact_object_tail [OF this(1) that]
      have "lex (Marshal y @ concat (map (\<lambda>(k, y). '','' @ enc_string k @ '':'' @ Marshal y) kys) @ ''}'' @ rest) =
          Some (doc_tokens y @ concat (map (\<lambda>(k, y). TComma # TStr (utf8_clean k) # TColon # doc_tokens y) kys) @ TRBrace # ts)"
        unfolding lexes_compact_def [of y] by blast
      then show ?thesis
        unfolding Marshal.simps Cons strings_Join_map_Cons ky
        by (simp add: lex_punctuation lex_enc_string case_prod_unfold)
    qed
    then show ?thesis by (simp add: lexes_compact_def)
  qed
qed

lemma json_parse_Marshal_line:
  assumes "doc_depth x \<le> maxNestingDepth"
  shows "json_parse (Marshal x @ [nl]) = Some (doc_value x)"
proof -
  have "lex [nl] = Some []" by (simp add: lex_space is_json_space_def)
  then have "lex (Marshal x @ [nl]) = Some (doc_tokens x)"
    using lexes_compact_all [of x] unfolding lexes_compact_def by (simp add: ends_number_def)
  moreover have "parse_run (WantValue, []) (doc_tokens x @ []) = parse_run (HaveValue (doc_value x), []) []"
    using parses_all [of x] assms unfolding parses_def wants_def by (metis add_0 list.size(3))
  ultimately show ?thesis by (simp add: json_parse_def)
qed

lemma json_parse_Marshal:
  assumes "doc_depth x \<le> maxNestingDepth"
  shows "json_parse (Marshal x) = Some (doc_value x)"
proof -
  have "lex [] = Some []" by simp
  then have "lex (Marshal x) = Some (doc_tokens x)"
    using lexes_compact_all [of x, unfolded lexes_compact_def, rule_format, of "[]" "[]"]
    by (simp add: ends_number_def)
  moreover have "parse_run (WantValue, []) (doc_tokens x @ []) = parse_run (HaveValue (doc_value x), []) []"
    using parses_all [of x] assms unfolding parses_def wants_def by (metis add_0 list.size(3))
  ultimately show ?thesis by (simp add: json_parse_def)
qed

text \<open>A compact document is one line.\<close>

lemma not_newline: "byte c \<noteq> 10 \<Longrightarrow> c \<noteq> nl"
  by (rule byte_neq) simp

lemma hex_char_no_newline: "d < 16 \<Longrightarrow> hex_char d \<noteq> nl"
proof (rule not_newline)
  assume "d < 16"
  then show "byte (hex_char d) \<noteq> 10"
    using byte_char_of [of "48 + d"] byte_char_of [of "87 + d"] by (simp add: hex_char_def)
qed

lemma hex_digits_no_newline: "nl \<notin> set (hex_digits k n)"
proof (induction k arbitrary: n)
  case (Suc k)
  have "hex_char (n mod 16) \<noteq> nl" by (rule hex_char_no_newline) simp
  then have "nl \<noteq> hex_char (n mod 16)" by (rule not_sym)
  with Suc show ?case by (simp only: hex_digits.simps set_append list.set Un_iff insert_iff empty_iff) blast
qed simp

lemma enc_rune_no_newline:
  assumes "(r, ch) \<in> set (runes s)"
  shows "nl \<notin> set (enc_rune (r, ch))"
proof -
  have raw: "nl \<notin> set ch" if "r \<noteq> 10"
  proof -
    have "c \<noteq> nl" if c: "c \<in> set ch" for c
    proof (cases "r < 128")
      case True
      then have "ch = [char_of r]" using runes_small [OF assms] by simp
      with c have "byte c = r" using byte_char_of [of r] True by simp
      with \<open>r \<noteq> 10\<close> show ?thesis by (intro not_newline) simp
    next
      case False
      with c have "128 \<le> byte c" using runes_high [OF assms] by simp
      then show ?thesis by (intro not_newline) simp
    qed
    then show ?thesis by blast
  qed
  show ?thesis
  proof (cases "r = 10")
    case True
    then show ?thesis by (simp add: enc_rune_def RuneError_def)
  next
    case False
    then show ?thesis using raw hex_digits_no_newline by (simp add: enc_rune_def Let_def)
  qed
qed

lemma enc_string_no_newline: "nl \<notin> set (enc_string s)"
  using enc_rune_no_newline [of _ _ s] by (auto simp: enc_string_def)

lemma join_no_newline: "\<forall>l\<in>set ls. nl \<notin> set l \<Longrightarrow> nl \<notin> set (strings_Join ls '','')"
  by (induction ls) (auto simp: strings_Join_Cons)

lemma int_dec_no_newline: "nl \<notin> set (int_dec i)"
proof -
  have "c \<noteq> nl" if "c \<in> set (nat_dec n)" for c n
    using nat_dec_digits [of c n] that by (intro not_newline) auto
  then have "nl \<notin> set (nat_dec n)" for n by blast
  then show ?thesis by (simp add: int_dec_def)
qed

lemma Marshal_no_newline: "nl \<notin> set (Marshal x)"
proof (induction x)
  case (DArr xs)
  then show ?case by (simp add: join_no_newline)
next
  case (DObj kxs)
  have "nl \<notin> set l" if "l \<in> set (map (\<lambda>(k, x). enc_string k @ '':'' @ Marshal x) kxs)" for l
    using that DObj enc_string_no_newline by fastforce
  then show ?case by (simp add: join_no_newline)
qed (simp_all add: enc_string_no_newline int_dec_no_newline)

end
