(* ===== verification/Registry.thy ===== *)
theory Registry
  imports Mcp_Model
begin

text \<open>
  The rule registry and the three dispatch phases (\<^verbatim>\<open>internal/v2/v2.go\<close>): rules with their
  callbacks, the contexts a callback reports into, \<^verbatim>\<open>Register\<close>, \<^verbatim>\<open>All\<close>,
  \<^verbatim>\<open>Run\<close>, \<^verbatim>\<open>RunProject\<close> and \<^verbatim>\<open>RunComparison\<close>. A context refers to its rule
  only through the rule's metadata, so the metadata is a record of its own and a rule extends it
  with callbacks.
\<close>

section \<open>Rules, findings and contexts\<close>

abbreviation (input) SevError :: string where "SevError \<equiv> ''error''"
abbreviation (input) SevWarning :: string where "SevWarning \<equiv> ''warning''"
abbreviation (input) SevInfo :: string where "SevInfo \<equiv> ''info''"

abbreviation (input) FixNone :: string where "FixNone \<equiv> ''''"
abbreviation (input) FixCosmetic :: string where "FixCosmetic \<equiv> ''cosmetic''"

abbreviation (input) CatSpec :: string where "CatSpec \<equiv> ''spec-compliance''"
abbreviation (input) CatSafety :: string where "CatSafety \<equiv> ''safety-contract''"
abbreviation (input) CatExamples :: string where "CatExamples \<equiv> ''examples''"

record finding =
  RuleID :: string
  fSeverity :: string
  fCategory :: string
  Message :: string
  ToolName :: string
  fSourceFile :: string
  fSourceLine :: int

record rule_info =
  ID :: string
  Category :: string
  Severity :: string
  ruleDescription :: string
  Fix :: string

record ctx =
  ctxTool :: tool
  ctxFindings :: "finding list"
  ctxRule :: rule_info

record project_ctx =
  pcToolSet :: toolset
  pcFindings :: "finding list"
  pcRule :: rule_info

record comparison_ctx =
  ccStatic :: "toolset option"
  ccLive :: "toolset option"
  ccFindings :: "finding list"
  ccRule :: rule_info

record rule = rule_info +
  Implementation :: "(ctx \<Rightarrow> ctx) option"
  ProjectImplementation :: "(project_ctx \<Rightarrow> project_ctx) option"
  ComparisonImplementation :: "(comparison_ctx \<Rightarrow> comparison_ctx) option"

text \<open>The finding a rule attaches to a tool.\<close>

definition tool_finding :: "rule_info \<Rightarrow> tool \<Rightarrow> string \<Rightarrow> finding" where
  "tool_finding r t msg =
    \<lparr>RuleID = ID r, fSeverity = Severity r, fCategory = Category r, Message = msg,
     ToolName = Name t, fSourceFile = SourceFile t, fSourceLine = SourceLine t\<rparr>"

definition Report :: "string \<Rightarrow> ctx \<Rightarrow> ctx" where
  "Report message c = c\<lparr>ctxFindings := ctxFindings c @ [tool_finding (ctxRule c) (ctxTool c) message]\<rparr>"

definition ReportTool :: "tool \<Rightarrow> string \<Rightarrow> project_ctx \<Rightarrow> project_ctx" where
  "ReportTool t message pc = pc\<lparr>pcFindings := pcFindings pc @ [tool_finding (pcRule pc) t message]\<rparr>"

definition cc_Report :: "string \<Rightarrow> comparison_ctx \<Rightarrow> comparison_ctx" where
  "cc_Report message cc = cc\<lparr>ccFindings := ccFindings cc @
     [\<lparr>RuleID = ID (ccRule cc), fSeverity = Severity (ccRule cc), fCategory = Category (ccRule cc),
       Message = message, ToolName = '''', fSourceFile = '''', fSourceLine = 0\<rparr>]\<rparr>"

definition cc_ReportTool :: "tool \<Rightarrow> string \<Rightarrow> comparison_ctx \<Rightarrow> comparison_ctx" where
  "cc_ReportTool t message cc = cc\<lparr>ccFindings := ccFindings cc @ [tool_finding (ccRule cc) t message]\<rparr>"

text \<open>What the dispatcher reads back.\<close>

definition ctx_Findings :: "ctx \<Rightarrow> finding list" where [simp]: "ctx_Findings c = ctxFindings c"
definition pc_Findings :: "project_ctx \<Rightarrow> finding list" where [simp]: "pc_Findings pc = pcFindings pc"
definition cc_Findings :: "comparison_ctx \<Rightarrow> finding list" where [simp]: "cc_Findings cc = ccFindings cc"

section \<open>Registration\<close>

definition has_callback :: "rule \<Rightarrow> bool" where
  "has_callback r \<longleftrightarrow> Implementation r \<noteq> None \<or> ProjectImplementation r \<noteq> None \<or>
     ComparisonImplementation r \<noteq> None"

text \<open>\<^verbatim>\<open>Register\<close> on the registry slice; \<open>Inl\<close> is the panic.\<close>

definition Register :: "rule list \<Rightarrow> rule option \<Rightarrow> rule list result" where
  "Register registry r =
    (case r of
       None \<Rightarrow> Inl ''v2.Register: nil rule''
     | Some r \<Rightarrow>
         if ID r = '''' then Inl ''v2.Register: rule has empty ID''
         else if \<not> has_callback r
           then Inl (''v2.Register: rule '' @ ID r @ '' declares no implementation callback'')
         else if list_ex (\<lambda>existing. ID existing = ID r) registry
           then Inl (''v2.Register: duplicate rule ID '' @ ID r)
         else Inr (registry @ [r]))"

definition All :: "rule list \<Rightarrow> rule list" where
  "All registry = registry"

text \<open>The \<^verbatim>\<open>init\<close> functions of a program, in the order the linker runs them.\<close>

fun register_all :: "rule list \<Rightarrow> rule list \<Rightarrow> rule list result" where
  "register_all registry [] = Inr registry"
| "register_all registry (r # rs) =
    (case Register registry (Some r) of Inl e \<Rightarrow> Inl e | Inr registry' \<Rightarrow> register_all registry' rs)"

section \<open>Dispatch\<close>

fun Run :: "rule list \<Rightarrow> tool \<Rightarrow> finding list" where
  "Run [] t = []"
| "Run (r # rs) t =
    (case Implementation r of
       None \<Rightarrow> Run rs t
     | Some impl \<Rightarrow>
         ctxFindings (impl \<lparr>ctxTool = t, ctxFindings = [], ctxRule = rule_info.truncate r\<rparr>) @ Run rs t)"

fun RunProject :: "rule list \<Rightarrow> toolset \<Rightarrow> finding list" where
  "RunProject [] ts = []"
| "RunProject (r # rs) ts =
    (case ProjectImplementation r of
       None \<Rightarrow> RunProject rs ts
     | Some impl \<Rightarrow>
         pcFindings (impl \<lparr>pcToolSet = ts, pcFindings = [], pcRule = rule_info.truncate r\<rparr>) @ RunProject rs ts)"

fun RunComparison :: "rule list \<Rightarrow> toolset option \<Rightarrow> toolset option \<Rightarrow> finding list" where
  "RunComparison [] s l = []"
| "RunComparison (r # rs) s l =
    (case ComparisonImplementation r of
       None \<Rightarrow> RunComparison rs s l
     | Some impl \<Rightarrow>
         ccFindings (impl \<lparr>ccStatic = s, ccLive = l, ccFindings = [], ccRule = rule_info.truncate r\<rparr>)
         @ RunComparison rs s l)"

section \<open>The registry invariant\<close>

definition registry_ok :: "rule list \<Rightarrow> bool" where
  "registry_ok rs \<longleftrightarrow> distinct (map ID rs) \<and> list_all (\<lambda>r. ID r \<noteq> '''' \<and> has_callback r) rs"

lemma Register_Inr_iff:
  "Register reg (Some r) = Inr reg' \<longleftrightarrow>
    ID r \<noteq> '''' \<and> has_callback r \<and> ID r \<notin> ID ` set reg \<and> reg' = reg @ [r]"
proof -
  have "list_ex (\<lambda>existing. ID existing = ID r) reg \<longleftrightarrow> ID r \<in> ID ` set reg"
    unfolding list_ex_iff image_iff by metis
  then show ?thesis by (auto simp: Register_def)
qed

lemma register_all_Inr_iff:
  "register_all reg rs = Inr reg' \<longleftrightarrow>
    reg' = reg @ rs \<and> list_all (\<lambda>r. ID r \<noteq> '''' \<and> has_callback r) rs \<and> distinct (map ID rs) \<and>
    ID ` set reg \<inter> ID ` set rs = {}"
proof (induction rs arbitrary: reg)
  case (Cons r rs)
  show ?case
  proof (cases "Register reg (Some r)")
    case (Inl e)
    then have "\<not> (ID r \<noteq> '''' \<and> has_callback r \<and> ID r \<notin> ID ` set reg)"
      using Register_Inr_iff [of reg r "reg @ [r]"] by auto
    with Inl show ?thesis by auto
  next
    case (Inr reg'')
    then have "ID r \<noteq> ''''" "has_callback r" "ID r \<notin> ID ` set reg" "reg'' = reg @ [r]"
      using Register_Inr_iff [of reg r reg''] by blast+
    with Inr Cons.IH [of reg''] show ?thesis by auto
  qed
qed auto

section \<open>The contract of a dispatch phase\<close>

text \<open>The three phases have one shape: each rule that has the phase's callback runs it on a fresh
  context and its findings are appended. The lemmas are proved once for that shape.\<close>

locale dispatch_phase =
  fixes callback :: "rule \<Rightarrow> ('c \<Rightarrow> 'c) option"
    and fresh :: "rule \<Rightarrow> 'c"
    and found :: "'c \<Rightarrow> finding list"
    and run :: "rule list \<Rightarrow> finding list"
  assumes run_Nil: "run [] = []"
    and run_Cons: "run (r # rs) =
      (case callback r of None \<Rightarrow> run rs | Some f \<Rightarrow> found (f (fresh r)) @ run rs)"
begin

lemma run_concat:
  "run rs = concat (map (\<lambda>r. case callback r of None \<Rightarrow> [] | Some f \<Rightarrow> found (f (fresh r))) rs)"
  by (induction rs) (auto simp: run_Nil run_Cons split: option.splits)

lemma run_append: "run (rs @ rs') = run rs @ run rs'"
  by (simp add: run_concat)

lemma run_mem_iff:
  "x \<in> set (run rs) \<longleftrightarrow> (\<exists>r\<in>set rs. \<exists>f. callback r = Some f \<and> x \<in> set (found (f (fresh r))))"
  by (induction rs) (auto simp: run_Nil run_Cons split: option.splits)

lemma run_empty_iff:
  "run rs = [] \<longleftrightarrow> (\<forall>r\<in>set rs. \<forall>f. callback r = Some f \<longrightarrow> found (f (fresh r)) = [])"
  by (auto simp: run_concat concat_eq_Nil_conv split: option.splits)

lemma run_skips: "(\<And>r. r \<in> set rs \<Longrightarrow> callback r = None) \<Longrightarrow> run rs = []"
  by (auto simp: run_empty_iff)

end

interpretation per_tool: dispatch_phase Implementation
  "\<lambda>r. \<lparr>ctxTool = t, ctxFindings = [], ctxRule = rule_info.truncate r\<rparr>" ctxFindings "\<lambda>rs. Run rs t"
  for t
  by unfold_locales (auto split: option.splits)

interpretation per_project: dispatch_phase ProjectImplementation
  "\<lambda>r. \<lparr>pcToolSet = ts, pcFindings = [], pcRule = rule_info.truncate r\<rparr>" pcFindings "\<lambda>rs. RunProject rs ts"
  for ts
  by unfold_locales (auto split: option.splits)

interpretation per_comparison: dispatch_phase ComparisonImplementation
  "\<lambda>r. \<lparr>ccStatic = s, ccLive = l, ccFindings = [], ccRule = rule_info.truncate r\<rparr>" ccFindings
  "\<lambda>rs. RunComparison rs s l"
  for s l
  by unfold_locales (auto split: option.splits)

section \<open>The contract of a rule callback\<close>

text \<open>Every per-tool callback of the program reports a list of messages about its tool and changes
  nothing else. \<open>messages\<close> is what the rule says; the callback's own control flow is in its
  definition, and an interpretation shows that it reports exactly these.\<close>

locale per_tool_rule =
  fixes impl :: "ctx \<Rightarrow> ctx"
    and messages :: "tool \<Rightarrow> string list"
  assumes impl_reports: "impl c = fold Report (messages (ctxTool c)) c"
begin

lemma impl_findings:
  "ctxFindings (impl c) = ctxFindings c @ map (tool_finding (ctxRule c) (ctxTool c)) (messages (ctxTool c))"
proof -
  have "ctxFindings (fold Report ms c) = ctxFindings c @ map (tool_finding (ctxRule c) (ctxTool c)) ms"
    for ms c
    by (induction ms arbitrary: c) (auto simp: Report_def)
  then show ?thesis by (simp add: impl_reports)
qed

lemma impl_frame: "ctxTool (impl c) = ctxTool c \<and> ctxRule (impl c) = ctxRule c"
proof -
  have "ctxTool (fold Report ms c) = ctxTool c \<and> ctxRule (fold Report ms c) = ctxRule c" for ms c
    by (induction ms arbitrary: c) (auto simp: Report_def)
  then show ?thesis by (simp add: impl_reports)
qed

lemma fires_iff:
  "ctxFindings (impl \<lparr>ctxTool = t, ctxFindings = [], ctxRule = r\<rparr>) \<noteq> [] \<longleftrightarrow> messages t \<noteq> []"
  by (simp add: impl_findings)

lemma reported:
  "x \<in> set (ctxFindings (impl \<lparr>ctxTool = t, ctxFindings = [], ctxRule = r\<rparr>)) \<longleftrightarrow>
    (\<exists>m\<in>set (messages t). x = tool_finding r t m)"
  by (auto simp: impl_findings)

end

text \<open>Running one rule alone.\<close>

lemma Run_single:
  assumes "Implementation r = Some impl" "per_tool_rule impl messages"
  shows "Run [r] t = map (tool_finding (rule_info.truncate r) t) (messages t)"
  using assms(1) per_tool_rule.impl_findings [OF assms(2)] by simp

section \<open>Properties\<close>

text \<open>(C11) Registration. A program whose \<^verbatim>\<open>init\<close> functions register the rules \<open>rs\<close> starts without a
  panic exactly when every rule has an ID and a callback and no two rules share an ID; the registry
  then holds the rules in registration order. Any other list of rules panics.\<close>

theorem registration_exact:
  "register_all [] rs = Inr reg \<longleftrightarrow>
    reg = rs \<and> distinct (map ID rs) \<and> list_all (\<lambda>r. ID r \<noteq> '''' \<and> has_callback r) rs"
  by (auto simp: register_all_Inr_iff)

text \<open>Dispatch. What \<^verbatim>\<open>Run\<close> returns for a registry split in two is what the first part reports
  followed by what the second reports: rules run in registration order, each on a fresh context, so
  no rule sees or loses another's findings; a rule without a per-tool callback adds nothing.\<close>

theorem Run_compositional:
  "Run (rs @ r # rs') t =
    Run rs t @
    (case Implementation r of
       None \<Rightarrow> []
     | Some impl \<Rightarrow> ctxFindings (impl \<lparr>ctxTool = t, ctxFindings = [], ctxRule = rule_info.truncate r\<rparr>)) @
    Run rs' t"
  using per_tool.run_append [of rs "r # rs'" t] by (simp split: option.split)

end
