(* ===== verification/Output.thy ===== *)
theory Output
  imports Go_Json Registry
begin

text \<open>
  The output formats (\<^verbatim>\<open>internal/output\<close>): findings as text, JSON and SARIF, and the rule
  list as text and JSON. A writer is the function behind \<^verbatim>\<open>io.Writer\<close>: a state, the bytes of
  one \<^verbatim>\<open>Write\<close> call, the new state and an error if the call failed.
\<close>

type_synonym 'w writer = "'w \<Rightarrow> string \<Rightarrow> 'w \<times> string option"

text \<open>A writer that keeps everything, \<^verbatim>\<open>bytes.Buffer\<close>.\<close>

definition buffer :: "string writer" where
  "buffer b s = (b @ s, None)"

text \<open>A loop of \<^verbatim>\<open>Fprintf\<close> calls that returns the first error.\<close>

fun write_lines :: "'w writer \<Rightarrow> 'w \<Rightarrow> string list \<Rightarrow> 'w \<times> string option" where
  "write_lines wr w [] = (w, None)"
| "write_lines wr w (l # ls) =
    (case wr w l of
       (w', Some e) \<Rightarrow> (w', Some e)
     | (w', None) \<Rightarrow> write_lines wr w' ls)"

lemma write_lines_buffer [simp]: "write_lines buffer b ls = (b @ concat ls, None)"
  by (induction ls arbitrary: b) (auto simp: buffer_def)

section \<open>Findings as text\<close>

definition text_line :: "ucd \<Rightarrow> finding \<Rightarrow> string" where
  "text_line u f =
    (let loc = fSourceFile f;
         loc = (if loc = '''' then ''<source>'' else loc);
         loc = (if fSourceLine f > 0 then loc @ '':'' @ int_dec (fSourceLine f) else loc)
     in loc @ '': '' @ fSeverity f @ '' ['' @ RuleID f @ ''] tool='' @ strconv_Quote u (ToolName f) @ '' '' @
        Message f @ [CHR 0x0A])"

text \<open>The key of the stable sort: \<^verbatim>\<open>SliceStable\<close> with the comparison of tool name, then
  rule.\<close>

definition text_key :: "finding \<Rightarrow> string \<times> string" where
  "text_key f = (ToolName f, RuleID f)"

definition WriteText :: "ucd \<Rightarrow> 'w writer \<Rightarrow> 'w \<Rightarrow> finding list \<Rightarrow> 'w \<times> string option" where
  "WriteText u wr w findings = write_lines wr w (map (text_line u) (sort_key text_key findings))"

section \<open>Findings as JSON\<close>

definition finding_doc :: "finding \<Rightarrow> jdoc" where
  "finding_doc f = DObj [(''RuleID'', DStr (RuleID f)), (''Severity'', DStr (fSeverity f)),
     (''Category'', DStr (fCategory f)), (''Message'', DStr (Message f)), (''ToolName'', DStr (ToolName f)),
     (''SourceFile'', DStr (fSourceFile f)), (''SourceLine'', DInt (fSourceLine f))]"

definition WriteJSON :: "'w writer \<Rightarrow> 'w \<Rightarrow> finding list \<Rightarrow> 'w \<times> string option" where
  "WriteJSON wr w findings = wr w (Encode (DArr (map finding_doc findings)))"

section \<open>SARIF\<close>

definition sarifVersion :: string where
  "sarifVersion = ''2.1.0''"

definition sarifInformationURI :: string where
  "sarifInformationURI = ''https://github.com/kaeawc/mcpcheck''"

record sarifRuleDescr =
  srID :: string
  srText :: string
  srLevel :: string
  srProperties :: "(string \<times> string) list"

record sarifLocation =
  slURI :: string
  slStartLine :: "int option"

record sarifResult =
  ssRuleID :: string
  ssLevel :: string
  ssMessage :: string
  ssLocations :: "sarifLocation list"

definition severityToSARIFLevel :: "string \<Rightarrow> string" where
  "severityToSARIFLevel s =
    (if s = SevError then ''error''
     else if s = SevWarning then ''warning''
     else if s = SevInfo then ''note''
     else ''none'')"

definition buildSARIFRule :: "rule \<Rightarrow> sarifRuleDescr" where
  "buildSARIFRule r =
    \<lparr>srID = ID r, srText = ruleDescription r, srLevel = severityToSARIFLevel (Severity r),
     srProperties = [(''category'', Category r)] @ (if Fix r \<noteq> FixNone then [(''fix'', Fix r)] else [])\<rparr>"

definition buildSARIFRules :: "rule list \<Rightarrow> sarifRuleDescr list" where
  "buildSARIFRules registry = sort_key srID (map buildSARIFRule (All registry))"

definition buildSARIFResult :: "finding \<Rightarrow> sarifResult" where
  "buildSARIFResult f =
    \<lparr>ssRuleID = RuleID f, ssLevel = severityToSARIFLevel (fSeverity f), ssMessage = Message f,
     ssLocations =
       (if fSourceFile f \<noteq> ''''
        then [\<lparr>slURI = fSourceFile f, slStartLine = (if fSourceLine f > 0 then Some (fSourceLine f) else None)\<rparr>]
        else [])\<rparr>"

definition buildSARIFResults :: "finding list \<Rightarrow> sarifResult list" where
  "buildSARIFResults findings = map buildSARIFResult findings"

text \<open>The struct tags: a field with \<^verbatim>\<open>omitempty\<close> is left out when it is empty.\<close>

definition omitempty :: "string \<Rightarrow> string \<Rightarrow> (string \<times> jdoc) list" where
  "omitempty k s = (if s = '''' then [] else [(k, DStr s)])"

definition sarif_rule_doc :: "sarifRuleDescr \<Rightarrow> jdoc" where
  "sarif_rule_doc r = DObj ([(''id'', DStr (srID r)),
     (''shortDescription'', DObj [(''text'', DStr (srText r))]),
     (''defaultConfiguration'', DObj (omitempty ''level'' (srLevel r)))] @
     (if srProperties r = [] then []
      else [(''properties'', DObj (map (\<lambda>(k, v). (k, DStr v)) (srProperties r)))]))"

definition sarif_location_doc :: "sarifLocation \<Rightarrow> jdoc" where
  "sarif_location_doc l = DObj [(''physicalLocation'', DObj ([
     (''artifactLocation'', DObj [(''uri'', DStr (slURI l))])] @
     (case slStartLine l of
        None \<Rightarrow> []
      | Some n \<Rightarrow> [(''region'', DObj (if n = 0 then [] else [(''startLine'', DInt n)]))])))]"

definition sarif_result_doc :: "sarifResult \<Rightarrow> jdoc" where
  "sarif_result_doc r = DObj ([(''ruleId'', DStr (ssRuleID r))] @ omitempty ''level'' (ssLevel r) @
     [(''message'', DObj [(''text'', DStr (ssMessage r))])] @
     (if ssLocations r = [] then [] else [(''locations'', DArr (map sarif_location_doc (ssLocations r)))]))"

definition sarif_log_doc :: "rule list \<Rightarrow> finding list \<Rightarrow> jdoc" where
  "sarif_log_doc registry findings =
    (let rules = map sarif_rule_doc (buildSARIFRules registry) in
     DObj (omitempty ''$schema'' ''https://json.schemastore.org/sarif-2.1.0.json'' @
       [(''version'', DStr sarifVersion),
        (''runs'', DArr [DObj [
           (''tool'', DObj [(''driver'', DObj ([(''name'', DStr ''mcpcheck'')] @
              omitempty ''informationUri'' sarifInformationURI @
              (if rules = [] then [] else [(''rules'', DArr rules)])))]),
           (''results'', DArr (map sarif_result_doc (buildSARIFResults findings)))]])]))"

definition WriteSARIF :: "rule list \<Rightarrow> 'w writer \<Rightarrow> 'w \<Rightarrow> finding list \<Rightarrow> 'w \<times> string option" where
  "WriteSARIF registry wr w findings = wr w (Encode (sarif_log_doc registry findings))"

section \<open>The rule list\<close>

text \<open>\<^verbatim>\<open>%-40s\<close>: padded on the right to a number of runes.\<close>

definition pad_right :: "nat \<Rightarrow> string \<Rightarrow> string" where
  "pad_right n s = s @ replicate (n - length (runes s)) (CHR '' '')"

definition rule_line :: "rule \<Rightarrow> string" where
  "rule_line r =
    (let fix' = (if Fix r = '''' then ''-'' else Fix r) in
     pad_right 40 (ID r) @ ''  '' @ pad_right 8 (Severity r) @ ''  '' @ pad_right 25 (Category r) @
     ''  fix='' @ pad_right 9 fix' @ ''  '' @ ruleDescription r @ [CHR 0x0A])"

text \<open>\<^verbatim>\<open>sort.Slice\<close> is not stable; the registry's IDs are distinct, so the sorted list is the
  same for every sorting algorithm.\<close>

definition WriteRulesText :: "'w writer \<Rightarrow> 'w \<Rightarrow> rule list \<Rightarrow> 'w \<times> string option" where
  "WriteRulesText wr w rules = write_lines wr w (map rule_line (sort_key ID rules))"

definition rule_doc :: "rule \<Rightarrow> jdoc" where
  "rule_doc r = DObj ([(''id'', DStr (ID r)), (''category'', DStr (Category r)),
     (''severity'', DStr (Severity r)), (''description'', DStr (ruleDescription r))] @
     omitempty ''fix'' (Fix r) @
     (if ProjectImplementation r \<noteq> None then [(''projectScope'', DBool True)] else []))"

definition WriteRulesJSON :: "'w writer \<Rightarrow> 'w \<Rightarrow> rule list \<Rightarrow> 'w \<times> string option" where
  "WriteRulesJSON wr w rules = wr w (Encode (DArr (map rule_doc (sort_key ID rules))))"

section \<open>What the formats keep\<close>

text \<open>The machine-readable documents are nested a few levels deep only, so they parse back.\<close>

lemma Max_insert_le: "finite A \<Longrightarrow> (\<And>a. a \<in> A \<Longrightarrow> a \<le> n) \<Longrightarrow> Max (insert 0 A) \<le> (n::nat)"
  by simp

text \<open>\<open>shallow n\<close>: at most \<open>n\<close> containers deep, by evaluation.\<close>

fun shallow :: "nat \<Rightarrow> jdoc \<Rightarrow> bool" where
  "shallow (Suc n) (DArr xs) = list_all (shallow n) xs"
| "shallow 0 (DArr xs) = False"
| "shallow (Suc n) (DObj kxs) = list_all (\<lambda>kx. shallow n (snd kx)) kxs"
| "shallow 0 (DObj kxs) = False"
| "shallow n _ = True"

lemma shallow_depth: "shallow n x \<Longrightarrow> doc_depth x \<le> n"
proof (induction n x rule: shallow.induct)
  case (1 n xs)
  then show ?case by (auto simp: list_all_iff intro!: Max_insert_le)
next
  case (3 n kxs)
  then show ?case by (fastforce simp: list_all_iff intro!: Max_insert_le)
qed simp_all

lemma shallow_parse:
  assumes "shallow (Suc (Suc (Suc (Suc (Suc (Suc (Suc (Suc (Suc 0))))))))) x"
  shows "json_parse (Encode x) = Some (doc_value x)"
  by (rule json_parse_Encode) (use shallow_depth [OF assms] in \<open>simp add: maxNestingDepth_def\<close>)

lemma findings_parse:
  "json_parse (Encode (DArr (map finding_doc fs))) = Some (RawArr (map (\<lambda>f. doc_value (finding_doc f)) fs))"
  by (subst shallow_parse) (auto simp: finding_doc_def list_all_iff)

lemma shallow_omitempty: "list_all (\<lambda>kx. shallow n (snd kx)) (omitempty k s)"
  by (cases n) (auto simp: omitempty_def)

lemma sarif_parse:
  "json_parse (Encode (sarif_log_doc registry fs)) = Some (doc_value (sarif_log_doc registry fs))"
proof (rule shallow_parse)
  have "shallow (Suc (Suc (Suc n))) (sarif_location_doc l)" for n l
    by (simp add: sarif_location_doc_def split: option.split)
  then have results: "shallow (Suc (Suc (Suc (Suc (Suc n))))) (sarif_result_doc r)" for n r
    by (simp add: sarif_result_doc_def shallow_omitempty [unfolded list_all_iff] list_all_iff)
  have rules: "shallow (Suc (Suc n)) (sarif_rule_doc r)" for n r
    by (auto simp: sarif_rule_doc_def shallow_omitempty [unfolded list_all_iff] list_all_iff)
  show "shallow (Suc (Suc (Suc (Suc (Suc (Suc (Suc (Suc (Suc 0))))))))) (sarif_log_doc registry fs)"
    unfolding sarif_log_doc_def Let_def
    by (simp add: shallow_omitempty [unfolded list_all_iff] results rules list_all_iff)
qed

text \<open>Reading the JSON report back.\<close>

definition clean_finding :: "finding \<Rightarrow> bool" where
  "clean_finding f \<longleftrightarrow> clean (RuleID f) \<and> clean (fSeverity f) \<and> clean (fCategory f) \<and> clean (Message f) \<and>
     clean (ToolName f) \<and> clean (fSourceFile f)"

definition json_str :: "(string \<times> raw) list \<Rightarrow> string \<Rightarrow> string" where
  "json_str m k = (case map_of m k of Some (RawStr s) \<Rightarrow> s | _ \<Rightarrow> [])"

definition read_finding :: "raw \<Rightarrow> finding" where
  "read_finding v =
    (case v of
       RawObj m \<Rightarrow>
         \<lparr>RuleID = json_str m ''RuleID'', fSeverity = json_str m ''Severity'', fCategory = json_str m ''Category'',
          Message = json_str m ''Message'', ToolName = json_str m ''ToolName'',
          fSourceFile = json_str m ''SourceFile'',
          fSourceLine = (case map_of m ''SourceLine'' of Some (RawNum lit q) \<Rightarrow> \<lfloor>q\<rfloor> | _ \<Rightarrow> 0)\<rparr>
     | _ \<Rightarrow> \<lparr>RuleID = [], fSeverity = [], fCategory = [], Message = [], ToolName = [], fSourceFile = [],
              fSourceLine = 0\<rparr>)"

lemma read_finding_doc:
  assumes "clean_finding f"
  shows "read_finding (doc_value (finding_doc f)) = f"
proof -
  have "utf8_clean k = k" if "k \<in> {''RuleID'', ''Severity'', ''Category'', ''Message'', ''ToolName'', ''SourceFile'', ''SourceLine''}" for k
    by (rule utf8_clean_ascii) (use that in \<open>auto simp: is_ascii_def\<close>)
  then show ?thesis
    using assms by (simp add: finding_doc_def read_finding_def json_str_def clean_finding_def clean_def)
qed


section \<open>Properties\<close>

text \<open>Text report. The lines written are those of a stable arrangement of the findings: a permutation,
  ordered by tool name and then rule ID, in which findings of the same tool and rule keep the order
  in which they were reported.\<close>

theorem WriteText_stable:
  "\<exists>sorted_fs. WriteText u buffer b fs = (b @ concat (map (text_line u) sorted_fs), None) \<and>
     mset sorted_fs = mset fs \<and> sorted (map text_key sorted_fs) \<and>
     (\<forall>k. filter (\<lambda>f. text_key f = k) sorted_fs = filter (\<lambda>f. text_key f = k) fs)"
  by (intro exI [of _ "sort_key text_key fs"]) (simp add: WriteText_def sort_key_stable)

text \<open>(C7) JSON report. What \<^verbatim>\<open>WriteJSON\<close> writes is a JSON array that parses back, element by
  element and in order, to the findings, whatever quotes, control characters, HTML characters or
  non-ASCII text they contain, as long as it is valid UTF-8.\<close>

theorem WriteJSON_roundtrip:
  assumes "list_all clean_finding fs"
  shows "\<exists>text vs. WriteJSON buffer b fs = (b @ text, None) \<and> json_parse text = Some (RawArr vs) \<and>
    map read_finding vs = fs"
proof (intro exI conjI)
  show "WriteJSON buffer b fs = (b @ Encode (DArr (map finding_doc fs)), None)"
    by (simp add: WriteJSON_def buffer_def)
  show "json_parse (Encode (DArr (map finding_doc fs))) = Some (RawArr (map (\<lambda>f. doc_value (finding_doc f)) fs))"
    by (rule findings_parse)
  show "map read_finding (map (\<lambda>f. doc_value (finding_doc f)) fs) = fs"
    using assms by (induction fs) (simp_all add: read_finding_doc)
qed

definition sample_finding :: finding where
  "sample_finding = \<lparr>RuleID = ''tool-name-collision'', fSeverity = SevError, fCategory = CatSpec,
     Message = ''say '' @ [CHR 0x22, CHR 0x0A, CHR 0x5C] @ '' <b>'', ToolName = ''t'',
     fSourceFile = '''', fSourceLine = - 7\<rparr>"

theorem WriteJSON_roundtrip_witness:
  "\<exists>text vs. WriteJSON buffer [] [sample_finding] = (text, None) \<and> json_parse text = Some (RawArr vs) \<and>
    map read_finding vs = [sample_finding]"
proof -
  have "list_all clean_finding [sample_finding]"
    by (simp add: clean_finding_def sample_finding_def clean_ascii is_ascii_def)
  from WriteJSON_roundtrip [OF this, of "[]"] show ?thesis by simp
qed


definition description_stub :: "string \<Rightarrow> rule" where
  "description_stub i = \<lparr>ID = i, Category = CatSpec, Severity = SevInfo, ruleDescription = i, Fix = FixNone,
     Implementation = Some id, ProjectImplementation = None, ComparisonImplementation = None\<rparr>"

text \<open>Rule list. Both rule listings show every registered rule once, in the order of their IDs; the
  order does not depend on the order of registration.\<close>

theorem WriteRules_order_independent:
  assumes "mset rules = mset rules'" "distinct (map ID rules)"
  shows "WriteRulesText wr w rules = WriteRulesText wr w rules' \<and>
    WriteRulesJSON wr w rules = WriteRulesJSON wr w rules' \<and>
    sorted (map ID (sort_key ID rules)) \<and> mset (sort_key ID rules) = mset rules"
proof -
  have "sort_key ID rules = sort_key ID rules'"
    using assms by (rule sort_key_perm)
  then show ?thesis using assms(1) by (simp add: WriteRulesText_def WriteRulesJSON_def)
qed

theorem WriteRules_order_independent_witness:
  "WriteRulesText buffer [] [description_stub ''b'', description_stub ''a''] =
    WriteRulesText buffer [] [description_stub ''a'', description_stub ''b'']"
proof -
  have m: "mset [description_stub ''b'', description_stub ''a''] = mset [description_stub ''a'', description_stub ''b'']"
    by simp
  have d: "distinct (map ID [description_stub ''b'', description_stub ''a''])"
    by (simp add: description_stub_def)
  show ?thesis using WriteRules_order_independent [OF m d, of buffer "[]"] by blast
qed

end
