(* ===== verification/Rules_Naming.thy ===== *)
theory Rules_Naming
  imports Registry
begin

text \<open>
  The rules about tool names: \<^verbatim>\<open>tool-name-not-snake-case\<close> (\<^verbatim>\<open>snakecase.go\<close>),
  \<^verbatim>\<open>tool-name-collision\<close> (\<^verbatim>\<open>collision.go\<close>) and
  \<^verbatim>\<open>tool-static-vs-live-mismatch\<close> (\<^verbatim>\<open>static_vs_live.go\<close>), each with its callback,
  its helpers and what it reports.
\<close>

section \<open>tool-name-not-snake-case\<close>

text \<open>The loop of \<^verbatim>\<open>isSnakeCase\<close> over the offsets and runes of a string of \<open>n\<close> bytes.\<close>

fun snake_loop :: "ucd \<Rightarrow> nat \<Rightarrow> (nat \<times> nat) list \<Rightarrow> bool" where
  "snake_loop u n [] = True"
| "snake_loop u n ((i, r) # rest) =
    (if unicode_IsLower u r then snake_loop u n rest
     else if unicode_IsDigit u r then (if i = 0 then False else snake_loop u n rest)
     else if r = 95 then (if i = 0 \<or> i = n - 1 then False else snake_loop u n rest)
     else False)"

definition isSnakeCase :: "ucd \<Rightarrow> string \<Rightarrow> bool" where
  "isSnakeCase u s = (if s = '''' then False else snake_loop u (length s) (range_string s))"

definition quote :: "string \<Rightarrow> string" where
  "quote s = [CHR 0x22] @ s @ [CHR 0x22]"

definition snakecase_impl :: "ucd \<Rightarrow> ctx \<Rightarrow> ctx" where
  "snakecase_impl u c =
    (let name = Name (ctxTool c) in
     if name = '''' then c
     else if \<not> isSnakeCase u name
       then Report (''tool name '' @ quote name @ '' is not snake_case'') c
     else c)"

definition snakecase_rule :: "ucd \<Rightarrow> rule" where
  "snakecase_rule u =
    \<lparr>ID = ''tool-name-not-snake-case'', Category = CatSpec, Severity = SevWarning,
     ruleDescription = ''MCP tool names should be snake_case so they read predictably in agent tool lists.'',
     Fix = FixCosmetic, Implementation = Some (snakecase_impl u), ProjectImplementation = None,
     ComparisonImplementation = None\<rparr>"

definition snakecase_messages :: "ucd \<Rightarrow> tool \<Rightarrow> string list" where
  "snakecase_messages u t =
    (if Name t = '''' \<or> isSnakeCase u (Name t) then []
     else [''tool name '' @ quote (Name t) @ '' is not snake_case''])"

interpretation snakecase: per_tool_rule "snakecase_impl u" "snakecase_messages u" for u
  by unfold_locales (simp add: snakecase_impl_def snakecase_messages_def Let_def)

text \<open>What a snake-case name is, rune by rune.\<close>

definition snake_rune :: "ucd \<Rightarrow> nat \<Rightarrow> bool" where
  "snake_rune u r \<longleftrightarrow> unicode_IsLower u r \<or> unicode_IsDigit u r \<or> r = 95"

lemma underscore_class: "\<not> unicode_IsLower u 95" "\<not> unicode_IsDigit u 95"
  by (simp_all add: unicode_IsLower_def unicode_IsDigit_def)

text \<open>Past the first rune, the loop accepts snake runes and refuses an underscore that ends the
  string.\<close>

lemma snake_loop_tail:
  assumes "0 < i" and "n = i + length (concat (map snd rs))"
    and "\<And>r ch. (r, ch) \<in> set rs \<Longrightarrow> ch \<noteq> []"
    and "\<And>r ch. (r, ch) \<in> set rs \<Longrightarrow> r = 95 \<Longrightarrow> length ch = 1"
  shows "snake_loop u n (range_from i rs) \<longleftrightarrow>
    list_all (snake_rune u) (map fst rs) \<and> (rs \<noteq> [] \<longrightarrow> fst (last rs) \<noteq> 95)"
  using assms
proof (induction rs arbitrary: i)
  case (Cons rc rs)
  obtain r ch where rc: "rc = (r, ch)" by fastforce
  have ch: "ch \<noteq> []" using Cons.prems(3) [of r ch] rc by simp
  have IH: "snake_loop u n (range_from (i + length ch) rs) \<longleftrightarrow>
      list_all (snake_rune u) (map fst rs) \<and> (rs \<noteq> [] \<longrightarrow> fst (last rs) \<noteq> 95)"
    using Cons.prems rc ch by (intro Cons.IH) auto
  have last_iff: "i = n - 1 \<longleftrightarrow> rs = []" if "r = 95"
  proof -
    have "length ch = 1" using Cons.prems(4) rc that by simp
    moreover have "concat (map snd rs) = [] \<longleftrightarrow> rs = []"
    proof (cases rs)
      case (Cons x xs)
      then have "snd x \<noteq> []" using Cons.prems(3) [of "fst x" "snd x"] by simp
      with Cons show ?thesis by simp
    qed simp
    ultimately show ?thesis using Cons.prems(2) rc by auto
  qed
  show ?case
    using IH last_iff Cons.prems(1) by (auto simp: rc snake_rune_def [of u r] underscore_class)
qed simp

lemma isSnakeCase_iff:
  "isSnakeCase u s \<longleftrightarrow> s \<noteq> '''' \<and> list_all (snake_rune u) (map fst (runes s)) \<and>
    unicode_IsLower u (fst (hd (runes s))) \<and> fst (last (runes s)) \<noteq> 95"
proof (cases "runes s")
  case Nil
  then show ?thesis by (simp add: isSnakeCase_def)
next
  case (Cons rc rs)
  obtain r ch where rc: "rc = (r, ch)" by fastforce
  have s: "s \<noteq> ''''" using Cons by auto
  have mem: "\<And>r' ch'. (r', ch') \<in> set ((r, ch) # rs) \<Longrightarrow> ch' \<noteq> [] \<and> (r' = 95 \<longrightarrow> length ch' = 1)"
    using runes_nonempty runes_small unfolding Cons [symmetric] rc [symmetric] by force
  then have ch: "ch \<noteq> []" by auto
  have len: "length s = length ch + length (concat (map snd rs))"
    using concat_runes [of s] Cons rc by (metis concat.simps(2) length_append list.simps(9) snd_conv)
  have tail: "snake_loop u (length s) (range_from (length ch) rs) \<longleftrightarrow>
      list_all (snake_rune u) (map fst rs) \<and> (rs \<noteq> [] \<longrightarrow> fst (last rs) \<noteq> 95)"
    using ch len mem by (intro snake_loop_tail) auto
  show ?thesis
    using s tail
    by (auto simp: isSnakeCase_def range_string_def Cons rc snake_rune_def [of u r] underscore_class)
qed

section \<open>tool-name-collision\<close>

text \<open>The location text of a tool.\<close>

definition locationOf :: "tool \<Rightarrow> string" where
  "locationOf t =
    (if SourceFile t \<noteq> '''' then
       (if SourceLine t > 0 then SourceFile t @ '':'' @ int_dec (SourceLine t) else SourceFile t)
     else ''<source>'')"

text \<open>\<^verbatim>\<open>byName[name] = append(byName[name], i)\<close>, for the tools from index \<open>i\<close> on.\<close>

fun byName_loop :: "(string \<times> nat list) list \<Rightarrow> nat \<Rightarrow> tool list \<Rightarrow> (string \<times> nat list) list" where
  "byName_loop m i [] = m"
| "byName_loop m i (t # ts) =
    byName_loop
      (case map_of m (Name t) of
         None \<Rightarrow> m @ [(Name t, [i])]
       | Some _ \<Rightarrow> map (\<lambda>(k, is). if k = Name t then (k, is @ [i]) else (k, is)) m)
      (Suc i) ts"

text \<open>The names that occur more than once, in sorted order.\<close>

definition collision_names :: "(string \<times> nat list) list \<Rightarrow> string list" where
  "collision_names byName = sort (map fst (filter (\<lambda>(name, idxs). name \<noteq> '''' \<and> length idxs > 1) byName))"

definition collision_message :: "ucd \<Rightarrow> tool list \<Rightarrow> string \<Rightarrow> nat list \<Rightarrow> nat \<Rightarrow> string" where
  "collision_message u tools name idxs i =
    (let others = sort (map (\<lambda>j. locationOf (tools ! j)) (filter (\<lambda>j. j \<noteq> i) idxs)) in
     ''duplicate tool name '' @ strconv_Quote u name @ '' (also defined at: '' @ strings_Join others '', ''
     @ ''); names must be unique within a server'')"

definition collision_impl :: "ucd \<Rightarrow> project_ctx \<Rightarrow> project_ctx" where
  "collision_impl u pc =
    (let tools = Tools (pcToolSet pc);
         byName = byName_loop [] 0 tools
     in fold (\<lambda>name pc.
          let idxs = (case map_of byName name of Some is \<Rightarrow> is | None \<Rightarrow> []) in
          fold (\<lambda>i pc. ReportTool (tools ! i) (collision_message u tools name idxs i) pc) idxs pc)
        (collision_names byName) pc)"

definition collision_rule :: "ucd \<Rightarrow> rule" where
  "collision_rule u =
    \<lparr>ID = ''tool-name-collision'', Category = CatSpec, Severity = SevError,
     ruleDescription = ''Tool names within a single server must be unique; agent tool-call dispatch routes by name.'',
     Fix = FixNone, Implementation = None, ProjectImplementation = Some (collision_impl u),
     ComparisonImplementation = None\<rparr>"

text \<open>The indices of a name.\<close>

definition indices_of :: "string \<Rightarrow> tool list \<Rightarrow> nat list" where
  "indices_of name tools = filter (\<lambda>i. Name (tools ! i) = name) [0..<length tools]"

definition byName_inv :: "tool list \<Rightarrow> (string \<times> nat list) list \<Rightarrow> bool" where
  "byName_inv seen m \<longleftrightarrow> distinct (map fst m) \<and> set (map fst m) = Name ` set seen \<and>
    (\<forall>(name, idxs)\<in>set m. idxs = indices_of name seen)"

lemma indices_of_snoc:
  "indices_of name (ts @ [t]) = indices_of name ts @ (if Name t = name then [length ts] else [])"
proof -
  have "filter (\<lambda>i. Name ((ts @ [t]) ! i) = name) [0..<length ts] =
      filter (\<lambda>i. Name (ts ! i) = name) [0..<length ts]"
    by (rule filter_cong) (auto simp: nth_append)
  then show ?thesis by (simp add: indices_of_def)
qed

lemma indices_of_absent: "name \<notin> Name ` set ts \<Longrightarrow> indices_of name ts = []"
  by (auto simp: indices_of_def filter_empty_conv)

lemma byName_step:
  assumes "byName_inv seen m"
  shows "byName_inv (seen @ [t])
    (case map_of m (Name t) of
       None \<Rightarrow> m @ [(Name t, [length seen])]
     | Some _ \<Rightarrow> map (\<lambda>(k, is). if k = Name t then (k, is @ [length seen]) else (k, is)) m)"
proof (cases "map_of m (Name t)")
  case None
  then have "Name t \<notin> Name ` set seen"
    using assms by (auto simp: byName_inv_def map_of_eq_None_iff)
  with None assms show ?thesis
    by (auto simp: byName_inv_def indices_of_snoc indices_of_absent)
next
  case (Some idxs)
  then have "Name t \<in> Name ` set seen"
    using assms by (metis byName_inv_def domI dom_map_of_conv_image_fst image_set)
  then have names: "Name ` set (seen @ [t]) = Name ` set seen" by auto
  define m' where "m' = map (\<lambda>(k, is). if k = Name t then (k, is @ [length seen]) else (k, is)) m"
  have keys: "map fst m' = map fst m" by (auto simp: m'_def)
  have "\<forall>(k, idxs)\<in>set m'. idxs = indices_of k (seen @ [t])"
    using assms by (auto simp: m'_def byName_inv_def indices_of_snoc split: if_splits)
  with keys names assms have "byName_inv (seen @ [t]) m'" by (simp only: byName_inv_def)
  with Some show ?thesis by (simp add: m'_def)
qed

lemma byName_loop_inv:
  "byName_inv seen m \<Longrightarrow> byName_inv (seen @ ts) (byName_loop m (length seen) ts)"
proof (induction ts arbitrary: seen m)
  case (Cons t ts)
  show ?case using Cons.IH [OF byName_step [OF Cons.prems, of t]] by simp
qed simp

lemma byName_correct: "byName_inv tools (byName_loop [] 0 tools)"
  using byName_loop_inv [of "[]" "[]" tools] by (simp add: byName_inv_def)

lemma map_of_byName: "map_of (byName_loop [] 0 tools) name =
    (if name \<in> Name ` set tools then Some (indices_of name tools) else None)"
proof (cases "name \<in> Name ` set tools")
  case True
  then have "name \<in> fst ` set (byName_loop [] 0 tools)"
    using byName_correct [of tools] by (simp add: byName_inv_def)
  then obtain idxs where "(name, idxs) \<in> set (byName_loop [] 0 tools)" by auto
  moreover from this have "idxs = indices_of name tools"
    using byName_correct [of tools] by (auto simp: byName_inv_def)
  ultimately show ?thesis
    using True byName_correct [of tools] by (simp add: byName_inv_def)
next
  case False
  then show ?thesis
    using byName_correct [of tools] by (simp add: byName_inv_def map_of_eq_None_iff)
qed

lemma length_indices_of: "length (indices_of name tools) = count_list (map Name tools) name"
proof -
  have "filter (\<lambda>i. map Name tools ! i = name) [0..<length tools] = indices_of name tools"
    unfolding indices_of_def by (rule filter_cong) auto
  then show ?thesis by (simp add: count_list_eq_length_indices)
qed

lemma byName_entries:
  "(name, idxs) \<in> set (byName_loop [] 0 tools) \<longleftrightarrow> name \<in> Name ` set tools \<and> idxs = indices_of name tools"
proof -
  have "distinct (map fst (byName_loop [] 0 tools))"
    using byName_correct [of tools] by (simp add: byName_inv_def)
  from map_of_eq_Some_iff [OF this, of name idxs] show ?thesis
    by (auto simp: map_of_byName split: if_splits)
qed

lemma set_collision_names:
  "set (collision_names (byName_loop [] 0 tools)) =
    {name. name \<noteq> '''' \<and> occurs_twice name (map Name tools)}"
proof -
  have "name \<in> Name ` set tools" if "Suc 0 < count_list (map Name tools) name" for name
    using that count_list_0_iff [of "map Name tools" name] by (cases "name \<in> Name ` set tools") auto
  then show ?thesis
    by (auto simp: collision_names_def occurs_twice_def byName_entries length_indices_of image_iff)
qed

lemma distinct_collision_names: "distinct (collision_names (byName_loop [] 0 tools))"
  using byName_correct [of tools]
  by (auto simp: collision_names_def byName_inv_def distinct_map intro: inj_on_subset)

text \<open>What the callback reports: for every colliding name in sorted order, every tool of that name
  in index order.\<close>

lemma pcFindings_fold_ReportTool:
  "pcFindings (fold (\<lambda>i. ReportTool (f i) (g i)) is pc) =
    pcFindings pc @ map (\<lambda>i. tool_finding (pcRule pc) (f i) (g i)) is \<and>
   pcRule (fold (\<lambda>i. ReportTool (f i) (g i)) is pc) = pcRule pc"
  by (induction "is" arbitrary: pc) (auto simp: ReportTool_def)

lemma pcFindings_fold_groups:
  "pcFindings (fold (\<lambda>n pc. fold (\<lambda>i. ReportTool (f i) (g n i)) (is n) pc) ns pc) =
    pcFindings pc @ concat (map (\<lambda>n. map (\<lambda>i. tool_finding (pcRule pc) (f i) (g n i)) (is n)) ns) \<and>
   pcRule (fold (\<lambda>n pc. fold (\<lambda>i. ReportTool (f i) (g n i)) (is n) pc) ns pc) = pcRule pc"
  by (induction ns arbitrary: pc) (auto simp: pcFindings_fold_ReportTool)

lemma collision_findings:
  "pcFindings (collision_impl u pc) = pcFindings pc @
    concat (map (\<lambda>name. map (\<lambda>i. tool_finding (pcRule pc) (Tools (pcToolSet pc) ! i)
        (collision_message u (Tools (pcToolSet pc)) name (indices_of name (Tools (pcToolSet pc))) i))
      (indices_of name (Tools (pcToolSet pc))))
    (collision_names (byName_loop [] 0 (Tools (pcToolSet pc)))))"
proof -
  let ?ts = "Tools (pcToolSet pc)"
  have "(case map_of (byName_loop [] 0 ?ts) name of Some is \<Rightarrow> is | None \<Rightarrow> []) = indices_of name ?ts" for name
    by (simp add: map_of_byName indices_of_absent)
  then show ?thesis
    by (simp add: collision_impl_def Let_def pcFindings_fold_groups)
qed

lemma collision_mem_iff:
  "x \<in> set (pcFindings (collision_impl u \<lparr>pcToolSet = ts, pcFindings = [], pcRule = r\<rparr>)) \<longleftrightarrow>
    (\<exists>i<length (Tools ts). Name (Tools ts ! i) \<noteq> [] \<and> occurs_twice (Name (Tools ts ! i)) (map Name (Tools ts)) \<and>
       x = tool_finding r (Tools ts ! i)
         (collision_message u (Tools ts) (Name (Tools ts ! i)) (indices_of (Name (Tools ts ! i)) (Tools ts)) i))"
  by (auto simp: collision_findings set_collision_names indices_of_def)

lemma collision_silent_iff:
  "pcFindings (collision_impl u \<lparr>pcToolSet = ts, pcFindings = [], pcRule = r\<rparr>) = [] \<longleftrightarrow>
    distinct (filter (\<lambda>n. n \<noteq> '''') (map Name (Tools ts)))"
proof -
  let ?ns = "map Name (Tools ts)"
  have two: "indices_of n (Tools ts) \<noteq> []" if "occurs_twice n ?ns" for n
    using that length_indices_of [of n "Tools ts"] by (auto simp: occurs_twice_def)
  have "pcFindings (collision_impl u \<lparr>pcToolSet = ts, pcFindings = [], pcRule = r\<rparr>) = [] \<longleftrightarrow>
      (\<forall>n. n \<noteq> '''' \<longrightarrow> \<not> occurs_twice n ?ns)"
    using two by (auto simp: collision_findings set_collision_names concat_eq_Nil_conv)
  also have "\<dots> \<longleftrightarrow> (\<forall>n. \<not> occurs_twice n (filter (\<lambda>n. n \<noteq> '''') ?ns))"
  proof -
    have "count_list (filter (\<lambda>n. n \<noteq> '''') xs) n = (if n = '''' then 0 else count_list xs n)"
      for n :: string and xs
      by (induction xs) auto
    then show ?thesis by (auto simp: occurs_twice_def)
  qed
  finally show ?thesis by (simp add: distinct_iff_no_twice)
qed

section \<open>tool-static-vs-live-mismatch\<close>

text \<open>\<^verbatim>\<open>indexByName\<close>: the first index of every name, from index \<open>i\<close> on.\<close>

fun indexByName_loop :: "(string \<times> nat) list \<Rightarrow> nat \<Rightarrow> tool list \<Rightarrow> (string \<times> nat) list" where
  "indexByName_loop out i [] = out"
| "indexByName_loop out i (t # ts) =
    (case map_of out (Name t) of
       Some _ \<Rightarrow> indexByName_loop out (Suc i) ts
     | None \<Rightarrow> indexByName_loop (out @ [(Name t, i)]) (Suc i) ts)"

definition indexByName :: "tool list \<Rightarrow> (string \<times> nat) list" where
  "indexByName tools = indexByName_loop [] 0 tools"

definition names_only_in :: "(string \<times> nat) list \<Rightarrow> (string \<times> nat) list \<Rightarrow> string list" where
  "names_only_in here there = sort (filter (\<lambda>name. map_of there name = None) (map fst here))"

definition static_only_message :: "ucd \<Rightarrow> string \<Rightarrow> string" where
  "static_only_message u name =
    ''tool '' @ strconv_Quote u name @
    '' appears in static intake but the live server does not advertise it; possible conditional registration or build-time gating''"

definition live_only_message :: "ucd \<Rightarrow> string \<Rightarrow> string" where
  "live_only_message u name =
    ''tool '' @ strconv_Quote u name @
    '' is registered at runtime but absent from the static intake; likely dynamic registration the static analysis missed''"

definition report_only :: "tool list \<Rightarrow> (string \<times> nat) list \<Rightarrow> (string \<Rightarrow> string) \<Rightarrow> string list \<Rightarrow>
    comparison_ctx \<Rightarrow> comparison_ctx" where
  "report_only tools byName msg names cc =
    fold (\<lambda>name cc. cc_ReportTool (tools ! (case map_of byName name of Some i \<Rightarrow> i | None \<Rightarrow> 0)) (msg name) cc)
      names cc"

definition static_vs_live_impl :: "ucd \<Rightarrow> comparison_ctx \<Rightarrow> comparison_ctx" where
  "static_vs_live_impl u cc =
    (case (ccStatic cc, ccLive cc) of
       (Some s, Some l) \<Rightarrow>
         (let staticByName = indexByName (Tools s);
              liveByName = indexByName (Tools l);
              cc1 = report_only (Tools s) staticByName (static_only_message u)
                      (names_only_in staticByName liveByName) cc
          in report_only (Tools l) liveByName (live_only_message u)
               (names_only_in liveByName staticByName) cc1)
     | _ \<Rightarrow> cc)"

definition static_vs_live_rule :: "ucd \<Rightarrow> rule" where
  "static_vs_live_rule u =
    \<lparr>ID = ''tool-static-vs-live-mismatch'', Category = CatSpec, Severity = SevWarning,
     ruleDescription = ''Tools advertised by the static intake should match the tools the live server registers at runtime; drift here indicates dynamic registration that the static analysis can't see.'',
     Fix = FixNone, Implementation = None, ProjectImplementation = None,
     ComparisonImplementation = Some (static_vs_live_impl u)\<rparr>"

text \<open>The index holds exactly the names, each with the first tool of that name.\<close>

lemma indexByName_loop_dom:
  "set (map fst (indexByName_loop out i ts)) = set (map fst out) \<union> Name ` set ts"
  by (induction out i ts rule: indexByName_loop.induct)
    (auto split: option.splits simp: map_of_eq_None_iff dest: map_of_SomeD intro: rev_image_eqI)

lemma indexByName_loop_distinct:
  "distinct (map fst out) \<Longrightarrow> distinct (map fst (indexByName_loop out i ts))"
  by (induction out i ts rule: indexByName_loop.induct)
    (auto split: option.splits simp: map_of_eq_None_iff)

lemma indexByName_loop_named:
  assumes "\<And>n j. map_of out n = Some j \<Longrightarrow> j < i \<and> Name (all ! j) = n"
    and "\<And>k. k < length ts \<Longrightarrow> all ! (i + k) = ts ! k"
    and "map_of (indexByName_loop out i ts) n = Some j"
  shows "j < i + length ts \<and> Name (all ! j) = n"
  using assms
proof (induction out i ts rule: indexByName_loop.induct)
  case (1 out i)
  then show ?case by simp
next
  case (2 out i t ts)
  have t: "all ! i = t" using 2(4) [of 0] by simp
  have shift: "\<And>k. k < length ts \<Longrightarrow> all ! (Suc i + k) = ts ! k" using 2(4) [of "Suc _"] by simp
  show ?case
  proof (cases "map_of out (Name t)")
    case None
    have "j < Suc i + length ts \<and> Name (all ! j) = n"
    proof (rule 2(1) [OF None _ shift])
      show "map_of (indexByName_loop (out @ [(Name t, i)]) (Suc i) ts) n = Some j" using 2(5) None by simp
      show "\<And>n j. map_of (out @ [(Name t, i)]) n = Some j \<Longrightarrow> j < Suc i \<and> Name (all ! j) = n"
        using 2(3) t by (auto simp: map_add_Some_iff less_SucI split: if_splits)
    qed
    then show ?thesis by simp
  next
    case (Some k)
    have "j < Suc i + length ts \<and> Name (all ! j) = n"
      using 2(5) Some 2(3) by (intro 2(2) [OF Some _ shift]) (auto intro: less_SucI)
    then show ?thesis by simp
  qed
qed

lemma map_of_indexByName_None: "map_of (indexByName ts) n = None \<longleftrightarrow> n \<notin> Name ` set ts"
  using indexByName_loop_dom [of "[]" 0 ts] by (simp add: indexByName_def map_of_eq_None_iff)

lemma map_of_indexByName_Some:
  "map_of (indexByName ts) n = Some j \<Longrightarrow> j < length ts \<and> Name (ts ! j) = n"
  using indexByName_loop_named [of "[]" 0 ts ts n j] by (simp add: indexByName_def)

lemma names_only_in_indexByName:
  "set (names_only_in (indexByName a) (indexByName b)) = Name ` set a - Name ` set b \<and>
   distinct (names_only_in (indexByName a) (indexByName b)) \<and>
   sorted (names_only_in (indexByName a) (indexByName b))"
  using indexByName_loop_dom [of "[]" 0 a] indexByName_loop_distinct [of "[]" 0 a]
  by (auto simp: names_only_in_def map_of_indexByName_None indexByName_def [of a])

lemma ccFindings_report_only:
  "ccFindings (report_only tools m msg ns cc) = ccFindings cc @
     map (\<lambda>n. tool_finding (ccRule cc) (tools ! (case map_of m n of Some i \<Rightarrow> i | None \<Rightarrow> 0)) (msg n)) ns \<and>
   ccRule (report_only tools m msg ns cc) = ccRule cc"
  unfolding report_only_def by (induction ns arbitrary: cc) (auto simp: cc_ReportTool_def)

lemma ToolName_report_only:
  assumes "set ns \<subseteq> Name ` set ts"
  shows "map (ToolName \<circ> (\<lambda>n. tool_finding r (ts ! (case map_of (indexByName ts) n of Some i \<Rightarrow> i | None \<Rightarrow> 0)) (msg n))) ns = ns"
  using assms
proof (induction ns)
  case (Cons n ns)
  then obtain j where "map_of (indexByName ts) n = Some j"
    using map_of_indexByName_None [of ts n] by (cases "map_of (indexByName ts) n") auto
  with Cons map_of_indexByName_Some show ?case by (force simp: tool_finding_def)
qed simp

text \<open>The findings name, in this order, the static-only names sorted and the live-only names
  sorted.\<close>

lemma static_vs_live_names:
  "map ToolName (ccFindings (static_vs_live_impl u
      \<lparr>ccStatic = Some s, ccLive = Some l, ccFindings = [], ccRule = r\<rparr>)) =
    names_only_in (indexByName (Tools s)) (indexByName (Tools l)) @
    names_only_in (indexByName (Tools l)) (indexByName (Tools s))"
  using names_only_in_indexByName [of "Tools s" "Tools l"] names_only_in_indexByName [of "Tools l" "Tools s"]
  by (simp add: static_vs_live_impl_def Let_def ccFindings_report_only ToolName_report_only Diff_subset)


lemma distinct_indices_concat:
  "distinct ns \<Longrightarrow> distinct (concat (map (\<lambda>n. indices_of n ts) ns))"
  by (induction ns) (auto simp: indices_of_def)

section \<open>Properties\<close>

text \<open>tool-name-not-snake-case. The rule is silent on a tool exactly when the tool has no name or
  its name is snake case: its first rune is a lower-case letter, every rune is a lower-case letter, a
  digit or an underscore, and the last one is no underscore. The positions of the loop are byte
  offsets, and the statement holds for names with runes of several bytes and for invalid UTF-8.\<close>

theorem snakecase_rule_silent:
  "Run [snakecase_rule u] t = [] \<longleftrightarrow>
    Name t = '''' \<or>
    (unicode_IsLower u (fst (hd (runes (Name t)))) \<and>
     list_all (\<lambda>r. unicode_IsLower u r \<or> unicode_IsDigit u r \<or> r = 95) (map fst (runes (Name t))) \<and>
     fst (last (runes (Name t))) \<noteq> 95)"
proof -
  have "Run [snakecase_rule u] t =
      map (tool_finding (rule_info.truncate (snakecase_rule u)) t) (snakecase_messages u t)"
    by (rule Run_single [OF _ snakecase.per_tool_rule_axioms]) (simp add: snakecase_rule_def)
  moreover have "snake_rune u = (\<lambda>r. unicode_IsLower u r \<or> unicode_IsDigit u r \<or> r = 95)"
    by (auto simp: snake_rune_def)
  ultimately show ?thesis by (auto simp: snakecase_messages_def isSnakeCase_iff)
qed

text \<open>(C3) tool-name-collision. On every tool set the rule reports exactly one kind of finding: for every
  index whose tool has a non-empty name that another tool of the set also has, a finding on that tool
  whose message lists the places of the others; and it reports each such index once.\<close>

theorem collision_exact:
  "set (RunProject [collision_rule u] ts) =
     {tool_finding (rule_info.truncate (collision_rule u)) (Tools ts ! i)
        (collision_message u (Tools ts) (Name (Tools ts ! i)) (indices_of (Name (Tools ts ! i)) (Tools ts)) i) | i.
      i < length (Tools ts) \<and> Name (Tools ts ! i) \<noteq> '''' \<and>
      (\<exists>j < length (Tools ts). j \<noteq> i \<and> Name (Tools ts ! j) = Name (Tools ts ! i))} \<and>
   length (RunProject [collision_rule u] ts) =
     card {i. i < length (Tools ts) \<and> Name (Tools ts ! i) \<noteq> '''' \<and>
       (\<exists>j < length (Tools ts). j \<noteq> i \<and> Name (Tools ts ! j) = Name (Tools ts ! i))}"
proof -
  let ?ts = "Tools ts" and ?r = "rule_info.truncate (collision_rule u)"
  let ?ns = "collision_names (byName_loop [] 0 (Tools ts))"
  let ?hit = "{i. i < length ?ts \<and> Name (?ts ! i) \<noteq> '''' \<and> (\<exists>j < length ?ts. j \<noteq> i \<and> Name (?ts ! j) = Name (?ts ! i))}"
  have run: "RunProject [collision_rule u] ts =
      pcFindings (collision_impl u \<lparr>pcToolSet = ts, pcFindings = [], pcRule = ?r\<rparr>)"
    by (simp add: collision_rule_def)
  have twice: "occurs_twice (Name (?ts ! i)) (map Name ?ts) \<longleftrightarrow> (\<exists>j < length ?ts. j \<noteq> i \<and> Name (?ts ! j) = Name (?ts ! i))"
    if "i < length ?ts" for i
    using occurs_twice_nth [of i "map Name ?ts"] that by fastforce
  have "set (RunProject [collision_rule u] ts) =
      {tool_finding ?r (?ts ! i) (collision_message u ?ts (Name (?ts ! i)) (indices_of (Name (?ts ! i)) ?ts) i) | i.
        i \<in> ?hit}"
    unfolding run by (rule set_eqI, subst collision_mem_iff) (use twice in auto)
  moreover have "length (RunProject [collision_rule u] ts) = card ?hit"
  proof -
    let ?is = "concat (map (\<lambda>n. indices_of n ?ts) ?ns)"
    have "length (RunProject [collision_rule u] ts) = length ?is"
      unfolding run by (simp add: collision_findings length_concat o_def)
    also have "\<dots> = card (set ?is)"
      by (rule distinct_card [symmetric], rule distinct_indices_concat, rule distinct_collision_names)
    also have "set ?is = ?hit"
      using twice by (auto simp: set_collision_names indices_of_def)
    finally show ?thesis .
  qed
  ultimately show ?thesis by simp
qed

text \<open>The collision rule is silent exactly when the non-empty names of the set are pairwise
  distinct.\<close>

theorem collision_silent_exact:
  "RunProject [collision_rule u] ts = [] \<longleftrightarrow> distinct (filter (\<lambda>n. n \<noteq> '''') (map Name (Tools ts)))"
  by (simp add: collision_rule_def collision_silent_iff)

text \<open>(C10) tool-static-vs-live-mismatch. With both intakes present, the tools reported are, in sorted order
  and each once, the names only the static set has, then the names only the live set has; with one
  intake missing nothing is reported.\<close>

theorem static_vs_live_exact:
  "\<exists>only_static only_live.
     map ToolName (RunComparison [static_vs_live_rule u] (Some s) (Some l)) = only_static @ only_live \<and>
     sorted only_static \<and> distinct only_static \<and> set only_static = Name ` set (Tools s) - Name ` set (Tools l) \<and>
     sorted only_live \<and> distinct only_live \<and> set only_live = Name ` set (Tools l) - Name ` set (Tools s) \<and>
     RunComparison [static_vs_live_rule u] None (Some l) = [] \<and>
     RunComparison [static_vs_live_rule u] (Some s) None = []"
proof (intro exI conjI)
  show "map ToolName (RunComparison [static_vs_live_rule u] (Some s) (Some l)) =
      names_only_in (indexByName (Tools s)) (indexByName (Tools l)) @
      names_only_in (indexByName (Tools l)) (indexByName (Tools s))"
    by (simp add: static_vs_live_rule_def static_vs_live_names)
qed (simp_all add: names_only_in_indexByName static_vs_live_rule_def static_vs_live_impl_def)

end
