(* ===== verification/Go_Regexp.thy ===== *)
theory Go_Regexp
  imports Go_Strings
begin

text \<open>
  What the sources use of Go's package \<^verbatim>\<open>regexp\<close>: leftmost-first matching (the match a
  backtracking search finds first) of the constructs that occur in the program's patterns. The
  matcher works on bytes. Every pattern of the program reads the same on bytes as on runes: its
  classes are ASCII classes, negated ASCII classes under a greedy star that an ASCII byte or the
  end must follow, and the two non-ASCII letters that case folding adds, which are written out as
  byte sequences.

  The executable matcher \<open>rx_run\<close> lists the results in backtracking order. The relation
  \<open>rx_rel\<close> is the declarative meaning; \<open>rx_run_iff\<close> shows that they agree.
\<close>

section \<open>Patterns\<close>

datatype rx =
    REps
  | RClass "(char \<times> char) list"
  | RNotClass "(char \<times> char) list"
  | RSeq rx rx
  | RAlt rx rx
  | RStar rx
  | RWordB
  | RBegin
  | REnd
  | RGroup nat rx

definition in_class :: "(char \<times> char) list \<Rightarrow> char \<Rightarrow> bool" where
  "in_class rs c \<longleftrightarrow> list_ex (\<lambda>(a, b). byte a \<le> byte c \<and> byte c \<le> byte b) rs"

abbreviation RChar :: "char \<Rightarrow> rx" where
  "RChar c \<equiv> RClass [(c, c)]"

fun RLit :: "string \<Rightarrow> rx" where
  "RLit [] = REps"
| "RLit [c] = RChar c"
| "RLit (c # d # cs) = RSeq (RChar c) (RLit (d # cs))"

definition RPlus :: "rx \<Rightarrow> rx" where
  "RPlus r = RSeq r (RStar r)"

definition ROpt :: "rx \<Rightarrow> rx" where
  "ROpt r = RAlt r REps"

fun RRep :: "nat \<Rightarrow> rx \<Rightarrow> rx" where
  "RRep 0 r = REps"
| "RRep (Suc 0) r = r"
| "RRep (Suc (Suc n)) r = RSeq r (RRep (Suc n) r)"

fun RAlts :: "rx list \<Rightarrow> rx" where
  "RAlts [] = RClass []"
| "RAlts [r] = r"
| "RAlts (r # q # rs) = RAlt r (RAlts (q # rs))"

fun RSeqs :: "rx list \<Rightarrow> rx" where
  "RSeqs [] = REps"
| "RSeqs [r] = r"
| "RSeqs (r # q # rs) = RSeq r (RSeqs (q # rs))"

definition word_ranges :: "(char \<times> char) list" where
  "word_ranges = [(CHR ''0'', CHR ''9''), (CHR ''A'', CHR ''Z''), (CHR ''_'', CHR ''_''), (CHR ''a'', CHR ''z'')]"

definition space_ranges :: "(char \<times> char) list" where
  "space_ranges = [(CHR 0x09, CHR 0x0A), (CHR 0x0C, CHR 0x0D), (CHR '' '', CHR '' '')]"

definition RSpaces :: rx where
  "RSpaces = RStar (RClass space_ranges)"

text \<open>A letter under \<^verbatim>\<open>(?i)\<close>: both cases and, for k and s, the letters that Unicode folds to
  them, the Kelvin sign and the long s.\<close>

definition RFold :: "char \<Rightarrow> rx" where
  "RFold c =
    (let both = RClass [(c, c), (char_of (byte c - 32), char_of (byte c - 32))] in
     if c = CHR ''k'' then RAlt both (RLit [CHR 0xE2, CHR 0x84, CHR 0xAA])
     else if c = CHR ''s'' then RAlt both (RLit [CHR 0xC5, CHR 0xBF])
     else both)"

fun RFolds :: "string \<Rightarrow> rx" where
  "RFolds [] = REps"
| "RFolds [c] = RFold c"
| "RFolds (c # d # cs) = RSeq (RFold c) (RFolds (d # cs))"

section \<open>Matching\<close>

text \<open>A position: the bytes read so far, last first; the bytes to come; the texts of the groups
  closed so far, latest first.\<close>

type_synonym rx_pos = "string \<times> string \<times> (nat \<times> string) list"

abbreviation rx_rest :: "rx_pos \<Rightarrow> string" where
  "rx_rest p \<equiv> fst (snd p)"

definition is_word :: "char \<Rightarrow> bool" where
  "is_word c \<longleftrightarrow> in_class word_ranges c"

definition word_at :: "string \<Rightarrow> bool" where
  "word_at s \<longleftrightarrow> (case s of [] \<Rightarrow> False | c # _ \<Rightarrow> is_word c)"

text \<open>\<^verbatim>\<open>\b\<close>: a word byte on exactly one side.\<close>

definition boundary :: "string \<Rightarrow> string \<Rightarrow> bool" where
  "boundary bef aft \<longleftrightarrow> word_at bef \<noteq> word_at aft"

fun step_class :: "(char \<Rightarrow> bool) \<Rightarrow> rx_pos \<Rightarrow> rx_pos list" where
  "step_class P (b, [], g) = []"
| "step_class P (b, c # cs, g) = (if P c then [(c # b, cs, g)] else [])"

function rx_run :: "rx \<Rightarrow> rx_pos \<Rightarrow> rx_pos list" where
  "rx_run REps p = [p]"
| "rx_run (RClass rs) p = step_class (in_class rs) p"
| "rx_run (RNotClass rs) p = step_class (\<lambda>c. \<not> in_class rs c) p"
| "rx_run (RSeq r q) p = concat (map (rx_run q) (rx_run r p))"
| "rx_run (RAlt r q) p = rx_run r p @ rx_run q p"
| "rx_run (RStar r) p =
    concat (map (rx_run (RStar r))
      (filter (\<lambda>q. length (rx_rest q) < length (rx_rest p)) (rx_run r p))) @ [p]"
| "rx_run RWordB p = (if boundary (fst p) (rx_rest p) then [p] else [])"
| "rx_run RBegin p = (if fst p = [] then [p] else [])"
| "rx_run REnd p = (if rx_rest p = [] then [p] else [])"
| "rx_run (RGroup n r) p =
    map (\<lambda>(b, a, g). (b, a, (n, take (length (rx_rest p) - length a) (rx_rest p)) # g)) (rx_run r p)"
  by pat_completeness auto
termination
  by (relation "measures [\<lambda>(r, p). size r, \<lambda>(r, p). length (rx_rest p)]") auto

declare rx_run.simps(6) [simp del]

text \<open>The declarative meaning: \<open>rx_rel r p q\<close> when \<open>r\<close> can take position \<open>p\<close> to
  \<open>q\<close>.\<close>

inductive rx_rel :: "rx \<Rightarrow> rx_pos \<Rightarrow> rx_pos \<Rightarrow> bool" where
  rel_eps: "rx_rel REps p p"
| rel_class: "in_class rs c \<Longrightarrow> rx_rel (RClass rs) (b, c # cs, g) (c # b, cs, g)"
| rel_not: "\<not> in_class rs c \<Longrightarrow> rx_rel (RNotClass rs) (b, c # cs, g) (c # b, cs, g)"
| rel_seq: "rx_rel r p p' \<Longrightarrow> rx_rel q p' p'' \<Longrightarrow> rx_rel (RSeq r q) p p''"
| rel_alt1: "rx_rel r p p' \<Longrightarrow> rx_rel (RAlt r q) p p'"
| rel_alt2: "rx_rel q p p' \<Longrightarrow> rx_rel (RAlt r q) p p'"
| rel_star_done: "rx_rel (RStar r) p p"
| rel_star_more: "rx_rel r p p' \<Longrightarrow> length (rx_rest p') < length (rx_rest p) \<Longrightarrow>
    rx_rel (RStar r) p' p'' \<Longrightarrow> rx_rel (RStar r) p p''"
| rel_wordb: "boundary (fst p) (rx_rest p) \<Longrightarrow> rx_rel RWordB p p"
| rel_begin: "fst p = [] \<Longrightarrow> rx_rel RBegin p p"
| rel_end: "rx_rest p = [] \<Longrightarrow> rx_rel REnd p p"
| rel_group: "rx_rel r p (b, a, g) \<Longrightarrow>
    rx_rel (RGroup n r) p (b, a, (n, take (length (rx_rest p) - length a) (rx_rest p)) # g)"

inductive_cases rel_eps_elim: "rx_rel REps p q"
inductive_cases rel_class_elim: "rx_rel (RClass rs) p q"
inductive_cases rel_not_elim: "rx_rel (RNotClass rs) p q"
inductive_cases rel_seq_elim: "rx_rel (RSeq r s) p q"
inductive_cases rel_alt_elim: "rx_rel (RAlt r s) p q"
inductive_cases rel_star_elim: "rx_rel (RStar r) p q"
inductive_cases rel_wordb_elim: "rx_rel RWordB p q"
inductive_cases rel_begin_elim: "rx_rel RBegin p q"
inductive_cases rel_end_elim: "rx_rel REnd p q"
inductive_cases rel_group_elim: "rx_rel (RGroup n r) p q"

lemmas rx_rel_elims = rel_eps_elim rel_class_elim rel_not_elim rel_seq_elim rel_alt_elim
  rel_wordb_elim rel_begin_elim rel_end_elim rel_group_elim

lemma step_class_iff:
  "q \<in> set (step_class P p) \<longleftrightarrow> (\<exists>b c cs g. p = (b, c # cs, g) \<and> P c \<and> q = (c # b, cs, g))"
  by (cases "(P, p)" rule: step_class.cases) auto

lemma rx_run_star_iff:
  "q \<in> set (rx_run (RStar r) p) \<longleftrightarrow> q = p \<or>
    (\<exists>p' \<in> set (rx_run r p). length (rx_rest p') < length (rx_rest p) \<and> q \<in> set (rx_run (RStar r) p'))"
  by (subst rx_run.simps(6)) (auto simp del: split_paired_Ex)

lemma rx_run_sound: "q \<in> set (rx_run r p) \<Longrightarrow> rx_rel r p q"
proof (induction r p arbitrary: q rule: rx_run.induct)
  case (6 r p)
  from 6(3) consider "q = p" | p' where "p' \<in> set (rx_run r p)"
    "length (rx_rest p') < length (rx_rest p)" "q \<in> set (rx_run (RStar r) p')"
    unfolding rx_run_star_iff [of q r p] by blast
  then show ?case
  proof cases
    case 1
    then show ?thesis by (auto intro: rel_star_done)
  next
    case 2
    then have "rx_rel r p p'" "rx_rel (RStar r) p' q" using 6(1,2) by simp_all
    with 2 show ?thesis by (blast intro: rel_star_more)
  qed
next
  case (4 r s p)
  then obtain p' where "p' \<in> set (rx_run r p)" "q \<in> set (rx_run s p')"
    by (auto simp del: split_paired_Ex)
  with 4 have "rx_rel r p p'" "rx_rel s p' q" by simp_all
  then show ?case by (rule rel_seq)
next
  case (10 n r p)
  then show ?case by (auto intro!: rel_group)
qed (auto simp: step_class_iff intro: rx_rel.intros split: if_splits)

lemma rx_run_complete: "rx_rel r p q \<Longrightarrow> q \<in> set (rx_run r p)"
proof (induction rule: rx_rel.induct)
  case (rel_star_more r p p' p'')
  then show ?case unfolding rx_run_star_iff [of p'' r p] by blast
next
  case (rel_star_done r p)
  then show ?case unfolding rx_run_star_iff [of p r p] by blast
next
  case (rel_group r p b a g n)
  then show ?case by force
qed auto

lemma rx_run_iff: "q \<in> set (rx_run r p) \<longleftrightarrow> rx_rel r p q"
  using rx_run_sound rx_run_complete by blast

text \<open>A match reads a prefix of what is left and moves it behind.\<close>

lemma rx_rel_reads:
  "rx_rel r p q \<Longrightarrow> \<exists>w. rx_rest p = w @ rx_rest q \<and> fst q = rev w @ fst p"
proof (induction rule: rx_rel.induct)
  case (rel_seq r p p' q p'')
  then show ?case by (metis append_assoc rev_append)
next
  case (rel_star_more r p p' p'')
  then show ?case by (metis append_assoc rev_append)
qed auto

section \<open>Searching\<close>

text \<open>The first match in backtracking order at a position, and the leftmost one of a text. A
  match is the position where it starts and the position where it ends.\<close>

definition rx_at :: "rx \<Rightarrow> rx_pos \<Rightarrow> rx_pos option" where
  "rx_at r p = (case rx_run r p of [] \<Rightarrow> None | q # _ \<Rightarrow> Some q)"

fun rx_search :: "rx \<Rightarrow> string \<Rightarrow> string \<Rightarrow> (rx_pos \<times> rx_pos) option" where
  "rx_search r b [] =
    (case rx_at r (b, [], []) of Some q \<Rightarrow> Some ((b, [], []), q) | None \<Rightarrow> None)"
| "rx_search r b (c # cs) =
    (case rx_at r (b, c # cs, []) of
       Some q \<Rightarrow> Some ((b, c # cs, []), q)
     | None \<Rightarrow> rx_search r (c # b) cs)"

definition match_text :: "rx_pos \<times> rx_pos \<Rightarrow> string" where
  "match_text m = (case m of (p, q) \<Rightarrow> take (length (rx_rest p) - length (rx_rest q)) (rx_rest p))"

text \<open>\<^verbatim>\<open>kv[n]\<close> of a submatch: the group's text, empty when the group took no part.\<close>

definition match_group :: "nat \<Rightarrow> rx_pos \<times> rx_pos \<Rightarrow> string" where
  "match_group n m = (case map_of (snd (snd (snd m))) n of Some s \<Rightarrow> s | None \<Rightarrow> [])"

definition match_start :: "rx_pos \<times> rx_pos \<Rightarrow> nat" where
  "match_start m = length (fst (fst m))"

text \<open>\<^verbatim>\<open>FindAll\<close>: the search resumes at the end of each match. The program's patterns never
  match the empty text; the search stops there if one did.\<close>

function rx_find_all :: "rx \<Rightarrow> string \<Rightarrow> string \<Rightarrow> (rx_pos \<times> rx_pos) list" where
  "rx_find_all r b s =
    (case rx_search r b s of
       None \<Rightarrow> []
     | Some (p, q) \<Rightarrow>
         if length (rx_rest q) < length s then (p, q) # rx_find_all r (fst q) (rx_rest q) else [])"
  by pat_completeness auto
termination
  by (relation "measure (\<lambda>(r, b, s). length s)") auto

declare rx_find_all.simps [simp del]

lemma rx_at_None: "rx_at r p = None \<longleftrightarrow> (\<forall>q. \<not> rx_rel r p q)"
  by (auto simp: rx_at_def rx_run_iff [symmetric] split: list.splits)

lemma rx_at_Some: "rx_at r p = Some q \<Longrightarrow> rx_rel r p q"
  by (auto simp: rx_at_def rx_run_iff [symmetric] split: list.splits)

text \<open>The search finds a match exactly when one exists at some split of the text, and what it
  finds lies in the text.\<close>

lemma all_splits_Cons:
  "(\<forall>u v. c # cs = u @ v \<longrightarrow> P u v) \<longleftrightarrow> P [] (c # cs) \<and> (\<forall>u v. cs = u @ v \<longrightarrow> P (c # u) v)"
  by (auto simp: Cons_eq_append_conv)

lemma rx_search_None:
  "rx_search r b s = None \<longleftrightarrow> (\<forall>u v. s = u @ v \<longrightarrow> rx_at r (rev u @ b, v, []) = None)"
proof (induction r b s rule: rx_search.induct)
  case (1 r b)
  then show ?case by (auto split: option.splits)
next
  case (2 r b c cs)
  then show ?case unfolding all_splits_Cons by (cases "rx_at r (b, c # cs, [])") auto
qed

lemma rx_search_Some:
  assumes "rx_search r b s = Some (p, q)"
  shows "\<exists>u w. s = u @ w @ rx_rest q \<and> p = (rev u @ b, w @ rx_rest q, []) \<and>
    fst q = rev w @ rev u @ b \<and> rx_rel r p q \<and> match_text (p, q) = w \<and>
    (\<forall>u1 u2 q'. u = u1 @ u2 \<longrightarrow> u2 \<noteq> [] \<longrightarrow> \<not> rx_rel r (rev u1 @ b, u2 @ w @ rx_rest q, []) q')"
  using assms
proof (induction r b s rule: rx_search.induct)
  case (1 r b)
  then have "p = (b, [], [])" "rx_at r p = Some q" by (auto split: option.splits)
  then show ?case using rx_at_Some [of r p q] rx_rel_reads [of r p q]
    by (auto simp: match_text_def)
next
  case (2 r b c cs)
  show ?case
  proof (cases "rx_at r (b, c # cs, [])")
    case None
    with 2 obtain u w where uw: "cs = u @ w @ rx_rest q" "p = (rev u @ c # b, w @ rx_rest q, [])"
      "fst q = rev w @ rev u @ c # b" "rx_rel r p q" "match_text (p, q) = w"
      "\<forall>u1 u2 q'. u = u1 @ u2 \<longrightarrow> u2 \<noteq> [] \<longrightarrow> \<not> rx_rel r (rev u1 @ c # b, u2 @ w @ rx_rest q, []) q'"
      by auto
    show ?thesis
      using uw None by (intro exI [of _ "c # u"] exI [of _ w])
        (auto simp: rx_at_None Cons_eq_append_conv)
  next
    case (Some q')
    with 2 have "p = (b, c # cs, [])" "q = q'" by auto
    moreover obtain w where "c # cs = w @ rx_rest q" "fst q = rev w @ b"
      using rx_rel_reads [OF rx_at_Some [OF Some]] \<open>q = q'\<close> by auto
    ultimately show ?thesis using rx_at_Some [OF Some]
      by (intro exI [of _ "[]"] exI [of _ w]) (simp add: match_text_def)
  qed
qed


text \<open>The matches of \<^verbatim>\<open>FindAll\<close> start in the text, each after the one before.\<close>

lemma rx_find_all_starts:
  "sorted (map match_start (rx_find_all r b s)) \<and>
    (\<forall>m\<in>set (rx_find_all r b s). length b \<le> match_start m \<and> match_start m \<le> length b + length s)"
proof (induction r b s rule: rx_find_all.induct)
  case (1 r b s)
  show ?case
  proof (cases "rx_search r b s")
    case None
    then show ?thesis by (simp add: rx_find_all.simps [of r b s])
  next
    case (Some m)
    obtain p q where m: "m = (p, q)" by (cases m) blast
    note found = Some [unfolded m]
    obtain u w where uw: "s = u @ w @ rx_rest q" "p = (rev u @ b, w @ rx_rest q, [])" "fst q = rev w @ rev u @ b"
      using rx_search_Some [OF found] by blast
    show ?thesis
    proof (cases "length (rx_rest q) < length s")
      case True
      then have eq: "rx_find_all r b s = (p, q) # rx_find_all r (fst q) (rx_rest q)"
        by (simp add: rx_find_all.simps [of r b s] found)
      have "length b \<le> match_start (p, q)" "match_start (p, q) \<le> length (fst q)"
        "length (fst q) + length (rx_rest q) = length b + length s"
        using uw by (simp_all add: match_start_def)
      then show ?thesis unfolding eq using 1 [OF found refl True] by fastforce
    qed (simp add: rx_find_all.simps [of r b s] found)
  qed
qed

section \<open>Languages\<close>

text \<open>The texts a pattern without anchors can read, independent of where it stands. \<open>rx_plain\<close>
  excludes the word boundary, the line anchors and groups.\<close>

primrec rx_plain :: "rx \<Rightarrow> bool" where
  "rx_plain REps = True"
| "rx_plain (RClass rs) = True"
| "rx_plain (RNotClass rs) = True"
| "rx_plain (RSeq r q) = (rx_plain r \<and> rx_plain q)"
| "rx_plain (RAlt r q) = (rx_plain r \<and> rx_plain q)"
| "rx_plain (RStar r) = rx_plain r"
| "rx_plain RWordB = False"
| "rx_plain RBegin = False"
| "rx_plain REnd = False"
| "rx_plain (RGroup n r) = False"

primrec rx_lang :: "rx \<Rightarrow> string set" where
  "rx_lang REps = {[]}"
| "rx_lang (RClass rs) = {[c] | c. in_class rs c}"
| "rx_lang (RNotClass rs) = {[c] | c. \<not> in_class rs c}"
| "rx_lang (RSeq r q) = {u @ v | u v. u \<in> rx_lang r \<and> v \<in> rx_lang q}"
| "rx_lang (RAlt r q) = rx_lang r \<union> rx_lang q"
| "rx_lang (RStar r) = {concat ws | ws. set ws \<subseteq> rx_lang r}"
| "rx_lang RWordB = {}"
| "rx_lang RBegin = {}"
| "rx_lang REnd = {}"
| "rx_lang (RGroup n r) = rx_lang r"

definition reads :: "string \<Rightarrow> rx_pos \<Rightarrow> rx_pos \<Rightarrow> bool" where
  "reads w p q \<longleftrightarrow> rx_rest p = w @ rx_rest q \<and> fst q = rev w @ fst p \<and> snd (snd q) = snd (snd p)"

lemma reads_append: "reads u p p' \<Longrightarrow> reads v p' q \<Longrightarrow> reads (u @ v) p q"
  by (simp add: reads_def)

lemma reads_Nil [simp]: "reads [] p q \<longleftrightarrow> q = p"
  by (auto simp: reads_def prod_eq_iff)

lemma reads_appendE:
  assumes "reads (u @ v) p q"
  obtains p' where "reads u p p'" "reads v p' q"
proof -
  have "reads u p (rev u @ fst p, v @ rx_rest q, snd (snd p))" "reads v (rev u @ fst p, v @ rx_rest q, snd (snd p)) q"
    using assms by (auto simp: reads_def)
  then show ?thesis by (rule that)
qed

lemma rx_rel_lang: "rx_rel r p q \<Longrightarrow> rx_plain r \<Longrightarrow> \<exists>w\<in>rx_lang r. reads w p q"
proof (induction rule: rx_rel.induct)
  case (rel_seq r p p' q p'')
  then show ?case by (auto dest: reads_append)
next
  case (rel_star_done r p)
  have "concat [] \<in> rx_lang (RStar r)" by (auto intro!: exI [of _ "[]"])
  then show ?case by (intro bexI [of _ "concat []"]) simp_all
next
  case (rel_star_more r p p' p'')
  then obtain w ws where "w \<in> rx_lang r" "reads w p p'" "set ws \<subseteq> rx_lang r" "reads (concat ws) p' p''"
    by auto
  then have "reads (concat (w # ws)) p p''" "set (w # ws) \<subseteq> rx_lang r" by (auto dest: reads_append)
  then show ?case by (intro bexI [of _ "concat (w # ws)"]) (auto simp del: concat.simps set_simps)
qed (auto simp: reads_def)

lemma lang_rx_rel_star:
  assumes IH: "\<And>w p q. w \<in> rx_lang r \<Longrightarrow> reads w p q \<Longrightarrow> rx_rel r p q"
  shows "set ws \<subseteq> rx_lang r \<Longrightarrow> reads (concat ws) p q \<Longrightarrow> rx_rel (RStar r) p q"
proof (induction ws arbitrary: p)
  case Nil
  then show ?case by (auto intro: rel_star_done)
next
  case (Cons w ws)
  from Cons.prems(2) have "reads (w @ concat ws) p q" by simp
  then obtain p' where p': "reads w p p'" "reads (concat ws) p' q" by (rule reads_appendE)
  with Cons have star: "rx_rel (RStar r) p' q" by simp
  show ?case
  proof (cases "w = []")
    case True
    with p' star show ?thesis by simp
  next
    case False
    with p'(1) have "length (rx_rest p') < length (rx_rest p)" by (auto simp: reads_def)
    with IH [OF _ p'(1)] Cons.prems(1) star show ?thesis by (auto intro: rel_star_more)
  qed
qed

lemma lang_rx_rel: "w \<in> rx_lang r \<Longrightarrow> rx_plain r \<Longrightarrow> reads w p q \<Longrightarrow> rx_rel r p q"
proof (induction r arbitrary: w p q)
  case (RSeq r1 r2)
  then obtain u v where uv: "w = u @ v" "u \<in> rx_lang r1" "v \<in> rx_lang r2" by auto
  with RSeq.prems(3) have "reads (u @ v) p q" by simp
  then obtain p' where "reads u p p'" "reads v p' q" by (rule reads_appendE)
  with uv RSeq.IH RSeq.prems(2) show ?case by (intro rel_seq [of r1 p p']) simp_all
next
  case (RStar r)
  then obtain ws where "w = concat ws" "set ws \<subseteq> rx_lang r" by auto
  with RStar show ?case by (metis lang_rx_rel_star rx_plain.simps(6))
next
  case (RClass rs)
  then show ?case by (cases p; cases q) (auto simp: reads_def intro: rel_class)
next
  case (RNotClass rs)
  then show ?case by (cases p; cases q) (auto simp: reads_def intro: rel_not)
qed (auto intro: rel_eps rel_alt1 rel_alt2)

text \<open>Matching a plain pattern is reading a text of its language.\<close>

lemma rx_rel_plain_iff: "rx_plain r \<Longrightarrow> rx_rel r p q \<longleftrightarrow> (\<exists>w\<in>rx_lang r. reads w p q)"
  using rx_rel_lang lang_rx_rel by blast

end
