(* ===== verification/Rules_Schema.thy ===== *)
theory Rules_Schema
  imports Registry
begin

text \<open>
  The rules that read a tool's input schema and description: \<^verbatim>\<open>network.go\<close> and
  \<^verbatim>\<open>filepath.go\<close> over the shared \<^verbatim>\<open>schemautil.go\<close>, \<^verbatim>\<open>destructive.go\<close>,
  \<^verbatim>\<open>required_undefined.go\<close>, \<^verbatim>\<open>description.go\<close> and \<^verbatim>\<open>examples.go\<close>. The JSON
  Schema library that \<^verbatim>\<open>examples.go\<close> calls is a parameter.
\<close>

section \<open>Value constraints\<close>

definition hasStringValueConstraint :: "jmap \<Rightarrow> bool" where
  "hasStringValueConstraint propSchema =
    (if has_key propSchema ''enum'' then True
     else if has_key propSchema ''pattern'' then True
     else if has_key propSchema ''const'' then True
     else False)"

section \<open>network-tool-no-allowlist and file-tool-no-path-confinement\<close>

text \<open>An em dash, as the message text has it.\<close>

definition em_dash :: string where
  "em_dash = [CHR 0xE2, CHR 0x80, CHR 0x94]"

definition urlPropertyNames :: "string list" where
  "urlPropertyNames = [''url'', ''uri'', ''endpoint'', ''webhook'', ''webhookurl'', ''callbackurl'',
     ''targeturl'', ''redirecturl'', ''requesturl'']"

definition pathPropertyNames :: "string list" where
  "pathPropertyNames = [''path'', ''filepath'', ''filename'', ''directory'', ''dir'', ''folder'',
     ''sourcepath'', ''targetpath'', ''outputpath'', ''inputpath'', ''destpath'']"

definition isURLPropertyName :: "ucd \<Rightarrow> string \<Rightarrow> bool" where
  "isURLPropertyName u key =
    (let stripped = strings_ToLower u key;
         stripped = strings_RemoveAll (CHR ''_'') stripped;
         stripped = strings_RemoveAll (CHR ''-'') stripped
     in stripped \<in> set urlPropertyNames)"

definition isPathPropertyName :: "ucd \<Rightarrow> string \<Rightarrow> bool" where
  "isPathPropertyName u key =
    (let stripped = strings_ToLower u key;
         stripped = strings_RemoveAll (CHR ''_'') stripped;
         stripped = strings_RemoveAll (CHR ''-'') stripped
     in stripped \<in> set pathPropertyNames)"

definition network_message :: "string \<Rightarrow> string" where
  "network_message key =
    ''input property '' @ [CHR 0x22] @ key @ [CHR 0x22] @ '' looks like a URL but has no allowlist '' @
    ''(expected one of: enum, pattern, const) '' @ em_dash @ '' agent could drive arbitrary outbound requests''"

definition filepath_message :: "string \<Rightarrow> string" where
  "filepath_message key =
    ''input property '' @ [CHR 0x22] @ key @ [CHR 0x22] @ '' looks like a filesystem path but has no allowlist '' @
    ''(expected one of: enum, pattern, const) '' @ em_dash @ '' agent could read or write arbitrary files''"

text \<open>The loops over the properties, in the order the runtime visits the map: the first
  unconstrained property of a matching name is reported and the loop returns.\<close>

fun network_loop :: "ucd \<Rightarrow> jmap \<Rightarrow> ctx \<Rightarrow> ctx" where
  "network_loop u [] c = c"
| "network_loop u ((key, val) # rest) c =
    (if \<not> isURLPropertyName u key then network_loop u rest c
     else case val of
       JObj prop \<Rightarrow>
         if hasStringValueConstraint prop then network_loop u rest c
         else Report (network_message key) c
     | _ \<Rightarrow> network_loop u rest c)"

fun filepath_loop :: "ucd \<Rightarrow> jmap \<Rightarrow> ctx \<Rightarrow> ctx" where
  "filepath_loop u [] c = c"
| "filepath_loop u ((key, val) # rest) c =
    (if \<not> isPathPropertyName u key then filepath_loop u rest c
     else case val of
       JObj prop \<Rightarrow>
         if hasStringValueConstraint prop then filepath_loop u rest c
         else Report (filepath_message key) c
     | _ \<Rightarrow> filepath_loop u rest c)"

definition network_impl :: "ucd \<Rightarrow> ctx \<Rightarrow> ctx" where
  "network_impl u c =
    (case InputSchema (ctxTool c) of
       None \<Rightarrow> c
     | Some schema \<Rightarrow>
         (case map_of schema ''properties'' of
            None \<Rightarrow> c
          | Some propsAny \<Rightarrow> (case propsAny of JObj props \<Rightarrow> network_loop u props c | _ \<Rightarrow> c)))"

definition filepath_impl :: "ucd \<Rightarrow> ctx \<Rightarrow> ctx" where
  "filepath_impl u c =
    (case InputSchema (ctxTool c) of
       None \<Rightarrow> c
     | Some schema \<Rightarrow>
         (case map_of schema ''properties'' of
            None \<Rightarrow> c
          | Some propsAny \<Rightarrow> (case propsAny of JObj props \<Rightarrow> filepath_loop u props c | _ \<Rightarrow> c)))"

definition network_rule :: "ucd \<Rightarrow> rule" where
  "network_rule u =
    \<lparr>ID = ''network-tool-no-allowlist'', Category = CatSafety, Severity = SevWarning,
     ruleDescription = ''Tools that accept a user-supplied URL must constrain the destination via an enum, pattern, or const so an agent cannot drive arbitrary outbound requests (SSRF).'',
     Fix = FixNone, Implementation = Some (network_impl u), ProjectImplementation = None,
     ComparisonImplementation = None\<rparr>"

definition filepath_rule :: "ucd \<Rightarrow> rule" where
  "filepath_rule u =
    \<lparr>ID = ''file-tool-no-path-confinement'', Category = CatSafety, Severity = SevWarning,
     ruleDescription = ''Tools that accept a filesystem path must constrain it via an enum, pattern, or const so an agent cannot read or write arbitrary files (path traversal).'',
     Fix = FixNone, Implementation = Some (filepath_impl u), ProjectImplementation = None,
     ComparisonImplementation = None\<rparr>"

text \<open>Both rules scan the properties the same way for different names. \<open>open_property\<close>: a
  property of a matching name whose schema is an object without a value constraint.\<close>

definition open_property :: "(string \<Rightarrow> bool) \<Rightarrow> string \<times> json \<Rightarrow> bool" where
  "open_property named kv \<longleftrightarrow> named (fst kv) \<and>
    (case snd kv of JObj prop \<Rightarrow> \<not> hasStringValueConstraint prop | _ \<Rightarrow> False)"

definition open_property_messages :: "(string \<Rightarrow> bool) \<Rightarrow> (string \<Rightarrow> string) \<Rightarrow> tool \<Rightarrow> string list" where
  "open_property_messages named msg t =
    (case schema_properties t of
       None \<Rightarrow> []
     | Some props \<Rightarrow> (case filter (open_property named) props of [] \<Rightarrow> [] | kv # _ \<Rightarrow> [msg (fst kv)]))"

text \<open>The specification: the names of the open properties, written out.\<close>

definition open_keys :: "(string \<Rightarrow> bool) \<Rightarrow> tool \<Rightarrow> string set" where
  "open_keys named t = {key. \<exists>props prop. schema_properties t = Some props \<and> (key, JObj prop) \<in> set props \<and>
     named key \<and> \<not> has_key prop ''enum'' \<and> \<not> has_key prop ''pattern'' \<and> \<not> has_key prop ''const''}"

lemma open_property_iff:
  "open_property named kv \<longleftrightarrow>
    (\<exists>prop. kv = (fst kv, JObj prop) \<and> named (fst kv) \<and>
      \<not> has_key prop ''enum'' \<and> \<not> has_key prop ''pattern'' \<and> \<not> has_key prop ''const'')"
  by (cases kv; cases "snd kv") (auto simp: open_property_def hasStringValueConstraint_def)

lemma open_keys_mem:
  "key \<in> open_keys named t \<longleftrightarrow>
    (\<exists>props kv. schema_properties t = Some props \<and> kv \<in> set props \<and> open_property named kv \<and> fst kv = key)"
proof
  assume "key \<in> open_keys named t"
  then obtain props ps where "schema_properties t = Some props" "(key, JObj ps) \<in> set props"
    "open_property named (key, JObj ps)"
    by (auto simp: open_keys_def open_property_iff)
  then show "\<exists>props kv. schema_properties t = Some props \<and> kv \<in> set props \<and> open_property named kv \<and> fst kv = key"
    by (intro exI [of _ props] exI [of _ "(key, JObj ps)"]) simp
next
  assume "\<exists>props kv. schema_properties t = Some props \<and> kv \<in> set props \<and> open_property named kv \<and> fst kv = key"
  then obtain props kv where kv: "schema_properties t = Some props" "kv \<in> set props" "open_property named kv" "fst kv = key"
    by blast
  from kv(3) obtain ps where "kv = (fst kv, JObj ps)" "named (fst kv)" "\<not> has_key ps ''enum''"
    "\<not> has_key ps ''pattern''" "\<not> has_key ps ''const''"
    unfolding open_property_iff by blast
  with kv show "key \<in> open_keys named t"
    unfolding open_keys_def by (intro CollectI exI [of _ props] exI [of _ ps]) auto
qed

text \<open>The contract of such a scan: a loop that reports the first open property, wrapped by the
  early returns on a missing schema or a malformed \<^verbatim>\<open>properties\<close>.\<close>

locale property_scan =
  fixes named :: "string \<Rightarrow> bool"
    and msg :: "string \<Rightarrow> string"
    and loop :: "jmap \<Rightarrow> ctx \<Rightarrow> ctx"
    and impl :: "ctx \<Rightarrow> ctx"
  assumes loop_Nil: "loop [] c = c"
    and loop_Cons: "loop (kv # rest) c = (if open_property named kv then Report (msg (fst kv)) c else loop rest c)"
    and impl_loop: "impl c = (case schema_properties (ctxTool c) of None \<Rightarrow> c | Some props \<Rightarrow> loop props c)"
begin

lemma loop_first:
  "loop props c = (case filter (open_property named) props of [] \<Rightarrow> c | kv # _ \<Rightarrow> Report (msg (fst kv)) c)"
  by (induction props) (auto simp: loop_Nil loop_Cons)

lemma scan_reports: "impl c = fold Report (open_property_messages named msg (ctxTool c)) c"
  by (auto simp: impl_loop loop_first open_property_messages_def split: option.splits list.splits)

end

sublocale property_scan \<subseteq> per_tool_rule impl "open_property_messages named msg"
  by unfold_locales (rule scan_reports)

context property_scan
begin

text \<open>Whether the rule fires does not depend on the order in which the map is visited; it then
  reports once, about an open property.\<close>

lemma scan_fires_iff:
  "open_property_messages named msg t \<noteq> [] \<longleftrightarrow>
    (\<exists>props kv. schema_properties t = Some props \<and> kv \<in> set props \<and> open_property named kv)"
proof (cases "schema_properties t")
  case (Some props)
  show ?thesis
  proof (cases "filter (open_property named) props")
    case Nil
    with Some show ?thesis
      by (simp add: open_property_messages_def filter_empty_conv del: split_paired_Ex)
  next
    case (Cons kv l)
    then have "kv \<in> set props \<and> open_property named kv"
      by (rule first_of_filter)
    with Some Cons show ?thesis
      by (simp add: open_property_messages_def del: split_paired_Ex) blast
  qed
qed (simp add: open_property_messages_def)

lemma scan_at_most_one:
  "open_property_messages named msg t = [] \<or>
    (\<exists>props kv. schema_properties t = Some props \<and> kv \<in> set props \<and> open_property named kv \<and>
       open_property_messages named msg t = [msg (fst kv)])"
proof (cases "schema_properties t")
  case (Some props)
  show ?thesis
  proof (cases "filter (open_property named) props")
    case Nil
    with Some show ?thesis by (simp add: open_property_messages_def)
  next
    case (Cons kv l)
    then have "kv \<in> set props \<and> open_property named kv"
      by (rule first_of_filter)
    with Some Cons show ?thesis
      by (simp add: open_property_messages_def del: split_paired_Ex) blast
  qed
qed (simp add: open_property_messages_def)

lemma scan_exact:
  "if open_keys named t = {} then open_property_messages named msg t = []
   else (\<exists>key\<in>open_keys named t. open_property_messages named msg t = [msg key])"
proof (cases "open_property_messages named msg t = []")
  case True
  then have "open_keys named t = {}"
    using scan_fires_iff [of t] open_keys_mem [of _ named t] by blast
  with True show ?thesis by simp
next
  case False
  then obtain props kv where kv: "schema_properties t = Some props" "kv \<in> set props" "open_property named kv"
    "open_property_messages named msg t = [msg (fst kv)]"
    using scan_at_most_one [of t] by blast
  then have "fst kv \<in> open_keys named t" unfolding open_keys_mem by blast
  with kv(4) show ?thesis by auto
qed

end

interpretation network: property_scan "isURLPropertyName u" network_message "network_loop u" "network_impl u"
  for u
proof (unfold_locales, goal_cases)
  case (2 kv rest c)
  then show ?case by (cases kv) (auto simp: open_property_def split: json.splits)
next
  case (3 c)
  then show ?case
    by (auto simp: network_impl_def schema_properties_def get_obj_def split: option.splits json.splits)
qed simp

interpretation pathscan: property_scan "isPathPropertyName u" filepath_message "filepath_loop u" "filepath_impl u"
  for u
proof (unfold_locales, goal_cases)
  case (2 kv rest c)
  then show ?case by (cases kv) (auto simp: open_property_def split: json.splits)
next
  case (3 c)
  then show ?case
    by (auto simp: filepath_impl_def schema_properties_def get_obj_def split: option.splits json.splits)
qed simp

section \<open>destructive-tool-not-gated\<close>

definition destructivePrefixes :: "string list" where
  "destructivePrefixes = [''delete'', ''remove'', ''drop'', ''purge'', ''destroy'', ''clear'', ''reset'',
     ''send'', ''post'', ''publish'', ''transfer'', ''pay'', ''charge'', ''submit'', ''merge'', ''deploy'',
     ''close'', ''archive'', ''revoke'']"

definition confirmationFieldNames :: "string list" where
  "confirmationFieldNames = [''confirm'', ''confirmed'', ''confirmation'', ''requires_confirmation'',
     ''requiresconfirmation'', ''acknowledged'', ''acknowledge'', ''i_understand'', ''iunderstand'',
     ''force'', ''dry_run'', ''dryrun'']"

fun destructive_loop :: "string \<Rightarrow> string list \<Rightarrow> string" where
  "destructive_loop lower [] = ''''"
| "destructive_loop lower (p # ps) =
    (if lower = p \<or> strings_HasPrefix lower (p @ ''_'') then p else destructive_loop lower ps)"

definition destructivePrefix :: "ucd \<Rightarrow> string \<Rightarrow> string" where
  "destructivePrefix u name =
    (if name = '''' then '''' else destructive_loop (strings_ToLower u name) destructivePrefixes)"

definition isConfirmationName :: "ucd \<Rightarrow> string \<Rightarrow> bool" where
  "isConfirmationName u key =
    (let normalized = strings_ToLower u key in
     if normalized \<in> set confirmationFieldNames then True
     else (let stripped = strings_RemoveAll (CHR ''_'') normalized;
               stripped = strings_RemoveAll (CHR ''-'') stripped
           in stripped \<in> set confirmationFieldNames))"

definition hasConfirmationField :: "ucd \<Rightarrow> jmap option \<Rightarrow> bool" where
  "hasConfirmationField u schema =
    (case schema of
       None \<Rightarrow> False
     | Some schema \<Rightarrow>
         (case map_of schema ''properties'' of
            None \<Rightarrow> False
          | Some propsAny \<Rightarrow>
              (case propsAny of JObj props \<Rightarrow> list_ex (\<lambda>(key, _). isConfirmationName u key) props | _ \<Rightarrow> False)))"

definition destructive_message :: "string \<Rightarrow> string" where
  "destructive_message p =
    ''tool name starts with destructive prefix '' @ [CHR 0x22] @ p @ [CHR 0x22] @
    '' but schema has no confirmation field '' @
    ''(expected one of: confirm, confirmed, requires_confirmation, acknowledged, dry_run, force)''"

definition destructive_impl :: "ucd \<Rightarrow> ctx \<Rightarrow> ctx" where
  "destructive_impl u c =
    (let p = destructivePrefix u (Name (ctxTool c)) in
     if p = '''' then c
     else if hasConfirmationField u (InputSchema (ctxTool c)) then c
     else Report (destructive_message p) c)"

definition destructive_rule :: "ucd \<Rightarrow> rule" where
  "destructive_rule u =
    \<lparr>ID = ''destructive-tool-not-gated'', Category = CatSafety, Severity = SevError,
     ruleDescription = ''Tools whose name implies a destructive or externally-visible action must require explicit confirmation through the schema.'',
     Fix = FixNone, Implementation = Some (destructive_impl u), ProjectImplementation = None,
     ComparisonImplementation = None\<rparr>"

definition destructive_messages :: "ucd \<Rightarrow> tool \<Rightarrow> string list" where
  "destructive_messages u t =
    (if destructivePrefix u (Name t) = '''' \<or> hasConfirmationField u (InputSchema t) then []
     else [destructive_message (destructivePrefix u (Name t))])"

interpretation destructive: per_tool_rule "destructive_impl u" "destructive_messages u" for u
  by unfold_locales (simp add: destructive_impl_def destructive_messages_def Let_def)

lemma destructive_loop_empty:
  "list_all (\<lambda>p. p \<noteq> []) ps \<Longrightarrow>
    destructive_loop lower ps = [] \<longleftrightarrow> (\<forall>p\<in>set ps. lower \<noteq> p \<and> \<not> prefix (p @ ''_'') lower)"
  by (induction ps) auto

lemma destructivePrefix_empty_iff:
  "destructivePrefix u name = [] \<longleftrightarrow>
    name = [] \<or> (\<forall>p\<in>set destructivePrefixes. strings_ToLower u name \<noteq> p \<and> \<not> prefix (p @ ''_'') (strings_ToLower u name))"
proof -
  have "list_all (\<lambda>p. p \<noteq> []) destructivePrefixes"
    by (simp add: destructivePrefixes_def)
  then show ?thesis
    by (simp add: destructivePrefix_def destructive_loop_empty)
qed

lemma hasConfirmationField_iff:
  "hasConfirmationField u (InputSchema t) \<longleftrightarrow>
    (\<exists>props key val. schema_properties t = Some props \<and> (key, val) \<in> set props \<and> isConfirmationName u key)"
  by (auto simp: hasConfirmationField_def schema_properties_def get_obj_def list_ex_iff
      split: option.splits json.splits)


section \<open>tool-schema-required-references-undefined-property\<close>

text \<open>The comma-ok string assertion of the loop body; other entries are skipped.\<close>

fun string_entries :: "json list \<Rightarrow> string list" where
  "string_entries [] = []"
| "string_entries (JStr s # vs) = s # string_entries vs"
| "string_entries (_ # vs) = string_entries vs"

definition extractRequired :: "jmap \<Rightarrow> string list" where
  "extractRequired schema =
    (case map_of schema ''required'' of
       None \<Rightarrow> []
     | Some raw \<Rightarrow> (case raw of JArr arr \<Rightarrow> string_entries arr | _ \<Rightarrow> []))"

definition propertyNames :: "jmap \<Rightarrow> string list" where
  "propertyNames schema = (case get_obj schema ''properties'' of None \<Rightarrow> [] | Some props \<Rightarrow> map fst props)"

definition required_message :: "string list \<Rightarrow> string" where
  "required_message missing =
    ''inputSchema.required references property name(s) not in properties: '' @
    ''['' @ strings_Join missing '' '' @ '']''"

definition required_impl :: "ctx \<Rightarrow> ctx" where
  "required_impl c =
    (case InputSchema (ctxTool c) of
       None \<Rightarrow> c
     | Some schema \<Rightarrow>
         (let required = extractRequired schema in
          if length required = 0 then c
          else
            (let properties = propertyNames schema;
                 missing = filter (\<lambda>name. name \<notin> set properties) required in
             if length missing = 0 then c else Report (required_message (sort missing)) c)))"

definition required_rule :: rule where
  "required_rule =
    \<lparr>ID = ''tool-schema-required-references-undefined-property'', Category = CatSpec, Severity = SevError,
     ruleDescription = ''Every name in inputSchema.required must exist in inputSchema.properties; otherwise the schema is internally inconsistent.'',
     Fix = FixNone, Implementation = Some required_impl, ProjectImplementation = None,
     ComparisonImplementation = None\<rparr>"

text \<open>The required names that no property declares, sorted.\<close>

definition undefined_required :: "tool \<Rightarrow> string list" where
  "undefined_required t =
    (case InputSchema t of
       None \<Rightarrow> []
     | Some schema \<Rightarrow> sort (filter (\<lambda>name. name \<notin> set (propertyNames schema)) (extractRequired schema)))"

definition required_messages :: "tool \<Rightarrow> string list" where
  "required_messages t = (if undefined_required t = [] then [] else [required_message (undefined_required t)])"

interpretation required: per_tool_rule required_impl required_messages
  by unfold_locales
    (auto simp: required_impl_def required_messages_def undefined_required_def Let_def sort_empty_iff
      split: option.splits)

lemma string_entries_mem: "s \<in> set (string_entries vs) \<longleftrightarrow> JStr s \<in> set vs"
  by (induction vs rule: string_entries.induct) auto

lemma undefined_required_mem:
  "s \<in> set (undefined_required t) \<longleftrightarrow>
    (\<exists>schema arr. InputSchema t = Some schema \<and> get_arr schema ''required'' = Some arr \<and> JStr s \<in> set arr \<and>
       (\<forall>props. get_obj schema ''properties'' = Some props \<longrightarrow> s \<notin> fst ` set props))"
proof (cases "InputSchema t")
  case (Some schema)
  have "s \<in> set (extractRequired schema) \<longleftrightarrow> (\<exists>arr. get_arr schema ''required'' = Some arr \<and> JStr s \<in> set arr)"
    by (auto simp: extractRequired_def get_arr_def string_entries_mem split: option.splits json.splits)
  with Some show ?thesis
    by (cases "get_obj schema ''properties''") (simp_all add: undefined_required_def propertyNames_def, blast)
qed (simp add: undefined_required_def)

section \<open>tool-description-empty-or-truncated\<close>

definition minDescriptionLen :: nat where
  "minDescriptionLen = 4"

text \<open>U+2026, the horizontal ellipsis.\<close>

definition ellipsis :: string where
  "ellipsis = [CHR 0xE2, CHR 0x80, CHR 0xA6]"

definition endsTruncated :: "string \<Rightarrow> bool" where
  "endsTruncated s =
    (if strings_HasSuffix s ''...'' then True else if strings_HasSuffix s ellipsis then True else False)"

definition description_impl :: "ctx \<Rightarrow> ctx" where
  "description_impl c =
    (let desc = Description (ctxTool c); trimmed = strings_TrimSpace desc in
     if trimmed = '''' then Report ''tool description is empty'' c
     else if length trimmed < minDescriptionLen
       then Report ''tool description is too short to be informative'' c
     else if endsTruncated trimmed then Report ''tool description appears to be truncated'' c
     else c)"

definition description_rule :: rule where
  "description_rule =
    \<lparr>ID = ''tool-description-empty-or-truncated'', Category = CatSpec, Severity = SevWarning,
     ruleDescription = ''Tool descriptions must be non-empty and not visibly truncated; agents rely on them to choose tools.'',
     Fix = FixNone, Implementation = Some description_impl, ProjectImplementation = None,
     ComparisonImplementation = None\<rparr>"

definition description_messages :: "tool \<Rightarrow> string list" where
  "description_messages t =
    (let d = strings_TrimSpace (Description t) in
     if d = [] then [''tool description is empty'']
     else if length d < 4 then [''tool description is too short to be informative'']
     else if suffix ''...'' d \<or> suffix ellipsis d then [''tool description appears to be truncated'']
     else [])"

interpretation description: per_tool_rule description_impl description_messages
  by unfold_locales
    (auto simp: description_impl_def description_messages_def minDescriptionLen_def endsTruncated_def Let_def)

section \<open>tool-example-fails-schema\<close>

text \<open>The schema library, not part of the program: its error values, adding a resource to a
  compiler, compiling and validating. A \<^verbatim>\<open>ValidationError\<close> is a tree of causes; other errors
  have only their text.\<close>

datatype validation_error = ValidationError (veError: string) (Causes: "validation_error list")

datatype schema_error = SchemaValidation validation_error | SchemaOther string

record 's schema_lib =
  AddResource :: "string \<Rightarrow> json \<Rightarrow> string option"
  Compile :: "string \<Rightarrow> json \<Rightarrow> 's result"
  Validate :: "'s \<Rightarrow> json \<Rightarrow> schema_error option"

definition extractExamples :: "jmap option \<Rightarrow> json list" where
  "extractExamples schema =
    (case schema of
       None \<Rightarrow> []
     | Some schema \<Rightarrow>
         (case map_of schema ''examples'' of
            None \<Rightarrow> []
          | Some raw \<Rightarrow> (case raw of JArr arr \<Rightarrow> arr | _ \<Rightarrow> [])))"

text \<open>The round trip through \<^verbatim>\<open>encoding/json\<close> gives a decoded value back: a decoded value
  marshals without error (its strings are valid UTF-8, its numbers finite, its keys distinct) and
  parses to itself; a nil map becomes \<^verbatim>\<open>null\<close>.\<close>

definition schema_doc :: "jmap option \<Rightarrow> json" where
  "schema_doc schema = (case schema of None \<Rightarrow> JNull | Some m \<Rightarrow> JObj m)"

definition compileSchema :: "'s schema_lib \<Rightarrow> jmap option \<Rightarrow> 's result" where
  "compileSchema lib schema =
    (let doc = schema_doc schema; url = ''mem://tool/inputSchema'' in
     case AddResource lib url doc of
       Some e \<Rightarrow> Inl (''add schema: '' @ e)
     | None \<Rightarrow> (case Compile lib url doc of Inl e \<Rightarrow> Inl (''compile schema: '' @ e) | Inr s \<Rightarrow> Inr s))"

fun deepestCause :: "validation_error \<Rightarrow> validation_error" where
  "deepestCause (ValidationError e []) = ValidationError e []"
| "deepestCause (ValidationError e (v # vs)) = deepestCause v"

fun first_line_loop :: "string \<Rightarrow> (nat \<times> nat) list \<Rightarrow> string" where
  "first_line_loop msg [] = msg"
| "first_line_loop msg ((i, r) # rest) = (if r = 10 then take i msg else first_line_loop msg rest)"

definition summarizeValidationError :: "schema_error \<Rightarrow> string" where
  "summarizeValidationError err =
    (case err of
       SchemaValidation ve \<Rightarrow> veError (deepestCause ve)
     | SchemaOther msg \<Rightarrow> first_line_loop msg (range_string msg))"

definition example_message :: "nat \<Rightarrow> schema_error \<Rightarrow> string" where
  "example_message i err =
    ''inputSchema.examples['' @ nat_dec i @ ''] does not validate against the schema: '' @
    summarizeValidationError err"

fun examples_loop :: "'s schema_lib \<Rightarrow> 's \<Rightarrow> nat \<Rightarrow> json list \<Rightarrow> ctx \<Rightarrow> ctx" where
  "examples_loop lib compiled i [] c = c"
| "examples_loop lib compiled i (ex # rest) c =
    (case Validate lib compiled ex of
       Some err \<Rightarrow> examples_loop lib compiled (i + 1) rest (Report (example_message i err) c)
     | None \<Rightarrow> examples_loop lib compiled (i + 1) rest c)"

definition examples_impl :: "'s schema_lib \<Rightarrow> ctx \<Rightarrow> ctx" where
  "examples_impl lib c =
    (let examples = extractExamples (InputSchema (ctxTool c)) in
     if length examples = 0 then c
     else case compileSchema lib (InputSchema (ctxTool c)) of
       Inl _ \<Rightarrow> c
     | Inr compiled \<Rightarrow> examples_loop lib compiled 0 examples c)"

definition examples_rule :: "'s schema_lib \<Rightarrow> rule" where
  "examples_rule lib =
    \<lparr>ID = ''tool-example-fails-schema'', Category = CatExamples, Severity = SevWarning,
     ruleDescription = ''Examples declared on a tool's inputSchema must validate against that schema; stale examples mislead agents and reviewers.'',
     Fix = FixNone, Implementation = Some (examples_impl lib), ProjectImplementation = None,
     ComparisonImplementation = None\<rparr>"

text \<open>The message at index \<open>i\<close> of the examples, when that example is invalid.\<close>

definition example_messages :: "'s schema_lib \<Rightarrow> tool \<Rightarrow> string list" where
  "example_messages lib t =
    (case compileSchema lib (InputSchema t) of
       Inl _ \<Rightarrow> []
     | Inr s \<Rightarrow> List.map_filter (\<lambda>(i, ex). map_option (example_message i) (Validate lib s ex))
         (enumerate 0 (extractExamples (InputSchema t))))"

lemma examples_loop_reports:
  "examples_loop lib s i exs c =
    fold Report (List.map_filter (\<lambda>(i, ex). map_option (example_message i) (Validate lib s ex)) (enumerate i exs)) c"
  by (induction exs arbitrary: i c) (auto simp: map_filter_simps split: option.splits)

interpretation examples: per_tool_rule "examples_impl lib" "example_messages lib" for lib
  by unfold_locales
    (auto simp: examples_impl_def example_messages_def examples_loop_reports Let_def map_filter_simps
      split: sum.splits)

lemma map_filter_enumerate:
  "List.map_filter (\<lambda>(i, x). map_option (f i) (g x)) (enumerate 0 xs) =
    map (\<lambda>i. f i (the (g (xs ! i)))) (filter (\<lambda>i. g (xs ! i) \<noteq> None) [0..<length xs])"
proof (induction xs rule: rev_induct)
  case (snoc x xs)
  have "filter (\<lambda>i. g ((xs @ [x]) ! i) \<noteq> None) [0..<length xs] = filter (\<lambda>i. g (xs ! i) \<noteq> None) [0..<length xs]"
    by (rule filter_cong) (auto simp: nth_append)
  moreover have "map (\<lambda>i. f i (the (g ((xs @ [x]) ! i)))) (filter Q [0..<length xs]) =
      map (\<lambda>i. f i (the (g (xs ! i)))) (filter Q [0..<length xs])" for Q
    by (rule map_cong) (auto simp: nth_append)
  ultimately show ?case using snoc
    by (cases "g x") (simp_all add: enumerate_append_eq List.map_filter_def)
qed (simp add: map_filter_simps)

text \<open>A string is cut at the first newline byte: the runes of the loop see exactly those bytes.\<close>

lemma byte_newline: "byte (CHR 0x0A) = 10"
  by simp

lemma first_line_loop_runes:
  "first_line_loop (pre @ s) (range_from (length pre) (runes s)) = pre @ takeWhile (\<lambda>ch. ch \<noteq> CHR 0x0A) s"
proof (induction s arbitrary: pre rule: runes.induct)
  case (2 c cs)
  obtain r w where d: "decodeRune (c # cs) = (r, w)" by fastforce
  from d show ?case
  proof (cases rule: decodeRune_cases)
    case ascii
    have "c = CHR 0x0A \<longleftrightarrow> byte c = 10"
      by (metis byte_newline char_of_char)
    with ascii d 2 [OF d [symmetric], of "pre @ [c]"] show ?thesis
      by (cases "byte c = 10") (auto simp: runes.simps(2))
  next
    case multi
    have high: "takeWhile (\<lambda>ch. ch \<noteq> CHR 0x0A) (c # cs) =
        take w (c # cs) @ takeWhile (\<lambda>ch. ch \<noteq> CHR 0x0A) (drop w (c # cs))"
    proof -
      have "ch \<noteq> CHR 0x0A" if "ch \<in> set (take w (c # cs))" for ch
        using decodeRune_high [OF d multi(1)] that by fastforce
      then show ?thesis
        using takeWhile_append2 [of "take w (c # cs)" "\<lambda>ch. ch \<noteq> CHR 0x0A" "drop w (c # cs)"]
        unfolding append_take_drop_id by blast
    qed
    with d multi 2 [OF d [symmetric], of "pre @ take w (c # cs)"] show ?thesis
      by (simp add: runes.simps(2))
  qed
qed simp


section \<open>Properties\<close>

text \<open>network-tool-no-allowlist. If the tool's schema has a property whose name, lower-cased and
  without underscores and hyphens, is a URL name and whose value is an object with none of enum,
  pattern and const, the rule reports exactly one finding, about such a property; otherwise it
  reports nothing. This holds for every iteration order of the properties map.\<close>

theorem network_rule_exact:
  "if open_keys (isURLPropertyName u) t = {} then Run [network_rule u] t = []
   else (\<exists>key\<in>open_keys (isURLPropertyName u) t.
     Run [network_rule u] t = [tool_finding (rule_info.truncate (network_rule u)) t (network_message key)])"
proof -
  have "Run [network_rule u] t = map (tool_finding (rule_info.truncate (network_rule u)) t)
      (open_property_messages (isURLPropertyName u) network_message t)"
    by (rule Run_single [OF _ network.per_tool_rule_axioms]) (simp add: network_rule_def)
  with network.scan_exact [of u t] show ?thesis by (fastforce simp del: Run.simps split: if_splits)
qed

text \<open>file-tool-no-path-confinement. The same for filesystem paths.\<close>

theorem filepath_rule_exact:
  "if open_keys (isPathPropertyName u) t = {} then Run [filepath_rule u] t = []
   else (\<exists>key\<in>open_keys (isPathPropertyName u) t.
     Run [filepath_rule u] t = [tool_finding (rule_info.truncate (filepath_rule u)) t (filepath_message key)])"
proof -
  have "Run [filepath_rule u] t = map (tool_finding (rule_info.truncate (filepath_rule u)) t)
      (open_property_messages (isPathPropertyName u) filepath_message t)"
    by (rule Run_single [OF _ pathscan.per_tool_rule_axioms]) (simp add: filepath_rule_def)
  with pathscan.scan_exact [of u t] show ?thesis by (fastforce simp del: Run.simps split: if_splits)
qed

text \<open>(C4) destructive-tool-not-gated. The rule fires exactly on the tools whose lower-cased name is a
  destructive verb or starts with one followed by an underscore, and whose schema declares no
  property with a confirmation name; it reports at most once.\<close>

theorem destructive_rule_exact:
  "length (Run [destructive_rule u] t) =
    (if (\<exists>p. p \<in> set destructivePrefixes \<and>
           (strings_ToLower u (Name t) = p \<or> prefix (p @ ''_'') (strings_ToLower u (Name t)))) \<and>
        (\<nexists>props key val. schema_properties t = Some props \<and> (key, val) \<in> set props \<and> isConfirmationName u key)
     then 1 else 0)"
proof -
  have run: "Run [destructive_rule u] t = map (tool_finding (rule_info.truncate (destructive_rule u)) t)
      (destructive_messages u t)"
    by (rule Run_single [OF _ destructive.per_tool_rule_axioms]) (simp add: destructive_rule_def)
  have "strings_ToLower u [] = []" by (simp add: strings_ToLower_def)
  moreover have "[] \<notin> set destructivePrefixes" by (simp add: destructivePrefixes_def)
  ultimately have "destructivePrefix u (Name t) = [] \<longleftrightarrow>
      \<not> (\<exists>p. p \<in> set destructivePrefixes \<and>
           (strings_ToLower u (Name t) = p \<or> prefix (p @ ''_'') (strings_ToLower u (Name t))))"
    unfolding destructivePrefix_empty_iff by (metis append_is_Nil_conv list.distinct(1) prefix_bot.extremum_uniqueI)
  then show ?thesis
    unfolding run by (auto simp: destructive_messages_def hasConfirmationField_iff)
qed

text \<open>(C5) tool-schema-required-references-undefined-property. The rule is silent exactly when every string
  in the schema's required array is declared in its properties map (entries that are no strings are
  skipped; a missing or malformed required array demands nothing; a missing properties map declares
  nothing); otherwise it reports one finding that lists, sorted, exactly the undeclared names.\<close>

theorem required_rule_exact:
  "\<exists>missing. sorted missing \<and>
     set missing = {name. \<exists>schema arr. InputSchema t = Some schema \<and> get_arr schema ''required'' = Some arr \<and>
       JStr name \<in> set arr \<and> name \<notin> (case get_obj schema ''properties'' of None \<Rightarrow> {} | Some props \<Rightarrow> fst ` set props)} \<and>
     Run [required_rule] t =
       (if missing = [] then []
        else [tool_finding (rule_info.truncate required_rule) t (required_message missing)])"
proof (intro exI conjI)
  show "sorted (undefined_required t)"
    by (simp add: undefined_required_def split: option.split)
  show "set (undefined_required t) = {name. \<exists>schema arr. InputSchema t = Some schema \<and>
      get_arr schema ''required'' = Some arr \<and> JStr name \<in> set arr \<and>
      name \<notin> (case get_obj schema ''properties'' of None \<Rightarrow> {} | Some props \<Rightarrow> fst ` set props)}"
  proof -
    have "name \<notin> (case m of None \<Rightarrow> {} | Some props \<Rightarrow> fst ` set props) \<longleftrightarrow>
        (\<forall>props. m = Some props \<longrightarrow> name \<notin> fst ` set props)" for name and m :: "jmap option"
      by (simp split: option.split)
    then show ?thesis by (intro set_eqI) (simp add: undefined_required_mem)
  qed
  have "Run [required_rule] t = map (tool_finding (rule_info.truncate required_rule) t) (required_messages t)"
    by (rule Run_single [OF _ required.per_tool_rule_axioms]) (simp add: required_rule_def)
  then show "Run [required_rule] t = (if undefined_required t = [] then []
      else [tool_finding (rule_info.truncate required_rule) t (required_message (undefined_required t))])"
    by (simp add: required_messages_def)
qed

text \<open>tool-example-fails-schema. Whatever the schema library answers, the findings are, in order, one
  for every example that the compiled schema refuses, with the example's own index; there are none
  when the schema does not compile.\<close>

theorem examples_rule_exact:
  "map Message (Run [examples_rule lib] t) =
    (case compileSchema lib (InputSchema t) of
       Inl e \<Rightarrow> []
     | Inr s \<Rightarrow>
         map (\<lambda>i. example_message i (the (Validate lib s (extractExamples (InputSchema t) ! i))))
           (filter (\<lambda>i. Validate lib s (extractExamples (InputSchema t) ! i) \<noteq> None)
             [0..<length (extractExamples (InputSchema t))]))"
proof -
  have "Run [examples_rule lib] t = map (tool_finding (rule_info.truncate (examples_rule lib)) t) (example_messages lib t)"
    by (rule Run_single [OF _ examples.per_tool_rule_axioms]) (simp add: examples_rule_def)
  then have "map Message (Run [examples_rule lib] t) = example_messages lib t"
    by (simp add: tool_finding_def o_def)
  then show ?thesis
    by (simp add: example_messages_def map_filter_enumerate split: sum.split)
qed

text \<open>The summary of a validation error is one line: the text of the first leaf of a
  validation error's cause tree, or, for any other error, its text up to the first newline.\<close>

theorem summarize_exact:
  "summarizeValidationError err =
    (case err of
       SchemaOther msg \<Rightarrow> takeWhile (\<lambda>c. c \<noteq> CHR 0x0A) msg
     | SchemaValidation ve \<Rightarrow> veError (deepestCause ve)) \<and>
   Causes (deepestCause ve') = []"
proof -
  have "Causes (deepestCause ve') = []" by (induction ve' rule: deepestCause.induct) auto
  then show ?thesis
    using first_line_loop_runes [of "[]"]
    by (simp add: summarizeValidationError_def range_string_def split: schema_error.split)
qed

end
