(* ===== verification/Rules_Text.thy ===== *)
theory Rules_Text
  imports Go_Regexp Rules_Schema
begin

text \<open>
  The rules that search text with regular expressions: \<^verbatim>\<open>secrets.go\<close> on the description and
  \<^verbatim>\<open>pii.go\<close> on the schema's examples. The patterns are terms of the engine of
  \<^verbatim>\<open>Go_Regexp\<close>; the specifications are stated on texts and word boundaries, not on patterns.
\<close>

section \<open>tool-description-mentions-secret\<close>

text \<open>The class \<^verbatim>\<open>[_-]?\<close> between two words.\<close>

definition opt_sep :: rx where
  "opt_sep = ROpt (RClass [(CHR ''_'', CHR ''_''), (CHR ''-'', CHR ''-'')])"

definition secret_alternatives :: "rx list" where
  "secret_alternatives =
    [RFolds ''password'',
     RFolds ''passphrase'',
     RSeqs [RFolds ''api'', opt_sep, RFolds ''key''],
     RSeqs [RFolds ''access'', opt_sep, RFolds ''token''],
     RSeqs [RFolds ''refresh'', opt_sep, RFolds ''token''],
     RSeqs [RFolds ''private'', opt_sep, RFolds ''key''],
     RSeqs [RFolds ''client'', opt_sep, RFolds ''secret''],
     RFolds ''bearer'',
     RFolds ''secret'',
     RFolds ''token'']"

definition secretMentionRe :: rx where
  "secretMentionRe = RSeqs [RWordB, RAlts secret_alternatives, RWordB]"

definition findSecretMention :: "ucd \<Rightarrow> string \<Rightarrow> string" where
  "findSecretMention u s =
    (case rx_search secretMentionRe [] s of
       None \<Rightarrow> ''''
     | Some m \<Rightarrow> strings_ToLower u (match_text m))"

definition secret_message :: "string \<Rightarrow> string" where
  "secret_message match =
    ''description mentions secret-shaped term '' @ [CHR 0x22] @ match @ [CHR 0x22] @
    ''; verify that the tool does not accept or return credentials in plaintext''"

definition secrets_impl :: "ucd \<Rightarrow> ctx \<Rightarrow> ctx" where
  "secrets_impl u c =
    (let match = findSecretMention u (Description (ctxTool c)) in
     if match = '''' then c else Report (secret_message match) c)"

definition secrets_rule :: "ucd \<Rightarrow> rule" where
  "secrets_rule u =
    \<lparr>ID = ''tool-description-mentions-secret'', Category = CatSafety, Severity = SevWarning,
     ruleDescription = ''Tool descriptions that mention credential-shaped terms may be exposing secrets through arguments or results; flag for review.'',
     Fix = FixNone, Implementation = Some (secrets_impl u), ProjectImplementation = None,
     ComparisonImplementation = None\<rparr>"

definition secret_messages :: "ucd \<Rightarrow> tool \<Rightarrow> string list" where
  "secret_messages u t =
    (if findSecretMention u (Description t) = '''' then []
     else [secret_message (findSecretMention u (Description t))])"

interpretation secrets: per_tool_rule "secrets_impl u" "secret_messages u" for u
  by unfold_locales (simp add: secrets_impl_def secret_messages_def Let_def)

subsection \<open>What a mention is\<close>

text \<open>The terms, spelled out; and a mention in an ASCII text: a term in any case between two word
  boundaries.\<close>

definition pair_terms :: "string \<times> string \<Rightarrow> string set" where
  "pair_terms = (\<lambda>(a, b). {a @ b, a @ ''_'' @ b, a @ ''-'' @ b})"

definition secret_terms :: "string set" where
  "secret_terms =
    {''password'', ''passphrase'', ''bearer'', ''secret'', ''token''} \<union>
    (\<Union>ab\<in>{(''api'', ''key''), (''access'', ''token''), (''refresh'', ''token''), (''private'', ''key''),
       (''client'', ''secret'')}. pair_terms ab)"

definition mentions :: "string set \<Rightarrow> string \<Rightarrow> bool" where
  "mentions terms s \<longleftrightarrow>
    (\<exists>before w after. s = before @ w @ after \<and> map lower_byte w \<in> terms \<and>
       boundary (rev before) (w @ after) \<and> boundary (rev w @ rev before) after)"

lemma RFold_plain [simp]: "rx_plain (RFold c)"
  by (simp add: RFold_def Let_def)

text \<open>The ASCII texts of a pattern are those whose lower case lies in a set: compositional over
  sequences and alternatives.\<close>

definition folds_to :: "rx \<Rightarrow> string set \<Rightarrow> bool" where
  "folds_to r L \<longleftrightarrow> rx_plain r \<and> (\<forall>w. is_ascii w \<longrightarrow> (w \<in> rx_lang r \<longleftrightarrow> map lower_byte w \<in> L))"

definition lower_letter :: "char \<Rightarrow> bool" where
  "lower_letter c \<longleftrightarrow> 97 \<le> byte c \<and> byte c \<le> 122"

lemma lower_byte_letter:
  assumes "lower_letter c"
  shows "lower_byte x = c \<longleftrightarrow> byte x = byte c \<or> byte x = byte c - 32"
proof -
  have "lower_byte x = c \<longleftrightarrow> byte (lower_byte x) = byte c" by simp
  also have "\<dots> \<longleftrightarrow> byte x = byte c \<or> byte x = byte c - 32"
    using assms by (auto simp: lower_byte_def lower_letter_def byte_char_of)
  finally show ?thesis .
qed

lemma is_ascii_append [simp]: "is_ascii (u @ v) \<longleftrightarrow> is_ascii u \<and> is_ascii v"
  by (simp add: is_ascii_def)

lemma folds_to_RFold: "lower_letter c \<Longrightarrow> folds_to (RFold c) {[c]}"
proof -
  assume c: "lower_letter c"
  let ?both = "RClass [(c, c), (char_of (byte c - 32), char_of (byte c - 32))]"
  have "byte (char_of (byte c - 32)) = byte c - 32"
    using c by (intro byte_char_of) (auto simp: lower_letter_def)
  then have both: "w \<in> rx_lang ?both \<longleftrightarrow> (\<exists>x. w = [x] \<and> (byte x = byte c \<or> byte x = byte c - 32))" for w
    unfolding rx_lang.simps in_class_def by (simp add: eq_iff [of "byte c"] conj_commute eq_iff)
  have extra: "is_ascii w \<Longrightarrow> w \<in> rx_lang (RFold c) \<longleftrightarrow> w \<in> rx_lang ?both" for w
    unfolding RFold_def Let_def by (auto simp: is_ascii_def in_class_def)
  have "w \<in> rx_lang (RFold c) \<longleftrightarrow> map lower_byte w \<in> {[c]}" if "is_ascii w" for w
    unfolding extra [OF that] both using lower_byte_letter [OF c] by (simp add: map_eq_Cons_conv)
  then show ?thesis by (simp add: folds_to_def)
qed

lemma folds_to_RSeq:
  assumes "folds_to r A" "folds_to q B"
  shows "folds_to (RSeq r q) {a @ b | a b. a \<in> A \<and> b \<in> B}"
proof -
  have "w \<in> rx_lang (RSeq r q) \<longleftrightarrow> map lower_byte w \<in> {a @ b | a b. a \<in> A \<and> b \<in> B}"
    if "is_ascii w" for w
  proof -
    have "w \<in> rx_lang (RSeq r q) \<longleftrightarrow> (\<exists>u v. w = u @ v \<and> u \<in> rx_lang r \<and> v \<in> rx_lang q)"
      by auto
    also have "\<dots> \<longleftrightarrow> (\<exists>u v. w = u @ v \<and> map lower_byte u \<in> A \<and> map lower_byte v \<in> B)"
      using assms that unfolding folds_to_def by (metis is_ascii_append)
    also have "\<dots> \<longleftrightarrow> map lower_byte w \<in> {a @ b | a b. a \<in> A \<and> b \<in> B}"
      by (force simp: map_eq_append_conv)
    finally show ?thesis .
  qed
  with assms show ?thesis by (simp add: folds_to_def)
qed

lemma folds_to_RAlt: "folds_to r A \<Longrightarrow> folds_to q B \<Longrightarrow> folds_to (RAlt r q) (A \<union> B)"
  by (simp add: folds_to_def)

lemma folds_to_RFolds: "list_all lower_letter s \<Longrightarrow> folds_to (RFolds s) {s}"
proof (induction s rule: RFolds.induct)
  case 1
  then show ?case by (simp add: folds_to_def)
next
  case (2 c)
  then show ?case by (simp add: folds_to_RFold)
next
  case (3 c d cs)
  then have "folds_to (RSeq (RFold c) (RFolds (d # cs))) {a @ b | a b. a \<in> {[c]} \<and> b \<in> {d # cs}}"
    by (intro folds_to_RSeq folds_to_RFold) simp_all
  then show ?case by simp
qed

lemma folds_to_opt_sep: "folds_to opt_sep {'''', ''_'', ''-''}"
proof -
  have l: "lower_byte x = c \<longleftrightarrow> byte x = byte c" if "byte c = 95 \<or> byte c = 45" for x c
  proof -
    have "lower_byte x = c \<longleftrightarrow> byte (lower_byte x) = byte c" by simp
    with that show ?thesis by (auto simp: lower_byte_def byte_char_of)
  qed
  have "lower_byte x = CHR ''_'' \<longleftrightarrow> byte x = 95" "lower_byte x = CHR ''-'' \<longleftrightarrow> byte x = 45" for x
    by (simp_all add: l)
  then show ?thesis
    by (auto simp: folds_to_def opt_sep_def ROpt_def in_class_def map_eq_Cons_conv)
qed

text \<open>An optional separator between two words.\<close>

lemma folds_to_pair:
  assumes "list_all lower_letter a" "list_all lower_letter b"
  shows "folds_to (RSeqs [RFolds a, opt_sep, RFolds b]) (pair_terms (a, b))"
proof -
  have "folds_to (RSeq (RFolds a) (RSeq opt_sep (RFolds b)))
      {x @ y | x y. x \<in> {a} \<and> y \<in> {s @ z | s z. s \<in> {'''', ''_'', ''-''} \<and> z \<in> {b}}}"
    using assms by (intro folds_to_RSeq folds_to_RFolds folds_to_opt_sep)
  also have "{x @ y | x y. x \<in> {a} \<and> y \<in> {s @ z | s z. s \<in> {'''', ''_'', ''-''} \<and> z \<in> {b}}} =
      pair_terms (a, b)"
    unfolding pair_terms_def by auto
  finally show ?thesis by simp
qed

lemma letters: "list_all (\<lambda>c. 97 \<le> byte c \<and> byte c \<le> 122) s \<Longrightarrow> list_all lower_letter s"
  by (simp add: lower_letter_def list_all_iff)

lemma folds_to_RAlts_Cons:
  "folds_to r A \<Longrightarrow> rs \<noteq> [] \<Longrightarrow> folds_to (RAlts rs) B \<Longrightarrow> folds_to (RAlts (r # rs)) (A \<union> B)"
  by (cases rs) (simp_all add: folds_to_RAlt)

lemma folds_to_secret: "folds_to (RAlts secret_alternatives) secret_terms"
proof -
  have words: "folds_to (RFolds s) {s}" if "list_all (\<lambda>c. 97 \<le> byte c \<and> byte c \<le> 122) s" for s
    using that by (intro folds_to_RFolds letters)
  have pairs: "folds_to (RSeqs [RFolds a, opt_sep, RFolds b]) (pair_terms (a, b))"
    if "list_all (\<lambda>c. 97 \<le> byte c \<and> byte c \<le> 122) (a @ b)" for a b
    using that by (intro folds_to_pair letters) simp_all
  have "secret_terms = {''password''} \<union> ({''passphrase''} \<union> (pair_terms (''api'', ''key'') \<union>
       (pair_terms (''access'', ''token'') \<union> (pair_terms (''refresh'', ''token'') \<union>
       (pair_terms (''private'', ''key'') \<union> (pair_terms (''client'', ''secret'') \<union>
       ({''bearer''} \<union> ({''secret''} \<union> {''token''}))))))))"
    unfolding secret_terms_def UN_insert UN_empty by (simp only: Un_empty_left Un_empty_right Un_insert_left Un_insert_right insert_commute Un_ac)
  moreover have "folds_to (RAlts secret_alternatives) \<dots>"
    unfolding secret_alternatives_def
    by (intro folds_to_RAlts_Cons list.distinct(2)) (unfold RAlts.simps(2), (rule words pairs, simp)+)
  ultimately show ?thesis by simp
qed

text \<open>A pattern between two boundaries.\<close>

lemma rx_rel_wordb: "rx_rel RWordB p q \<longleftrightarrow> q = p \<and> boundary (fst p) (rx_rest p)"
  by (auto elim: rel_wordb_elim intro: rel_wordb)

lemma rx_rel_seq: "rx_rel (RSeq r s) p q \<longleftrightarrow> (\<exists>p'. rx_rel r p p' \<and> rx_rel s p' q)"
  by (blast elim: rel_seq_elim intro: rel_seq)

lemma rx_rel_bounded:
  assumes "rx_plain r"
  shows "rx_rel (RSeqs [RWordB, r, RWordB]) p q \<longleftrightarrow>
    (\<exists>w\<in>rx_lang r. reads w p q \<and> boundary (fst p) (rx_rest p) \<and> boundary (fst q) (rx_rest q))"
proof -
  have "rx_rel (RSeqs [RWordB, r, RWordB]) p q \<longleftrightarrow>
      rx_rel r p q \<and> boundary (fst p) (rx_rest p) \<and> boundary (fst q) (rx_rest q)"
    unfolding RSeqs.simps rx_rel_seq rx_rel_wordb by blast
  with assms show ?thesis by (simp add: rx_rel_plain_iff)
qed

lemma secret_search_ascii:
  assumes "is_ascii s"
  shows "rx_search secretMentionRe [] s \<noteq> None \<longleftrightarrow> mentions secret_terms s"
proof -
  have plain: "rx_plain (RAlts secret_alternatives)"
    using folds_to_secret by (simp add: folds_to_def)
  have "rx_search secretMentionRe [] s \<noteq> None \<longleftrightarrow>
      (\<exists>u v q. s = u @ v \<and> rx_rel secretMentionRe (rev u, v, []) q)"
    unfolding rx_search_None rx_at_None by simp
  also have "\<dots> \<longleftrightarrow> (\<exists>u w v. s = u @ w @ v \<and> w \<in> rx_lang (RAlts secret_alternatives) \<and>
      boundary (rev u) (w @ v) \<and> boundary (rev w @ rev u) v)"
    unfolding secretMentionRe_def rx_rel_bounded [OF plain] by (auto simp: reads_def) blast
  also have "\<dots> \<longleftrightarrow> mentions secret_terms s"
    using folds_to_secret assms unfolding mentions_def folds_to_def by (metis is_ascii_append)
  finally show ?thesis .
qed

lemma strings_ToLower_nonempty: "strings_ToLower u s = [] \<longleftrightarrow> s = []"
proof
  assume e: "strings_ToLower u s = []"
  show "s = []"
  proof (cases "runes s")
    case (Cons rc rcs)
    have "encodeRune n \<noteq> []" for n
      by (simp add: encodeRune_def encodeValid_def)
    with e Cons show ?thesis by (auto simp: strings_ToLower_def split: prod.splits)
  qed simp
qed (simp add: strings_ToLower_def)

lemma secret_lang_nonempty: "[] \<notin> secret_terms"
  unfolding secret_terms_def pair_terms_def by simp

lemma findSecretMention_empty_iff:
  assumes "is_ascii s"
  shows "findSecretMention u s = [] \<longleftrightarrow> \<not> mentions secret_terms s"
proof (cases "rx_search secretMentionRe [] s")
  case None
  then show ?thesis using secret_search_ascii [OF assms] by (simp add: findSecretMention_def)
next
  case (Some m)
  obtain p q where m: "m = (p, q)" by (cases m)
  obtain before w where sw: "s = before @ w @ rx_rest q" "rx_rel secretMentionRe p q" "match_text (p, q) = w"
    using rx_search_Some [of secretMentionRe "[]" s p q] Some m by auto
  have plain: "rx_plain (RAlts secret_alternatives)"
    using folds_to_secret by (simp add: folds_to_def)
  have "w \<noteq> []"
  proof
    assume "w = []"
    with sw have "length (rx_rest p) \<le> length (rx_rest q)" by (auto simp: match_text_def)
    with sw(2) have "[] \<in> rx_lang (RAlts secret_alternatives)"
      unfolding secretMentionRe_def rx_rel_bounded [OF plain] by (auto simp: reads_def)
    then show False
      using folds_to_secret secret_lang_nonempty by (auto simp: folds_to_def is_ascii_def)
  qed
  with Some m sw show ?thesis
    using secret_search_ascii [OF assms] by (simp add: findSecretMention_def strings_ToLower_nonempty)
qed

section \<open>tool-example-uses-real-pii\<close>

definition digit_class :: rx where
  "digit_class = RClass [(CHR ''0'', CHR ''9'')]"

definition letter_class :: rx where
  "letter_class = RClass [(CHR ''A'', CHR ''Z''), (CHR ''a'', CHR ''z'')]"

definition email_local :: rx where
  "email_local = RClass [(CHR ''A'', CHR ''Z''), (CHR ''a'', CHR ''z''), (CHR ''0'', CHR ''9''),
     (CHR ''.'', CHR ''.''), (CHR ''_'', CHR ''_''), (CHR ''%'', CHR ''%''), (CHR ''+'', CHR ''+''),
     (CHR ''-'', CHR ''-'')]"

definition email_domain :: rx where
  "email_domain = RClass [(CHR ''A'', CHR ''Z''), (CHR ''a'', CHR ''z''), (CHR ''0'', CHR ''9''),
     (CHR ''.'', CHR ''.''), (CHR ''-'', CHR ''-'')]"

definition piiEmailRe :: rx where
  "piiEmailRe = RSeqs [RWordB, RPlus email_local, RChar (CHR ''@''), RPlus email_domain,
     RChar (CHR ''.''), RSeqs [letter_class, letter_class, RStar letter_class], RWordB]"

definition piiSSNRe :: rx where
  "piiSSNRe = RSeqs [RWordB, RRep 3 digit_class, RChar (CHR ''-''), RRep 2 digit_class,
     RChar (CHR ''-''), RRep 4 digit_class, RWordB]"

definition piiPhoneRe :: rx where
  "piiPhoneRe = RAlt
     (RSeqs [RChar (CHR ''(''), RRep 3 digit_class, RChar (CHR '')''), ROpt (RClass space_ranges),
        RRep 3 digit_class, RChar (CHR ''-''), RRep 4 digit_class])
     (RSeqs [RWordB, RRep 3 digit_class, RChar (CHR ''-''), RRep 3 digit_class, RChar (CHR ''-''),
        RRep 4 digit_class, RWordB])"

definition placeholderEmailDomains :: "string list" where
  "placeholderEmailDomains = [''@example.com'', ''@example.org'', ''@example.net'', ''@test.com'',
     ''@invalid'', ''@localhost'']"

fun emailIsPlaceholder_loop :: "string \<Rightarrow> string list \<Rightarrow> bool" where
  "emailIsPlaceholder_loop matched [] = False"
| "emailIsPlaceholder_loop matched (d # ds) =
    (if strings_HasSuffix matched d then True else emailIsPlaceholder_loop matched ds)"

definition emailIsPlaceholder :: "string \<Rightarrow> bool" where
  "emailIsPlaceholder matched = emailIsPlaceholder_loop matched placeholderEmailDomains"

definition placeholderSSNs :: "string list" where
  "placeholderSSNs = [''000-00-0000'', ''111-11-1111'', ''123-45-6789'', ''987-65-4321'']"

definition ssnIsPlaceholder :: "string \<Rightarrow> bool" where
  "ssnIsPlaceholder matched \<longleftrightarrow> matched \<in> set placeholderSSNs"

fun digitsOnly_loop :: "string \<Rightarrow> (nat \<times> nat) list \<Rightarrow> string" where
  "digitsOnly_loop b [] = b"
| "digitsOnly_loop b ((_, r) # rest) =
    (if 48 \<le> r \<and> r \<le> 57 then digitsOnly_loop (b @ encodeRune r) rest else digitsOnly_loop b rest)"

definition digitsOnly :: "string \<Rightarrow> string" where
  "digitsOnly s = digitsOnly_loop [] (range_string s)"

definition phoneIsPlaceholder :: "string \<Rightarrow> bool" where
  "phoneIsPlaceholder matched =
    (let digits = digitsOnly matched in
     if length digits = 7 then strings_HasPrefix digits ''555''
     else if length digits = 10
       then take 3 digits = ''555'' \<or> take 3 (drop 3 digits) = ''555''
     else False)"

record piiPattern =
  kind :: string
  re :: rx
  allowlist :: "(string \<Rightarrow> bool) option"

definition piiPatterns :: "piiPattern list" where
  "piiPatterns =
    [\<lparr>kind = ''email'', re = piiEmailRe, allowlist = Some emailIsPlaceholder\<rparr>,
     \<lparr>kind = ''ssn'', re = piiSSNRe, allowlist = Some ssnIsPlaceholder\<rparr>,
     \<lparr>kind = ''phone'', re = piiPhoneRe, allowlist = Some phoneIsPlaceholder\<rparr>]"

definition FindAllString :: "rx \<Rightarrow> string \<Rightarrow> string list" where
  "FindAllString r s = map match_text (rx_find_all r [] s)"

definition allowed :: "ucd \<Rightarrow> piiPattern \<Rightarrow> string \<Rightarrow> bool" where
  "allowed u p m = (case allowlist p of None \<Rightarrow> False | Some f \<Rightarrow> f (strings_ToLower u m))"

fun pii_match_loop :: "ucd \<Rightarrow> piiPattern \<Rightarrow> string list \<Rightarrow> string" where
  "pii_match_loop u p [] = ''''"
| "pii_match_loop u p (m # ms) = (if allowed u p m then pii_match_loop u p ms else ''real-looking '' @ kind p)"

fun scanStringForPII_loop :: "ucd \<Rightarrow> string \<Rightarrow> piiPattern list \<Rightarrow> string" where
  "scanStringForPII_loop u s [] = ''''"
| "scanStringForPII_loop u s (p # ps) =
    (let hit = pii_match_loop u p (FindAllString (re p) s) in
     if hit \<noteq> '''' then hit else scanStringForPII_loop u s ps)"

definition scanStringForPII :: "ucd \<Rightarrow> string \<Rightarrow> string" where
  "scanStringForPII u s = scanStringForPII_loop u s piiPatterns"

fun scanForPII :: "ucd \<Rightarrow> json \<Rightarrow> string"
and scanForPII_list :: "ucd \<Rightarrow> json list \<Rightarrow> string"
and scanForPII_map :: "ucd \<Rightarrow> (string \<times> json) list \<Rightarrow> string" where
  "scanForPII u (JStr x) = scanStringForPII u x"
| "scanForPII u (JObj x) = scanForPII_map u x"
| "scanForPII u (JArr x) = scanForPII_list u x"
| "scanForPII u _ = ''''"
| "scanForPII_list u [] = ''''"
| "scanForPII_list u (child # rest) =
    (let hit = scanForPII u child in if hit \<noteq> '''' then hit else scanForPII_list u rest)"
| "scanForPII_map u [] = ''''"
| "scanForPII_map u ((k, child) # rest) =
    (let hit = scanForPII u child in if hit \<noteq> '''' then hit else scanForPII_map u rest)"

definition pii_message :: "nat \<Rightarrow> string \<Rightarrow> string" where
  "pii_message i hit =
    ''inputSchema.examples['' @ nat_dec i @ ''] contains a '' @ hit @
    ''; use a placeholder (e.g. user@example.com, 555-555-0100, 123-45-6789)''"

fun pii_loop :: "ucd \<Rightarrow> nat \<Rightarrow> json list \<Rightarrow> ctx \<Rightarrow> ctx" where
  "pii_loop u i [] c = c"
| "pii_loop u i (ex # rest) c =
    (let hit = scanForPII u ex in
     if hit \<noteq> '''' then pii_loop u (i + 1) rest (Report (pii_message i hit) c) else pii_loop u (i + 1) rest c)"

definition pii_impl :: "ucd \<Rightarrow> ctx \<Rightarrow> ctx" where
  "pii_impl u c = pii_loop u 0 (extractExamples (InputSchema (ctxTool c))) c"

definition pii_rule :: "ucd \<Rightarrow> rule" where
  "pii_rule u =
    \<lparr>ID = ''tool-example-uses-real-pii'', Category = CatExamples, Severity = SevWarning,
     ruleDescription = ''Schema examples should use placeholder values for emails, SSNs, and phone numbers; real-looking PII suggests it was pasted from production.'',
     Fix = FixNone, Implementation = Some (pii_impl u), ProjectImplementation = None,
     ComparisonImplementation = None\<rparr>"

definition pii_messages :: "ucd \<Rightarrow> tool \<Rightarrow> string list" where
  "pii_messages u t =
    map (\<lambda>(i, ex). pii_message i (scanForPII u ex))
      (filter (\<lambda>(i, ex). scanForPII u ex \<noteq> '''') (enumerate 0 (extractExamples (InputSchema t))))"

lemma pii_loop_reports:
  "pii_loop u i exs c =
    fold Report (map (\<lambda>(i, ex). pii_message i (scanForPII u ex))
      (filter (\<lambda>(i, ex). scanForPII u ex \<noteq> '''') (enumerate i exs))) c"
  by (induction exs arbitrary: i c) (auto simp: Let_def)

interpretation pii: per_tool_rule "pii_impl u" "pii_messages u" for u
  by unfold_locales (simp add: pii_impl_def pii_messages_def pii_loop_reports)

subsection \<open>What the scan finds\<close>

text \<open>The string leaves of a value; maps are searched in the order the runtime visits them, but
  whether there is a hit does not depend on it.\<close>

fun json_strings :: "json \<Rightarrow> string set" where
  "json_strings (JStr s) = {s}"
| "json_strings (JArr vs) = (\<Union>v\<in>set vs. json_strings v)"
| "json_strings (JObj kvs) = (\<Union>kv\<in>set kvs. json_strings (snd kv))"
| "json_strings _ = {}"

lemma scanForPII_hit:
  "scanForPII u v \<noteq> [] \<longleftrightarrow> (\<exists>s\<in>json_strings v. scanStringForPII u s \<noteq> [])"
  "scanForPII_list u vs \<noteq> [] \<longleftrightarrow> (\<exists>v\<in>set vs. \<exists>s\<in>json_strings v. scanStringForPII u s \<noteq> [])"
  "scanForPII_map u kvs \<noteq> [] \<longleftrightarrow> (\<exists>kv\<in>set kvs. \<exists>s\<in>json_strings (snd kv). scanStringForPII u s \<noteq> [])"
proof (induction u v and u vs and u kvs rule: scanForPII_scanForPII_list_scanForPII_map.induct)
qed (simp_all add: Let_def split: if_split)

lemma pii_match_loop_hit: "pii_match_loop u p ms \<noteq> [] \<longleftrightarrow> (\<exists>m\<in>set ms. \<not> allowed u p m)"
  by (induction ms) auto

lemma scanStringForPII_loop_hit:
  "scanStringForPII_loop u s ps \<noteq> [] \<longleftrightarrow> (\<exists>p\<in>set ps. \<exists>m\<in>set (FindAllString (re p) s). \<not> allowed u p m)"
proof (induction ps)
  case (Cons p ps)
  show ?case
  proof (cases "pii_match_loop u p (FindAllString (re p) s) = []")
    case True
    with Cons pii_match_loop_hit [of u p "FindAllString (re p) s"] show ?thesis by (simp add: Let_def)
  next
    case False
    with pii_match_loop_hit [of u p "FindAllString (re p) s"] show ?thesis by (auto simp: Let_def)
  qed
qed simp

text \<open>The phone number's digits: the runes of the loop pick exactly the digit bytes.\<close>

definition is_digit_byte :: "char \<Rightarrow> bool" where
  "is_digit_byte c \<longleftrightarrow> 48 \<le> byte c \<and> byte c \<le> 57"

lemma digitsOnly_loop_runes:
  "digitsOnly_loop b (range_from i (runes s)) = b @ filter is_digit_byte s"
proof (induction s arbitrary: b i rule: runes.induct)
  case (2 c cs)
  obtain r w where d: "decodeRune (c # cs) = (r, w)" by fastforce
  from d show ?case
  proof (cases rule: decodeRune_cases)
    case ascii
    with d 2 [OF d [symmetric]] show ?thesis
      by (auto simp: runes.simps(2) is_digit_byte_def encodeRune_ascii)
  next
    case multi
    have "filter is_digit_byte (take w (c # cs)) = []"
      using decodeRune_high [OF d multi(1)] by (fastforce simp: filter_empty_conv is_digit_byte_def)
    then have "filter is_digit_byte (c # cs) = filter is_digit_byte (drop w (c # cs))"
      by (metis append_take_drop_id append_Nil filter_append)
    with d multi 2 [OF d [symmetric]] show ?thesis
      by (simp add: runes.simps(2))
  qed
qed simp

lemma digitsOnly_filter: "digitsOnly s = filter is_digit_byte s"
  by (simp add: digitsOnly_def range_string_def digitsOnly_loop_runes)

lemma emailIsPlaceholder_iff: "emailIsPlaceholder m \<longleftrightarrow> (\<exists>d\<in>set placeholderEmailDomains. suffix d m)"
proof -
  have "emailIsPlaceholder_loop m ds \<longleftrightarrow> (\<exists>d\<in>set ds. suffix d m)" for ds
    by (induction ds) auto
  then show ?thesis by (simp add: emailIsPlaceholder_def)
qed


section \<open>Properties\<close>

text \<open>(C6) tool-description-mentions-secret. On an ASCII description the rule fires exactly when one of the
  spelled-out terms (password, passphrase, bearer, secret, token, and the two-word terms joined by
  nothing, an underscore or a hyphen) occurs in it, in any mixture of cases, with a word boundary on
  both sides. The pattern is run by the backtracking engine; the statement is about texts only.\<close>

theorem secrets_rule_exact:
  assumes "is_ascii (Description t)"
  shows "Run [secrets_rule u] t \<noteq> [] \<longleftrightarrow>
    (\<exists>before w after. Description t = before @ w @ after \<and> map lower_byte w \<in> secret_terms \<and>
       boundary (rev before) (w @ after) \<and> boundary (rev w @ rev before) after)"
proof -
  have "Run [secrets_rule u] t = map (tool_finding (rule_info.truncate (secrets_rule u)) t) (secret_messages u t)"
    by (rule Run_single [OF _ secrets.per_tool_rule_axioms]) (simp add: secrets_rule_def)
  then have "Run [secrets_rule u] t \<noteq> [] \<longleftrightarrow> mentions secret_terms (Description t)"
    using findSecretMention_empty_iff [OF assms, of u] by (simp add: secret_messages_def del: Run.simps)
  then show ?thesis unfolding mentions_def .
qed

theorem secrets_rule_exact_witness:
  "Run [secrets_rule ascii_ucd] \<lparr>Name = ''t'', Description = ''Your API-Key'', InputSchema = None,
      SourceFile = '''', SourceLine = 0\<rparr> \<noteq> []"
proof -
  let ?t = "\<lparr>Name = ''t'', Description = ''Your API-Key'', InputSchema = None, SourceFile = '''', SourceLine = 0\<rparr>"
  have a: "is_ascii (Description ?t)" by (simp add: is_ascii_def)
  have "map lower_byte ''API-Key'' = ''api-key''" by code_simp
  moreover have "''api-key'' \<in> secret_terms" by (simp add: secret_terms_def pair_terms_def)
  moreover have "boundary (rev ''Your '') (''API-Key'' @ []) \<and> boundary (rev ''API-Key'' @ rev ''Your '') []" by code_simp
  ultimately show ?thesis
    unfolding secrets_rule_exact [OF a] by (intro exI [of _ "''Your ''"] exI [of _ "''API-Key''"] exI [of _ "[]"]) simp
qed

text \<open>(C9) tool-example-uses-real-pii. The findings are, in order, about exactly the examples one of whose
  string leaves, at any depth, has a match of the email, SSN or phone pattern that is not an accepted
  placeholder. Whether an example is reported does not depend on the order in which the runtime
  visits its maps.\<close>

theorem pii_rule_exact:
  "map Message (Run [pii_rule u] t) =
    map (\<lambda>i. pii_message i (scanForPII u (extractExamples (InputSchema t) ! i)))
      (filter (\<lambda>i. \<exists>s\<in>json_strings (extractExamples (InputSchema t) ! i). \<exists>p\<in>set piiPatterns.
           \<exists>m\<in>set (FindAllString (re p) s). \<not> allowed u p m)
        [0..<length (extractExamples (InputSchema t))])"
proof -
  have "Run [pii_rule u] t = map (tool_finding (rule_info.truncate (pii_rule u)) t) (pii_messages u t)"
    by (rule Run_single [OF _ pii.per_tool_rule_axioms]) (simp add: pii_rule_def)
  then have run: "map Message (Run [pii_rule u] t) = pii_messages u t"
    by (simp add: tool_finding_def o_def)
  have hit: "scanForPII u v \<noteq> [] \<longleftrightarrow> (\<exists>s\<in>json_strings v. \<exists>p\<in>set piiPatterns.
      \<exists>m\<in>set (FindAllString (re p) s). \<not> allowed u p m)" for v
    unfolding scanForPII_hit(1) scanStringForPII_def scanStringForPII_loop_hit by (rule refl)
  show ?thesis unfolding run pii_messages_def hit filter_enumerate by (rule refl)
qed

text \<open>Placeholder phone numbers. A matched phone number counts as a placeholder exactly when its
  digits, read in order and everything else dropped, are seven starting with 555, or ten with 555 as
  area code or as exchange.\<close>

theorem phone_placeholder_exact:
  "phoneIsPlaceholder m \<longleftrightarrow>
    (let d = filter (\<lambda>c. 48 \<le> byte c \<and> byte c \<le> 57) m in
     (length d = 7 \<and> prefix ''555'' d) \<or>
     (length d = 10 \<and> (prefix ''555'' d \<or> prefix ''555'' (drop 3 d))))"
proof -
  have "is_digit_byte = (\<lambda>c. 48 \<le> byte c \<and> byte c \<le> 57)" by (simp add: fun_eq_iff is_digit_byte_def)
  then show ?thesis
    unfolding phoneIsPlaceholder_def digitsOnly_filter prefix_take_iff by (auto simp: Let_def numeral_3_eq_3)
qed

end
