(* ===== verification/Rule_Set.thy ===== *)
theory Rule_Set
  imports Rules_Naming Rules_Text
begin

text \<open>
  The rules the program ships with, in the order their \<^verbatim>\<open>init\<close> functions run (the files of
  \<^verbatim>\<open>internal/rules\<close> in name order), and what the whole set reports on a tool, on a tool set
  and on a pair of tool sets.
\<close>

definition rule_set :: "ucd \<Rightarrow> 's schema_lib \<Rightarrow> rule list" where
  "rule_set u lib =
    [collision_rule u, description_rule, destructive_rule u, examples_rule lib, filepath_rule u,
     network_rule u, pii_rule u, required_rule, secrets_rule u, snakecase_rule u, static_vs_live_rule u]"

lemmas rule_defs = collision_rule_def description_rule_def destructive_rule_def examples_rule_def
  filepath_rule_def network_rule_def pii_rule_def required_rule_def secrets_rule_def snakecase_rule_def
  static_vs_live_rule_def

lemma rule_set_ids:
  "map ID (rule_set u lib) =
    [''tool-name-collision'', ''tool-description-empty-or-truncated'', ''destructive-tool-not-gated'',
     ''tool-example-fails-schema'', ''file-tool-no-path-confinement'', ''network-tool-no-allowlist'',
     ''tool-example-uses-real-pii'', ''tool-schema-required-references-undefined-property'',
     ''tool-description-mentions-secret'', ''tool-name-not-snake-case'', ''tool-static-vs-live-mismatch'']"
  by (simp add: rule_set_def rule_defs)

lemma rule_set_callbacks: "list_all (\<lambda>r. ID r \<noteq> [] \<and> has_callback r) (rule_set u lib)"
  by (simp add: rule_set_def rule_defs has_callback_def)

lemma rule_set_registers: "register_all [] (rule_set u lib) = Inr (rule_set u lib)"
proof -
  have "distinct (map ID (rule_set u lib))"
    unfolding rule_set_ids by simp
  then show ?thesis
    unfolding register_all_Inr_iff using rule_set_callbacks by simp
qed

section \<open>What a run over the rule set reports\<close>

text \<open>The metadata of each per-tool rule with the messages it gives for a tool.\<close>

definition info_of :: "rule \<Rightarrow> rule_info" where
  "info_of r = rule_info.truncate r"

definition tool_reports :: "ucd \<Rightarrow> 's schema_lib \<Rightarrow> tool \<Rightarrow> (rule_info \<times> string list) list" where
  "tool_reports u lib t =
    [(info_of description_rule, description_messages t),
     (info_of (destructive_rule u), destructive_messages u t),
     (info_of (examples_rule lib), example_messages lib t),
     (info_of (filepath_rule u), open_property_messages (isPathPropertyName u) filepath_message t),
     (info_of (network_rule u), open_property_messages (isURLPropertyName u) network_message t),
     (info_of (pii_rule u), pii_messages u t),
     (info_of required_rule, required_messages t),
     (info_of (secrets_rule u), secret_messages u t),
     (info_of (snakecase_rule u), snakecase_messages u t)]"

lemma Run_rule:
  assumes "Implementation r = Some impl" "per_tool_rule impl messages"
  shows "Run (r # rs) t = map (tool_finding (info_of r) t) (messages t) @ Run rs t"
  using assms(1) per_tool_rule.impl_findings [OF assms(2)] by (simp add: info_of_def)

lemma Run_no_rule: "Implementation r = None \<Longrightarrow> Run (r # rs) t = Run rs t"
  by simp

lemma implementations:
  "Implementation (collision_rule u) = None"
  "Implementation description_rule = Some description_impl"
  "Implementation (destructive_rule u) = Some (destructive_impl u)"
  "Implementation (examples_rule lib) = Some (examples_impl lib)"
  "Implementation (filepath_rule u) = Some (filepath_impl u)"
  "Implementation (network_rule u) = Some (network_impl u)"
  "Implementation (pii_rule u) = Some (pii_impl u)"
  "Implementation required_rule = Some required_impl"
  "Implementation (secrets_rule u) = Some (secrets_impl u)"
  "Implementation (snakecase_rule u) = Some (snakecase_impl u)"
  "Implementation (static_vs_live_rule u) = None"
  by (simp_all add: rule_defs)

text \<open>The dispatch equation of every per-tool rule, from its contract.\<close>

lemmas run_rules =
  Run_no_rule [OF implementations(1)]
  Run_rule [OF implementations(2) description.per_tool_rule_axioms]
  Run_rule [OF implementations(3) destructive.per_tool_rule_axioms]
  Run_rule [OF implementations(4) examples.per_tool_rule_axioms]
  Run_rule [OF implementations(5) pathscan.per_tool_rule_axioms]
  Run_rule [OF implementations(6) network.per_tool_rule_axioms]
  Run_rule [OF implementations(7) pii.per_tool_rule_axioms]
  Run_rule [OF implementations(8) required.per_tool_rule_axioms]
  Run_rule [OF implementations(9) secrets.per_tool_rule_axioms]
  Run_rule [OF implementations(10) snakecase.per_tool_rule_axioms]
  Run_no_rule [OF implementations(11)]

lemma Run_rule_set:
  "Run (rule_set u lib) t = concat (map (\<lambda>(info, ms). map (tool_finding info t) ms) (tool_reports u lib t))"
  unfolding rule_set_def tool_reports_def
  by (simp only: run_rules Run.simps(1) list.map concat.simps case_prod_conv append_Nil2)

lemma RunProject_rule_set:
  "RunProject (rule_set u lib) ts =
    pcFindings (collision_impl u \<lparr>pcToolSet = ts, pcFindings = [], pcRule = info_of (collision_rule u)\<rparr>)"
proof -
  have "ProjectImplementation r = None" if "r \<in> set (tl (rule_set u lib))" for r
    using that by (auto simp: rule_set_def rule_defs)
  then have "RunProject (tl (rule_set u lib)) ts = []"
    by (intro per_project.run_skips) simp
  moreover have "rule_set u lib = collision_rule u # tl (rule_set u lib)"
    by (simp add: rule_set_def)
  moreover have "ProjectImplementation (collision_rule u) = Some (collision_impl u)"
    by (simp add: collision_rule_def)
  ultimately show ?thesis
    by (metis RunProject.simps(2) append_Nil2 info_of_def option.simps(5))
qed

lemma RunComparison_rule_set:
  "RunComparison (rule_set u lib) s l =
    ccFindings (static_vs_live_impl u
      \<lparr>ccStatic = s, ccLive = l, ccFindings = [], ccRule = info_of (static_vs_live_rule u)\<rparr>)"
proof -
  have "ComparisonImplementation r = None" if "r \<in> set (butlast (rule_set u lib))" for r
    using that by (auto simp: rule_set_def rule_defs)
  then have "RunComparison (butlast (rule_set u lib)) s l = []"
    by (intro per_comparison.run_skips) simp
  moreover have "rule_set u lib = butlast (rule_set u lib) @ [static_vs_live_rule u]"
    by (simp add: rule_set_def)
  moreover have "ComparisonImplementation (static_vs_live_rule u) = Some (static_vs_live_impl u)"
    by (simp add: static_vs_live_rule_def)
  ultimately show ?thesis
    using per_comparison.run_append [of "butlast (rule_set u lib)" "[static_vs_live_rule u]" s l]
    by (simp add: info_of_def)
qed

section \<open>Errors\<close>

text \<open>The findings of severity error: an ungated destructive tool, a required name that no property
  declares, or a name that two tools share.\<close>

definition tool_error :: "ucd \<Rightarrow> tool \<Rightarrow> bool" where
  "tool_error u t \<longleftrightarrow> destructive_messages u t \<noteq> [] \<or> required_messages t \<noteq> []"

lemma tool_finding_severity [simp]: "fSeverity (tool_finding i t m) = Severity i"
  by (simp add: tool_finding_def)

lemma severities:
  "Severity (info_of (collision_rule u)) = SevError"
  "Severity (info_of description_rule) = SevWarning"
  "Severity (info_of (destructive_rule u)) = SevError"
  "Severity (info_of (examples_rule lib)) = SevWarning"
  "Severity (info_of (filepath_rule u)) = SevWarning"
  "Severity (info_of (network_rule u)) = SevWarning"
  "Severity (info_of (pii_rule u)) = SevWarning"
  "Severity (info_of required_rule) = SevError"
  "Severity (info_of (secrets_rule u)) = SevWarning"
  "Severity (info_of (snakecase_rule u)) = SevWarning"
  "Severity (info_of (static_vs_live_rule u)) = SevWarning"
  by (simp_all add: rule_defs info_of_def rule_info.truncate_def)

lemma ex_nonempty: "(\<exists>m. m \<in> set xs) \<longleftrightarrow> xs \<noteq> []"
  by (cases xs) auto

lemma Run_rule_set_error:
  "(\<exists>f\<in>set (Run (rule_set u lib) t). fSeverity f = SevError) \<longleftrightarrow> tool_error u t"
proof -
  have "(\<exists>f\<in>set (Run (rule_set u lib) t). fSeverity f = SevError) \<longleftrightarrow>
      (\<exists>(info, ms)\<in>set (tool_reports u lib t). ms \<noteq> [] \<and> Severity info = SevError)"
    unfolding Run_rule_set by (fastforce simp: ex_nonempty [symmetric])
  also have "\<dots> \<longleftrightarrow> tool_error u t"
    by (auto simp: tool_reports_def severities tool_error_def)
  finally show ?thesis .
qed

lemma RunProject_rule_set_error:
  "(\<exists>f\<in>set (RunProject (rule_set u lib) ts). fSeverity f = SevError) \<longleftrightarrow>
    \<not> distinct (filter (\<lambda>n. n \<noteq> '''') (map Name (Tools ts)))"
proof -
  have "fSeverity f = SevError" if "f \<in> set (RunProject (rule_set u lib) ts)" for f
    using that by (auto simp: RunProject_rule_set collision_mem_iff severities)
  then show ?thesis
    unfolding collision_silent_iff [of u ts "info_of (collision_rule u)", symmetric]
    by (metis RunProject_rule_set ex_nonempty)
qed

lemma RunComparison_rule_set_no_error:
  "f \<in> set (RunComparison (rule_set u lib) (Some s) (Some l)) \<Longrightarrow> fSeverity f = SevWarning"
  unfolding RunComparison_rule_set
  by (auto simp: static_vs_live_impl_def Let_def ccFindings_report_only severities)

end
