(* ===== verification/Analyze.thy ===== *)
theory Analyze
  imports Output Rule_Set
begin

text \<open>
  The analysis behind the command line (\<^verbatim>\<open>analyzeAll\<close> and \<^verbatim>\<open>writeRules\<close> of
  \<^verbatim>\<open>cmd/mcpcheck/main.go\<close>): every registered rule on every tool set that is there, the
  comparison when both are, the report in the chosen format and the exit on an error finding.
\<close>

text \<open>How a function that may call \<^verbatim>\<open>os.Exit\<close> ends: it returns, possibly an error, or the
  process exits with a status.\<close>

datatype ending = Returned "string option" | Exited nat

definition analyze_tools :: "rule list \<Rightarrow> tool list \<Rightarrow> finding list" where
  "analyze_tools rules tools = concat (map (Run rules) tools)"

fun analyze_sets :: "rule list \<Rightarrow> toolset option list \<Rightarrow> finding list" where
  "analyze_sets rules [] = []"
| "analyze_sets rules (None # sets) = analyze_sets rules sets"
| "analyze_sets rules (Some ts # sets) =
    analyze_tools rules (Tools ts) @ RunProject rules ts @ analyze_sets rules sets"

definition all_findings :: "rule list \<Rightarrow> toolset option \<Rightarrow> toolset option \<Rightarrow> finding list" where
  "all_findings rules static live =
    analyze_sets rules [static, live] @
    (if static \<noteq> None \<and> live \<noteq> None then RunComparison rules static live else [])"

definition write_findings :: "ucd \<Rightarrow> rule list \<Rightarrow> 'w writer \<Rightarrow> 'w \<Rightarrow> string \<Rightarrow> finding list \<Rightarrow>
    'w \<times> string option" where
  "write_findings u registry wr w format findings =
    (if format = ''text'' then WriteText u wr w findings
     else if format = ''json'' then WriteJSON wr w findings
     else if format = ''sarif'' then WriteSARIF registry wr w findings
     else (w, Some (''unknown --format '' @ strconv_Quote u format @ '' (want text|json|sarif)'')))"

definition analyzeAll :: "ucd \<Rightarrow> rule list \<Rightarrow> 'w writer \<Rightarrow> 'w \<Rightarrow> toolset option \<Rightarrow> toolset option \<Rightarrow>
    string \<Rightarrow> 'w \<times> ending" where
  "analyzeAll u registry wr w static live format =
    (let findings = all_findings (All registry) static live in
     case write_findings u registry wr w format findings of
       (w', Some e) \<Rightarrow> (w', Returned (Some e))
     | (w', None) \<Rightarrow>
         (if list_ex (\<lambda>f. fSeverity f = SevError) findings then (w', Exited 1) else (w', Returned None)))"

definition writeRules :: "ucd \<Rightarrow> rule list \<Rightarrow> 'w writer \<Rightarrow> 'w \<Rightarrow> string \<Rightarrow> 'w \<times> string option" where
  "writeRules u registry wr w format =
    (let rules = All registry in
     if format = ''text'' then WriteRulesText wr w rules
     else if format = ''json'' then WriteRulesJSON wr w rules
     else if format = ''sarif''
       then (w, Some ''--format sarif is not supported with --list-rules (use json or text)'')
     else (w, Some (''unknown --format '' @ strconv_Quote u format @ '' (want text|json)'')))"

section \<open>Error findings\<close>

text \<open>A tool set with an error: a tool with an error of its own, or two tools of one name.\<close>

definition set_error :: "ucd \<Rightarrow> toolset \<Rightarrow> bool" where
  "set_error u ts \<longleftrightarrow> (\<exists>t\<in>set (Tools ts). tool_error u t) \<or>
     \<not> distinct (filter (\<lambda>n. n \<noteq> '''') (map Name (Tools ts)))"

lemma analyze_tools_error:
  "(\<exists>f\<in>set (analyze_tools (rule_set u lib) ts). fSeverity f = SevError) \<longleftrightarrow> (\<exists>t\<in>set ts. tool_error u t)"
  by (auto simp: analyze_tools_def Run_rule_set_error [symmetric, of u _ lib])

lemma analyze_sets_error:
  "(\<exists>f\<in>set (analyze_sets (rule_set u lib) sets). fSeverity f = SevError) \<longleftrightarrow>
    (\<exists>ts. Some ts \<in> set sets \<and> set_error u ts)"
proof (induction "rule_set u lib" sets rule: analyze_sets.induct)
  case (3 ts sets)
  have "(\<exists>f\<in>set (analyze_sets (rule_set u lib) (Some ts # sets)). fSeverity f = SevError) \<longleftrightarrow>
      (\<exists>f\<in>set (analyze_tools (rule_set u lib) (Tools ts)). fSeverity f = SevError) \<or>
      (\<exists>f\<in>set (RunProject (rule_set u lib) ts). fSeverity f = SevError) \<or>
      (\<exists>f\<in>set (analyze_sets (rule_set u lib) sets). fSeverity f = SevError)"
    by auto
  then show ?case
    unfolding 3 analyze_tools_error RunProject_rule_set_error by (auto simp: set_error_def)
qed simp_all

lemma all_findings_error:
  "(\<exists>f\<in>set (all_findings (rule_set u lib) static live). fSeverity f = SevError) \<longleftrightarrow>
    (\<exists>ts. (static = Some ts \<or> live = Some ts) \<and> set_error u ts)"
proof -
  have "fSeverity f \<noteq> SevError"
    if "f \<in> set (RunComparison (rule_set u lib) static live)" "static \<noteq> None" "live \<noteq> None" for f
    using that RunComparison_rule_set_no_error [of f u lib] by (cases static; cases live) auto
  then have "(\<exists>f\<in>set (all_findings (rule_set u lib) static live). fSeverity f = SevError) \<longleftrightarrow>
      (\<exists>f\<in>set (analyze_sets (rule_set u lib) [static, live]). fSeverity f = SevError)"
    unfolding all_findings_def by (auto split: if_splits)
  also have "\<dots> \<longleftrightarrow> (\<exists>ts. (static = Some ts \<or> live = Some ts) \<and> set_error u ts)"
    unfolding analyze_sets_error by auto
  finally show ?thesis .
qed

text \<open>With a writer that does not fail, the process exits with status 1 exactly on an error
  finding, whatever the format.\<close>

lemma analyzeAll_exit:
  assumes "write_findings u (rule_set u lib) wr w format (all_findings (rule_set u lib) static live) = (w', None)"
  shows "analyzeAll u (rule_set u lib) wr w static live format =
    (w', if \<exists>ts. (static = Some ts \<or> live = Some ts) \<and> set_error u ts then Exited 1 else Returned None)"
  using assms all_findings_error [of u lib static live]
  by (simp add: analyzeAll_def All_def list_ex_iff)

lemma write_findings_buffer:
  "format \<in> {''text'', ''json'', ''sarif''} \<Longrightarrow> \<exists>b'. write_findings u registry buffer b format fs = (b', None)"
  by (auto simp: write_findings_def WriteText_def WriteJSON_def WriteSARIF_def buffer_def)

lemma not_distinct_names:
  "(\<not> distinct (filter P xs)) \<longleftrightarrow> (\<exists>n. P n \<and> occurs_twice n xs)"
proof -
  have "count_list (filter P xs) n = (if P n then count_list xs n else 0)" for n
    by (induction xs) auto
  then show ?thesis unfolding distinct_iff_no_twice by (auto simp: occurs_twice_def)
qed

text \<open>What it means for a tool to have no error.\<close>

lemma tool_error_iff:
  "tool_error u t \<longleftrightarrow>
    (\<exists>p\<in>set destructivePrefixes. strings_ToLower u (Name t) = p \<or> prefix (p @ ''_'') (strings_ToLower u (Name t))) \<and>
      \<not> (\<exists>props key val. schema_properties t = Some props \<and> (key, val) \<in> set props \<and> isConfirmationName u key) \<or>
    (\<exists>name schema arr. InputSchema t = Some schema \<and> get_arr schema ''required'' = Some arr \<and> JStr name \<in> set arr \<and>
      (\<forall>props. get_obj schema ''properties'' = Some props \<longrightarrow> name \<notin> fst ` set props))"
proof -
  have empty: "strings_ToLower u [] = []" by (simp add: strings_ToLower_def)
  have d: "destructivePrefix u (Name t) \<noteq> [] \<longleftrightarrow>
      (\<exists>p\<in>set destructivePrefixes. strings_ToLower u (Name t) = p \<or> prefix (p @ ''_'') (strings_ToLower u (Name t)))"
    unfolding destructivePrefix_empty_iff using empty by (auto simp: destructivePrefixes_def)
  have "destructive_messages u t \<noteq> [] \<longleftrightarrow>
      destructivePrefix u (Name t) \<noteq> [] \<and> \<not> hasConfirmationField u (InputSchema t)"
    by (simp add: destructive_messages_def)
  moreover have "required_messages t \<noteq> [] \<longleftrightarrow> (\<exists>name. name \<in> set (undefined_required t))"
    by (simp add: required_messages_def ex_nonempty)
  ultimately show ?thesis
    unfolding tool_error_def d hasConfirmationField_iff undefined_required_mem by blast
qed


section \<open>Properties\<close>

text \<open>(C1) Exit status. Run over the shipped rules, the analysis of a static and a live tool set ends with
  status 1 exactly when one of the sets has a tool with an error of its own or two tools of one
  non-empty name, independent of the output format; it returns an error exactly for an unknown
  format, before that status is decided, and returns normally otherwise.\<close>

theorem exit_status:
  "snd (analyzeAll u (rule_set u lib) buffer b static live format) =
    (if format \<notin> {''text'', ''json'', ''sarif''}
     then Returned (Some (''unknown --format '' @ strconv_Quote u format @ '' (want text|json|sarif)''))
     else if \<exists>ts. (static = Some ts \<or> live = Some ts) \<and>
       ((\<exists>t\<in>set (Tools ts). tool_error u t) \<or> (\<exists>n. n \<noteq> '''' \<and> occurs_twice n (map Name (Tools ts))))
     then Exited 1
     else Returned None)"
proof (cases "format \<in> {''text'', ''json'', ''sarif''}")
  case True
  then obtain b' where "write_findings u (rule_set u lib) buffer b format
      (all_findings (rule_set u lib) static live) = (b', None)"
    using write_findings_buffer by blast
  from analyzeAll_exit [OF this] True show ?thesis
    by (simp add: set_error_def not_distinct_names)
next
  case False
  then show ?thesis by (simp add: analyzeAll_def write_findings_def)
qed

text \<open>(C2) What a clean run guarantees. When the analysis of a tool set returns without an error and
  without exiting, its tools' non-empty names are pairwise distinct; every tool whose name is or
  starts with a destructive verb declares a confirmation property; and every name that a tool's
  schema requires is one of its properties.\<close>

theorem clean_run_guarantee:
  assumes "snd (analyzeAll u (rule_set u lib) wr w static live format) = Returned None"
    and "static = Some ts \<or> live = Some ts"
  shows "distinct (filter (\<lambda>n. n \<noteq> '''') (map Name (Tools ts))) \<and>
    (\<forall>t\<in>set (Tools ts).
      (\<forall>p\<in>set destructivePrefixes.
         strings_ToLower u (Name t) = p \<or> prefix (p @ ''_'') (strings_ToLower u (Name t)) \<longrightarrow>
         (\<exists>props key val. schema_properties t = Some props \<and> (key, val) \<in> set props \<and> isConfirmationName u key)) \<and>
      (\<forall>schema arr name. InputSchema t = Some schema \<longrightarrow> get_arr schema ''required'' = Some arr \<longrightarrow>
         JStr name \<in> set arr \<longrightarrow> (\<exists>props. get_obj schema ''properties'' = Some props \<and> name \<in> fst ` set props)))"
proof -
  have "\<not> (\<exists>ts. (static = Some ts \<or> live = Some ts) \<and> set_error u ts)"
    using assms(1) unfolding all_findings_error [of u lib static live, symmetric]
    by (auto simp: analyzeAll_def All_def list_ex_iff Let_def split: prod.splits option.splits if_splits)
  then have "\<not> set_error u ts" using assms(2) by blast
  then have d: "distinct (filter (\<lambda>n. n \<noteq> '''') (map Name (Tools ts)))"
    and t: "\<And>t. t \<in> set (Tools ts) \<Longrightarrow> \<not> tool_error u t"
    by (auto simp: set_error_def)
  show ?thesis using d t [unfolded tool_error_iff] by blast
qed

definition clean_tool :: tool where
  "clean_tool = \<lparr>Name = ''delete_user'', Description = ''Deletes a user'',
     InputSchema = Some [(''properties'', JObj [(''confirm'', JNull), (''id'', JNull)]), (''required'', JArr [JStr ''id''])],
     SourceFile = '''', SourceLine = 0\<rparr>"

theorem clean_run_guarantee_witness:
  "\<exists>props key val. schema_properties clean_tool = Some props \<and> (key, val) \<in> set props \<and> isConfirmationName ascii_ucd key"
proof -
  let ?ts = "\<lparr>Tools = [clean_tool], Source = ''tools.json''\<rparr>"
  let ?lib = "\<lparr>AddResource = (\<lambda>_ _. None), Compile = (\<lambda>_ _. Inr ()), Validate = (\<lambda>_ _. None)\<rparr>"
  have "isConfirmationName ascii_ucd ''confirm''"
    by (simp add: isConfirmationName_def go_strings is_ascii_def lower_byte_def confirmationFieldNames_def)
  then have "destructive_messages ascii_ucd clean_tool = []"
    by (simp add: destructive_messages_def hasConfirmationField_def clean_tool_def)
  moreover have "required_messages clean_tool = []"
    by (simp add: required_messages_def undefined_required_def clean_tool_def extractRequired_def
        propertyNames_def get_obj_def)
  ultimately have "\<not> set_error ascii_ucd ?ts" by (simp add: set_error_def tool_error_def clean_tool_def)
  then have run: "snd (analyzeAll ascii_ucd (rule_set ascii_ucd ?lib) buffer [] (Some ?ts) None ''json'') = Returned None"
    using analyzeAll_exit [of ascii_ucd ?lib buffer "[]" "''json''" "Some ?ts" None]
      write_findings_buffer [of "''json''" ascii_ucd "rule_set ascii_ucd ?lib" "[]"]
    by fastforce
  have "''delete'' \<in> set destructivePrefixes" by (simp add: destructivePrefixes_def)
  moreover have "prefix (''delete'' @ ''_'') (strings_ToLower ascii_ucd (Name clean_tool))"
    by (simp add: clean_tool_def go_strings is_ascii_def lower_byte_def)
  moreover have "clean_tool \<in> set (Tools ?ts)" by simp
  ultimately show ?thesis using clean_run_guarantee [OF run, of ?ts] by blast
qed

text \<open>The findings of a run, tool by tool. For each tool the shipped rules report, in registration order,
  the messages each per-tool rule has about it and nothing else: no rule's findings depend on
  another rule, on another tool or on earlier findings.\<close>

theorem findings_per_tool:
  "all_findings (rule_set u lib) (Some ts) None =
    concat (map (\<lambda>t. concat (map (\<lambda>(info, ms). map (tool_finding info t) ms) (tool_reports u lib t))) (Tools ts)) @
    RunProject [collision_rule u] ts"
  by (simp add: all_findings_def analyze_tools_def Run_rule_set [abs_def] RunProject_rule_set collision_rule_def
      info_of_def)

end
