(* ===== verification/Go_Files.thy ===== *)
theory Go_Files
  imports Go_Strings
begin

text \<open>
  The file system as the intakes see it: paths (\<^verbatim>\<open>path/filepath\<close> on Unix), a tree of files and
  directories, and \<^verbatim>\<open>filepath.WalkDir\<close> with its protocol of visits, \<^verbatim>\<open>SkipDir\<close> and errors.
\<close>

section \<open>Paths\<close>

text \<open>\<^verbatim>\<open>filepath.Clean\<close>: the parts of the path without empty parts and dots, each \<^verbatim>\<open>..\<close>
  taking the part before it away.\<close>

fun clean_parts :: "bool \<Rightarrow> string list \<Rightarrow> string list \<Rightarrow> string list" where
  "clean_parts rooted acc [] = rev acc"
| "clean_parts rooted acc (p # ps) =
    (if p = '''' \<or> p = ''.'' then clean_parts rooted acc ps
     else if p = ''..'' then
       (if acc \<noteq> [] \<and> hd acc \<noteq> ''..'' then clean_parts rooted (tl acc) ps
        else if rooted then clean_parts rooted acc ps
        else clean_parts rooted (p # acc) ps)
     else clean_parts rooted (p # acc) ps)"

definition path_Clean :: "string \<Rightarrow> string" where
  "path_Clean p =
    (if p = '''' then ''.''
     else
       (let rooted = (hd p = CHR ''/'');
            body = strings_Join (clean_parts rooted [] (strings_Split p (CHR ''/''))) ''/''
        in if rooted then CHR ''/'' # body else if body = '''' then ''.'' else body))"

definition path_Join :: "string \<Rightarrow> string \<Rightarrow> string" where
  "path_Join dir name = path_Clean (dir @ ''/'' @ name)"

text \<open>The name of a root as \<^verbatim>\<open>Lstat\<close> reports it: the last element of the path.\<close>

definition path_Base :: "string \<Rightarrow> string" where
  "path_Base p =
    (if p = '''' then ''.''
     else
       (let s = rev (dropWhile (\<lambda>c. c = CHR ''/'') (rev p)) in
        if s = '''' then ''/'' else rev (takeWhile (\<lambda>c. c \<noteq> CHR ''/'') (rev s))))"

section \<open>Trees\<close>

text \<open>What opening and reading a file gives.\<close>

datatype file_read = OpenFails string | ReadFails string | Content string

text \<open>A directory lists its entries as \<^verbatim>\<open>os.ReadDir\<close> does, sorted by name; \<open>BadDir\<close> cannot
  be listed; \<open>LinkDir\<close> is a symbolic link to a directory, a directory for \<^verbatim>\<open>Stat\<close> and
  \<^verbatim>\<open>ReadDir\<close> but not for \<^verbatim>\<open>Lstat\<close>.\<close>

datatype node =
    File file_read
  | Dir "(string \<times> node) list"
  | BadDir string
  | LinkDir "(string \<times> node) list"

fun entry_IsDir :: "node \<Rightarrow> bool" where
  "entry_IsDir (Dir es) = True"
| "entry_IsDir (BadDir e) = True"
| "entry_IsDir _ = False"

definition stat_IsDir :: "node \<Rightarrow> bool" where
  "stat_IsDir n = (entry_IsDir n \<or> (case n of LinkDir es \<Rightarrow> True | _ \<Rightarrow> False))"

definition os_ReadDir :: "node \<Rightarrow> (string \<times> node) list result" where
  "os_ReadDir n =
    (case n of
       Dir es \<Rightarrow> Inr es
     | LinkDir es \<Rightarrow> Inr es
     | BadDir e \<Rightarrow> Inl e
     | File _ \<Rightarrow> Inl ''not a directory'')"

definition node_read :: "node \<Rightarrow> file_read" where
  "node_read n = (case n of File r \<Rightarrow> r | _ \<Rightarrow> ReadFails ''is a directory'')"

section \<open>WalkDir\<close>

datatype walk_result = WOk | WSkipDir | WErr string

text \<open>A callback over its captured state: the path, the entry's name, the entry and the error of a
  failed directory read.\<close>

type_synonym 's walk_fn = "'s \<Rightarrow> string \<Rightarrow> string \<Rightarrow> node \<Rightarrow> string option \<Rightarrow> 's \<times> walk_result"

text \<open>A callback's \<^verbatim>\<open>SkipDir\<close> on a directory is swallowed.\<close>

definition skip_ok :: "node \<Rightarrow> 's \<times> walk_result \<Rightarrow> 's \<times> walk_result" where
  "skip_ok n r = (case r of (s, WSkipDir) \<Rightarrow> if entry_IsDir n then (s, WOk) else r | _ \<Rightarrow> r)"

fun walkDir :: "'s walk_fn \<Rightarrow> 's \<Rightarrow> string \<Rightarrow> string \<Rightarrow> node \<Rightarrow> 's \<times> walk_result"
and walk_entries :: "'s walk_fn \<Rightarrow> 's \<Rightarrow> string \<Rightarrow> (string \<times> node) list \<Rightarrow> 's \<times> walk_result" where
  "walkDir fn s path name (File r) = fn s path name (File r) None"
| "walkDir fn s path name (LinkDir es) = fn s path name (LinkDir es) None"
| "walkDir fn s path name (BadDir e) =
    (case fn s path name (BadDir e) None of
       (s', WOk) \<Rightarrow> skip_ok (BadDir e) (fn s' path name (BadDir e) (Some e))
     | r \<Rightarrow> skip_ok (BadDir e) r)"
| "walkDir fn s path name (Dir es) =
    (case fn s path name (Dir es) None of
       (s', WOk) \<Rightarrow> walk_entries fn s' path es
     | r \<Rightarrow> skip_ok (Dir es) r)"
| "walk_entries fn s path [] = (s, WOk)"
| "walk_entries fn s path ((name, n) # es) =
    (case walkDir fn s (path_Join path name) name n of
       (s', WOk) \<Rightarrow> walk_entries fn s' path es
     | (s', WSkipDir) \<Rightarrow> (s', WOk)
     | (s', WErr e) \<Rightarrow> (s', WErr e))"

definition filepath_WalkDir :: "'s walk_fn \<Rightarrow> 's \<Rightarrow> string \<Rightarrow> node \<Rightarrow> 's \<times> walk_result" where
  "filepath_WalkDir fn s root n =
    (case walkDir fn s root (path_Base root) n of
       (s', WSkipDir) \<Rightarrow> (s', WOk)
     | r \<Rightarrow> r)"

section \<open>Loading a tree\<close>

text \<open>The contract of an intake over a directory: the callback skips some directories, loads the
  wanted files in walk order, appending what they give, and stops at the first error. \<open>visited\<close>
  is the specification: the files and unreadable directories of the tree, in order.\<close>

datatype item = Wanted string node | Broken string

fun visited :: "(string \<Rightarrow> bool) \<Rightarrow> (string \<Rightarrow> bool) \<Rightarrow> string \<Rightarrow> string \<Rightarrow> node \<Rightarrow> item list"
and visited_list :: "(string \<Rightarrow> bool) \<Rightarrow> (string \<Rightarrow> bool) \<Rightarrow> string \<Rightarrow> (string \<times> node) list \<Rightarrow> item list" where
  "visited skip want path name (File r) = (if want path then [Wanted path (File r)] else [])"
| "visited skip want path name (LinkDir es) = (if want path then [Wanted path (LinkDir es)] else [])"
| "visited skip want path name (BadDir e) = (if skip name then [] else [Broken e])"
| "visited skip want path name (Dir es) = (if skip name then [] else visited_list skip want path es)"
| "visited_list skip want path [] = []"
| "visited_list skip want path ((name, n) # es) =
    visited skip want (path_Join path name) name n @ visited_list skip want path es"

fun load_items :: "(string \<Rightarrow> node \<Rightarrow> 'a list result) \<Rightarrow> 'a list \<Rightarrow> item list \<Rightarrow> 'a list \<times> walk_result" where
  "load_items load acc [] = (acc, WOk)"
| "load_items load acc (Broken e # is) = (acc, WErr e)"
| "load_items load acc (Wanted path n # is) =
    (case load path n of Inl e \<Rightarrow> (acc, WErr e) | Inr xs \<Rightarrow> load_items load (acc @ xs) is)"

lemma load_items_append:
  "load_items load acc (is @ js) =
    (case load_items load acc is of (acc', WOk) \<Rightarrow> load_items load acc' js | r \<Rightarrow> r)"
  by (induction load acc "is" rule: load_items.induct) (auto split: sum.split)

lemma load_items_no_skip: "snd (load_items load acc is) \<noteq> WSkipDir"
  by (induction load acc "is" rule: load_items.induct) (auto split: sum.split)

locale source_walk =
  fixes skip :: "string \<Rightarrow> bool"
    and want :: "string \<Rightarrow> bool"
    and load :: "string \<Rightarrow> node \<Rightarrow> 'a list result"
    and fn :: "'a list walk_fn"
  assumes fn_error: "fn acc path name n (Some e) = (acc, WErr e)"
    and fn_dir: "entry_IsDir n \<Longrightarrow> fn acc path name n None = (acc, if skip name then WSkipDir else WOk)"
    and fn_file: "\<not> entry_IsDir n \<Longrightarrow> fn acc path name n None =
      (if want path then (case load path n of Inl e \<Rightarrow> (acc, WErr e) | Inr xs \<Rightarrow> (acc @ xs, WOk)) else (acc, WOk))"
begin

lemma walk_loads:
  "f = fn \<Longrightarrow> walkDir f acc path name n = load_items load acc (visited skip want path name n)"
  "f = fn \<Longrightarrow> walk_entries f acc path es = load_items load acc (visited_list skip want path es)"
proof (induction f acc path name n and f acc path es rule: walkDir_walk_entries.induct)
  case (6 f acc path name n es)
  then show ?case
    using load_items_no_skip [of load acc "visited skip want (path_Join path name) name n"]
    by (auto simp: load_items_append split: prod.split walk_result.split)
qed (auto simp: fn_error fn_dir fn_file skip_ok_def split: sum.split)

lemma walk_root: "filepath_WalkDir fn acc root n = load_items load acc (visited skip want root (path_Base root) n)"
  using load_items_no_skip [of load acc "visited skip want root (path_Base root) n"]
  by (auto simp: filepath_WalkDir_def walk_loads(1) [OF refl] split: prod.split walk_result.split)

end

end
