(* ===== verification/Intake_Source.thy ===== *)
theory Intake_Source
  imports Go_Regexp Go_Files Mcp_Model
begin

text \<open>
  The source intakes: \<^verbatim>\<open>pyintake.go\<close> and \<^verbatim>\<open>tsintake.go\<close> of
  \<^verbatim>\<open>internal/scanner\<close>, which find tool declarations in Python and TypeScript sources with
  regular expressions and walk directories of them. Both directory intakes meet the contract
  \<open>source_walk\<close>.
\<close>

section \<open>Python\<close>

definition py_identifier :: rx where
  "py_identifier = RSeq (RClass [(CHR ''A'', CHR ''Z''), (CHR ''a'', CHR ''z''), (CHR ''_'', CHR ''_'')])
     (RStar (RClass [(CHR ''A'', CHR ''Z''), (CHR ''a'', CHR ''z''), (CHR ''0'', CHR ''9''), (CHR ''_'', CHR ''_'')]))"

definition pyToolDecoratorRe :: rx where
  "pyToolDecoratorRe = RSeqs [RBegin, RSpaces, RChar (CHR ''@''), RSpaces, RGroup 1 py_identifier, RLit ''.tool'',
     RWordB, ROpt (RGroup 2 (RSeqs [RSpaces, RChar (CHR ''(''),
       RGroup 3 (RStar (RNotClass [(CHR '')'', CHR '')'')])), RChar (CHR '')'')])), RSpaces, REnd]"

definition pyDefRe :: rx where
  "pyDefRe = RSeqs [RBegin, RSpaces, ROpt (RSeq (RLit ''async'') (RPlus (RClass space_ranges))), RLit ''def'',
     RPlus (RClass space_ranges), RGroup 1 py_identifier, RSpaces, RChar (CHR ''('')]"

definition squote :: char where
  "squote = CHR 0x27"

definition dquote :: char where
  "dquote = CHR 0x22"

definition pyKwargStringRe :: rx where
  "pyKwargStringRe = RSeqs [RGroup 1 (RPlus (RClass word_ranges)), RSpaces, RChar (CHR ''=''), RSpaces,
     RGroup 2 (RAlt
       (RSeqs [RChar dquote, RGroup 3 (RStar (RNotClass [(dquote, dquote)])), RChar dquote])
       (RSeqs [RChar squote, RGroup 4 (RStar (RNotClass [(squote, squote)])), RChar squote]))]"

definition pyDocstringStartRe :: rx where
  "pyDocstringStartRe = RSeqs [RBegin, RSpaces,
     ROpt (RAlt
       (RSeq (ROpt (RClass [(CHR ''r'', CHR ''r''), (CHR ''u'', CHR ''u'')])) (ROpt (RChar (CHR ''b''))))
       (RSeq (ROpt (RChar (CHR ''b''))) (ROpt (RAlt (RChar (CHR ''r'')) (RChar (CHR ''u'')))))),
     RGroup 1 (RAlt (RLit [dquote, dquote, dquote]) (RLit [squote, squote, squote])),
     RGroup 2 (RStar (RNotClass [(CHR 0x0A, CHR 0x0A)])), REnd]"

subsection \<open>Lines\<close>

text \<open>\<^verbatim>\<open>bufio.Scanner\<close> with \<^verbatim>\<open>ScanLines\<close> and a buffer of one mebibyte: the pieces between
  newlines without a trailing carriage return, no empty last line, and an error on a line that
  fills the buffer.\<close>

definition max_token :: nat where
  "max_token = 1024 * 1024"

definition drop_cr :: "string \<Rightarrow> string" where
  "drop_cr l = (if l \<noteq> [] \<and> last l = CHR 0x0D then butlast l else l)"

definition scan_lines :: "string \<Rightarrow> string list result" where
  "scan_lines text =
    (let ps = strings_Split text (CHR 0x0A);
         ls = (if last ps = [] then butlast ps else ps)
     in if list_ex (\<lambda>l. max_token \<le> length l) ls then Inl ''bufio.Scanner: token too long''
        else Inr (map drop_cr ls))"

subsection \<open>Declarations\<close>

function nextDefLine :: "string list \<Rightarrow> nat \<Rightarrow> (string \<times> nat) option" where
  "nextDefLine lines i =
    (if i < length lines then
       (let trimmed = strings_TrimSpace (lines ! i) in
        if trimmed = '''' \<or> strings_HasPrefix trimmed ''#'' then nextDefLine lines (i + 1)
        else if strings_HasPrefix trimmed ''@'' then nextDefLine lines (i + 1)
        else Some (lines ! i, i))
     else None)"
  by pat_completeness auto
termination
  by (relation "measure (\<lambda>(lines, i). length lines - i)") auto

declare nextDefLine.simps [simp del]

function doc_body_loop :: "string list \<Rightarrow> string \<Rightarrow> nat \<Rightarrow> string" where
  "doc_body_loop lines quote j =
    (if j < length lines then
       (let trimmed = strings_TrimSpace (lines ! j) in
        if trimmed = '''' then doc_body_loop lines quote (j + 1)
        else if strings_HasSuffix trimmed quote then strings_TrimSpace (strings_TrimSuffix trimmed quote)
        else trimmed)
     else '''')"
  by pat_completeness auto
termination
  by (relation "measure (\<lambda>(lines, quote, j). length lines - j)") auto

declare doc_body_loop.simps [simp del]

definition extractDocstringFirstLine :: "string list \<Rightarrow> nat \<Rightarrow> string" where
  "extractDocstringFirstLine lines start =
    (if start \<ge> length lines then ''''
     else
       (let first = lines ! start in
        case rx_search pyDocstringStartRe [] first of
          None \<Rightarrow> ''''
        | Some m \<Rightarrow>
            (let quote = match_group 1 m; rest = match_group 2 m in
             case strings_Index rest quote of
               Some idx \<Rightarrow> strings_TrimSpace (take idx rest)
             | None \<Rightarrow>
                 if strings_TrimSpace rest \<noteq> '''' then strings_TrimSpace rest
                 else doc_body_loop lines quote (start + 1))))"

text \<open>The loop over the keyword arguments: the name and the description so far.\<close>

fun kwargs_loop :: "(rx_pos \<times> rx_pos) list \<Rightarrow> string \<times> string \<Rightarrow> string \<times> string" where
  "kwargs_loop [] nd = nd"
| "kwargs_loop (kv # kvs) (name, description) =
    (let value = match_group 3 kv;
         value = (if value = '''' then match_group 4 kv else value)
     in if match_group 1 kv = ''name'' then kwargs_loop kvs (value, description)
        else if match_group 1 kv = ''description'' then kwargs_loop kvs (name, value)
        else kwargs_loop kvs (name, description))"

text \<open>One turn of the main loop: the tool declared at line \<open>i\<close>, if any.\<close>

definition py_tool_at :: "string \<Rightarrow> string list \<Rightarrow> nat \<Rightarrow> tool option" where
  "py_tool_at sourcePath lines i =
    (case rx_search pyToolDecoratorRe [] (lines ! i) of
       None \<Rightarrow> None
     | Some decoratorMatch \<Rightarrow>
         (case nextDefLine lines (i + 1) of
            None \<Rightarrow> None
          | Some (defLine, defLineIdx) \<Rightarrow>
              (case rx_search pyDefRe [] defLine of
                 None \<Rightarrow> None
               | Some defMatch \<Rightarrow>
                   (let decoratorArgs = match_group 3 decoratorMatch;
                        funcName = match_group 1 defMatch;
                        nd = kwargs_loop (rx_find_all pyKwargStringRe [] decoratorArgs) (funcName, '''');
                        description = (if snd nd = '''' then extractDocstringFirstLine lines (defLineIdx + 1)
                                       else snd nd)
                    in Some \<lparr>Name = fst nd, Description = description, InputSchema = None,
                             SourceFile = sourcePath, SourceLine = int (i + 1)\<rparr>))))"

definition scanPythonReader :: "string \<Rightarrow> string \<Rightarrow> tool list result" where
  "scanPythonReader sourcePath text =
    (case scan_lines text of
       Inl e \<Rightarrow> Inl e
     | Inr lines \<Rightarrow> Inr (List.map_filter (py_tool_at sourcePath lines) [0..<length lines]))"

subsection \<open>Files and directories\<close>

definition LoadPythonFile :: "string \<Rightarrow> node \<Rightarrow> toolset result" where
  "LoadPythonFile path n =
    (case node_read n of
       OpenFails e \<Rightarrow> Inl (''open '' @ path @ '': '' @ e)
     | ReadFails e \<Rightarrow> Inl (''scan '' @ path @ '': '' @ e)
     | Content text \<Rightarrow>
         (case scanPythonReader path text of
            Inl e \<Rightarrow> Inl (''scan '' @ path @ '': '' @ e)
          | Inr tools \<Rightarrow> Inr \<lparr>Tools = tools, Source = path\<rparr>))"

definition shouldSkipDir :: "string \<Rightarrow> bool" where
  "shouldSkipDir name \<longleftrightarrow> name \<in> set [''__pycache__'', ''.venv'', ''venv'', ''env'', ''node_modules'', ''.git'',
     ''.tox'', ''build'', ''dist'']"

definition py_walk_fn :: "tool list walk_fn" where
  "py_walk_fn tools path name d walkErr =
    (case walkErr of
       Some e \<Rightarrow> (tools, WErr e)
     | None \<Rightarrow>
         if entry_IsDir d then (if shouldSkipDir name then (tools, WSkipDir) else (tools, WOk))
         else if \<not> strings_HasSuffix path ''.py'' then (tools, WOk)
         else (case LoadPythonFile path d of
                 Inl e \<Rightarrow> (tools, WErr e)
               | Inr ts \<Rightarrow> (tools @ Tools ts, WOk)))"

definition LoadPythonDir :: "string \<Rightarrow> node \<Rightarrow> toolset result" where
  "LoadPythonDir dir n =
    (case filepath_WalkDir py_walk_fn [] dir n of
       (tools, WErr e) \<Rightarrow> Inl e
     | (tools, _) \<Rightarrow> Inr \<lparr>Tools = tools, Source = dir\<rparr>)"

section \<open>TypeScript\<close>

definition quote_class :: rx where
  "quote_class = RClass [(dquote, dquote), (squote, squote)]"

definition no_quotes :: rx where
  "no_quotes = RStar (RNotClass [(dquote, dquote), (squote, squote)])"

definition tsToolCallRe :: rx where
  "tsToolCallRe = RSeqs [RWordB,
     RGroup 1 (RSeq (RClass [(CHR ''A'', CHR ''Z''), (CHR ''a'', CHR ''z''), (CHR ''_'', CHR ''_''), (CHR ''$'', CHR ''$'')])
       (RStar (RClass [(CHR ''A'', CHR ''Z''), (CHR ''a'', CHR ''z''), (CHR ''0'', CHR ''9''), (CHR ''_'', CHR ''_''),
          (CHR ''$'', CHR ''$'')]))),
     RLit ''.tool'', RSpaces, RChar (CHR ''(''), RSpaces, quote_class, RGroup 2 no_quotes, quote_class, RSpaces,
     RChar (CHR '',''), RSpaces, quote_class, RGroup 3 no_quotes, quote_class]"

definition byteOffsetToLine :: "string \<Rightarrow> int \<Rightarrow> int" where
  "byteOffsetToLine src offset =
    (if offset < 0 then 0
     else (let offset = (if offset > int (length src) then int (length src) else offset)
           in int (count_list (take (nat offset) src) (CHR 0x0A)) + 1))"

definition scanTypeScript :: "string \<Rightarrow> string \<Rightarrow> tool list" where
  "scanTypeScript sourcePath src =
    map (\<lambda>m. \<lparr>Name = match_group 2 m, Description = match_group 3 m, InputSchema = None,
              SourceFile = sourcePath, SourceLine = byteOffsetToLine src (int (match_start m))\<rparr>)
      (rx_find_all tsToolCallRe [] src)"

definition LoadTypeScriptFile :: "string \<Rightarrow> node \<Rightarrow> toolset result" where
  "LoadTypeScriptFile path n =
    (case node_read n of
       OpenFails e \<Rightarrow> Inl (''read '' @ path @ '': '' @ e)
     | ReadFails e \<Rightarrow> Inl (''read '' @ path @ '': '' @ e)
     | Content raw \<Rightarrow> Inr \<lparr>Tools = scanTypeScript path raw, Source = path\<rparr>)"

definition shouldSkipTSDir :: "string \<Rightarrow> bool" where
  "shouldSkipTSDir name \<longleftrightarrow>
    name \<in> set [''node_modules'', ''dist'', ''build'', ''.git'', ''.turbo'', ''coverage'', ''.next'']"

definition isTypeScriptSourceFile :: "string \<Rightarrow> bool" where
  "isTypeScriptSourceFile path \<longleftrightarrow> filepath_Ext path \<in> set [''.ts'', ''.tsx'', ''.js'', ''.mjs'', ''.cjs'']"

definition ts_walk_fn :: "tool list walk_fn" where
  "ts_walk_fn tools path name d walkErr =
    (case walkErr of
       Some e \<Rightarrow> (tools, WErr e)
     | None \<Rightarrow>
         if entry_IsDir d then (if shouldSkipTSDir name then (tools, WSkipDir) else (tools, WOk))
         else if \<not> isTypeScriptSourceFile path then (tools, WOk)
         else (case LoadTypeScriptFile path d of
                 Inl e \<Rightarrow> (tools, WErr e)
               | Inr ts \<Rightarrow> (tools @ Tools ts, WOk)))"

definition LoadTypeScriptDir :: "string \<Rightarrow> node \<Rightarrow> toolset result" where
  "LoadTypeScriptDir dir n =
    (case filepath_WalkDir ts_walk_fn [] dir n of
       (tools, WErr e) \<Rightarrow> Inl e
     | (tools, _) \<Rightarrow> Inr \<lparr>Tools = tools, Source = dir\<rparr>)"

section \<open>The directory intakes meet the walk contract\<close>

definition tools_of :: "toolset result \<Rightarrow> tool list result" where
  "tools_of r = map_sum id Tools r"

interpretation py_walk: source_walk shouldSkipDir "\<lambda>path. strings_HasSuffix path ''.py''"
  "\<lambda>path n. tools_of (LoadPythonFile path n)" py_walk_fn
  by unfold_locales (auto simp: py_walk_fn_def tools_of_def split: sum.split)

interpretation ts_walk: source_walk shouldSkipTSDir isTypeScriptSourceFile
  "\<lambda>path n. tools_of (LoadTypeScriptFile path n)" ts_walk_fn
  by unfold_locales (auto simp: ts_walk_fn_def tools_of_def split: sum.split)

section \<open>Positions\<close>

lemma map_filter_upt_sorted:
  "(\<And>i x. f i = Some x \<Longrightarrow> key x = int (i + 1)) \<Longrightarrow>
    sorted_wrt (<) (map key (List.map_filter f [0..<n])) \<and>
    (\<forall>x\<in>set (List.map_filter f [0..<n]). 1 \<le> key x \<and> key x \<le> int n)"
proof (induction n)
  case (Suc n)
  have split: "List.map_filter f [0..<Suc n] = List.map_filter f [0..<n] @ (case f n of None \<Rightarrow> [] | Some x \<Rightarrow> [x])"
    by (simp add: List.map_filter_def split: option.split)
  from Suc have IH: "sorted_wrt (<) (map key (List.map_filter f [0..<n]))"
    "\<forall>x\<in>set (List.map_filter f [0..<n]). 1 \<le> key x \<and> key x \<le> int n" by blast+
  show ?case
  proof (cases "f n")
    case None
    then show ?thesis unfolding split using IH by fastforce
  next
    case (Some x)
    with Suc.prems have "key x = int n + 1" by fastforce
    with IH Some show ?thesis unfolding split by (fastforce simp: sorted_wrt_append)
  qed
qed (simp add: List.map_filter_def)

lemma py_tool_at_line: "py_tool_at path lines i = Some t \<Longrightarrow> SourceLine t = int (i + 1)"
  by (auto simp: py_tool_at_def Let_def split: option.splits prod.splits)

lemma py_tool_at_decorated:
  "py_tool_at path lines i = Some t \<Longrightarrow>
    SourceFile t = path \<and> InputSchema t = None \<and> rx_search pyToolDecoratorRe [] (lines ! i) \<noteq> None"
  by (auto simp: py_tool_at_def Let_def split: option.splits prod.splits)

lemma map_filter_nth_line:
  assumes "t \<in> set (List.map_filter (py_tool_at path lines) [0..<length lines])"
  shows "SourceFile t = path \<and> InputSchema t = None \<and>
    rx_search pyToolDecoratorRe [] (lines ! nat (SourceLine t - 1)) \<noteq> None"
proof -
  obtain i where i: "py_tool_at path lines i = Some t" using assms by (auto simp: List.map_filter_def)
  then have "nat (SourceLine t - 1) = i" using py_tool_at_line [OF i] by simp
  with py_tool_at_decorated [OF i] show ?thesis by simp
qed

lemma count_take_mono: "i \<le> j \<Longrightarrow> count_list (take i xs) x \<le> count_list (take j xs) x"
proof -
  assume "i \<le> j"
  then have "take j xs = take i xs @ take (j - i) (drop i xs)" by (metis le_add_diff_inverse take_add)
  then show ?thesis by simp
qed

lemma count_take_le: "count_list (take i xs) x \<le> count_list xs x"
  using count_take_mono [of i "i + length xs" xs x] by simp

lemma byteOffsetToLine_mono:
  "0 \<le> i \<Longrightarrow> i \<le> j \<Longrightarrow> byteOffsetToLine src i \<le> byteOffsetToLine src j"
  by (auto simp: byteOffsetToLine_def Let_def intro!: count_take_mono count_take_le)

lemma byteOffsetToLine_bounds:
  "0 \<le> i \<Longrightarrow> 1 \<le> byteOffsetToLine src i \<and> byteOffsetToLine src i \<le> int (count_list src (CHR 0x0A)) + 1"
  using count_take_le [of _ src] by (auto simp: byteOffsetToLine_def Let_def)

lemma scanPythonReader_lines:
  assumes "scan_lines text = Inr lines"
  shows "sorted_wrt (<) (map SourceLine (projr (scanPythonReader path text))) \<and>
    list_all (\<lambda>t. 1 \<le> SourceLine t \<and> SourceLine t \<le> int (length lines) \<and> SourceFile t = path \<and> InputSchema t = None \<and>
      rx_search pyToolDecoratorRe [] (lines ! nat (SourceLine t - 1)) \<noteq> None) (projr (scanPythonReader path text))"
proof -
  have "sorted_wrt (<) (map SourceLine (List.map_filter (py_tool_at path lines) [0..<length lines])) \<and>
      (\<forall>t\<in>set (List.map_filter (py_tool_at path lines) [0..<length lines]).
        1 \<le> SourceLine t \<and> SourceLine t \<le> int (length lines))"
    by (rule map_filter_upt_sorted) (rule py_tool_at_line)
  then show ?thesis
    using map_filter_nth_line [of _ path lines]
    unfolding scanPythonReader_def assms sum.case sum.sel list_all_iff by blast
qed

section \<open>Properties\<close>

text \<open>(C18) Source positions. The tools found in a Python source carry its path, no schema, and the 1-based
  numbers of lines that hold a tool decorator, strictly increasing and within the source; those found
  in a TypeScript source carry line numbers between 1 and one more than its newlines, never
  decreasing.\<close>

theorem source_positions:
  "(case (scan_lines text, scanPythonReader path text) of
      (Inr lines, Inr ts) \<Rightarrow>
        sorted_wrt (<) (map SourceLine ts) \<and>
        list_all (\<lambda>t. 1 \<le> SourceLine t \<and> SourceLine t \<le> int (length lines) \<and> SourceFile t = path \<and> InputSchema t = None \<and>
          rx_search pyToolDecoratorRe [] (lines ! nat (SourceLine t - 1)) \<noteq> None) ts
    | (Inl e, Inl e') \<Rightarrow> e = e'
    | _ \<Rightarrow> False) \<and>
   sorted (map SourceLine (scanTypeScript path text)) \<and>
   list_all (\<lambda>t. 1 \<le> SourceLine t \<and> SourceLine t \<le> int (count_list text (CHR 0x0A)) + 1 \<and>
     SourceFile t = path \<and> InputSchema t = None) (scanTypeScript path text)"
proof (intro conjI)
  show "case (scan_lines text, scanPythonReader path text) of
      (Inr lines, Inr ts) \<Rightarrow>
        sorted_wrt (<) (map SourceLine ts) \<and>
        list_all (\<lambda>t. 1 \<le> SourceLine t \<and> SourceLine t \<le> int (length lines) \<and> SourceFile t = path \<and> InputSchema t = None \<and>
          rx_search pyToolDecoratorRe [] (lines ! nat (SourceLine t - 1)) \<noteq> None) ts
    | (Inl e, Inl e') \<Rightarrow> e = e'
    | _ \<Rightarrow> False"
  proof (cases "scan_lines text")
    case (Inr lines)
    then obtain ts where "scanPythonReader path text = Inr ts" by (simp add: scanPythonReader_def)
    with Inr scanPythonReader_lines [OF Inr, of path] show ?thesis by simp
  qed (simp add: scanPythonReader_def)
  show "sorted (map SourceLine (scanTypeScript path text))"
  proof -
    have "sorted (map (\<lambda>i. byteOffsetToLine text (int i)) is)" if "sorted is" for "is"
      using that by (induction "is") (auto intro: byteOffsetToLine_mono)
    moreover have "map SourceLine (scanTypeScript path text) =
        map (\<lambda>i. byteOffsetToLine text (int i)) (map match_start (rx_find_all tsToolCallRe [] text))"
      by (simp add: scanTypeScript_def)
    ultimately show ?thesis using rx_find_all_starts [of tsToolCallRe "[]" "text"] by metis
  qed
  show "list_all (\<lambda>t. 1 \<le> SourceLine t \<and> SourceLine t \<le> int (count_list text (CHR 0x0A)) + 1 \<and>
     SourceFile t = path \<and> InputSchema t = None) (scanTypeScript path text)"
    using byteOffsetToLine_bounds [of _ "text"] by (auto simp: scanTypeScript_def list_all_iff)
qed

text \<open>(C19) Directories. What a directory gives is what its visited files give, in walk order, up to the first
  error: every file with a wanted name outside the skipped directories, each loaded on its own. As a
  consequence a root directory that itself has a skipped name, and a root that is a symbolic link to
  a directory, give an empty tool set without an error.\<close>

theorem directory_intakes_exact:
  "LoadPythonDir dir n =
     (case load_items (\<lambda>path n. map_sum id Tools (LoadPythonFile path n)) []
        (visited shouldSkipDir (\<lambda>path. strings_HasSuffix path ''.py'') dir (path_Base dir) n) of
        (tools, WErr e) \<Rightarrow> Inl e
      | (tools, _) \<Rightarrow> Inr \<lparr>Tools = tools, Source = dir\<rparr>) \<and>
   LoadTypeScriptDir dir n =
     (case load_items (\<lambda>path n. map_sum id Tools (LoadTypeScriptFile path n)) []
        (visited shouldSkipTSDir isTypeScriptSourceFile dir (path_Base dir) n) of
        (tools, WErr e) \<Rightarrow> Inl e
      | (tools, _) \<Rightarrow> Inr \<lparr>Tools = tools, Source = dir\<rparr>) \<and>
   LoadPythonDir ''src/build'' (Dir es) = Inr \<lparr>Tools = [], Source = ''src/build''\<rparr> \<and>
   LoadTypeScriptDir ''link'' (LinkDir es) = Inr \<lparr>Tools = [], Source = ''link''\<rparr>"
proof (intro conjI)
  note walks = py_walk.walk_root ts_walk.walk_root
  show py: "LoadPythonDir dir n =
     (case load_items (\<lambda>path n. map_sum id Tools (LoadPythonFile path n)) []
        (visited shouldSkipDir (\<lambda>path. strings_HasSuffix path ''.py'') dir (path_Base dir) n) of
        (tools, WErr e) \<Rightarrow> Inl e | (tools, _) \<Rightarrow> Inr \<lparr>Tools = tools, Source = dir\<rparr>)" for dir n
    unfolding LoadPythonDir_def walks tools_of_def ..
  show ts: "LoadTypeScriptDir dir n =
     (case load_items (\<lambda>path n. map_sum id Tools (LoadTypeScriptFile path n)) []
        (visited shouldSkipTSDir isTypeScriptSourceFile dir (path_Base dir) n) of
        (tools, WErr e) \<Rightarrow> Inl e | (tools, _) \<Rightarrow> Inr \<lparr>Tools = tools, Source = dir\<rparr>)" for dir n
    unfolding LoadTypeScriptDir_def walks tools_of_def ..
  have "path_Base ''src/build'' = ''build''" by (simp add: path_Base_def Let_def)
  then show "LoadPythonDir ''src/build'' (Dir es) = Inr \<lparr>Tools = [], Source = ''src/build''\<rparr>"
    unfolding py by (simp add: shouldSkipDir_def)
  have "\<not> isTypeScriptSourceFile ''link''"
    by (simp add: isTypeScriptSourceFile_def filepath_Ext_def)
  then show "LoadTypeScriptDir ''link'' (LinkDir es) = Inr \<lparr>Tools = [], Source = ''link''\<rparr>"
    unfolding ts by simp
qed

end
