(* ===== verification/Go_Float.thy ===== *)
theory Go_Float
  imports Complex_Main
begin

text \<open>
  \<^verbatim>\<open>float64\<close> arithmetic on exact rationals: every operation is the exact one rounded to nearest,
  ties to even, with gradual underflow; a result out of range is \<open>None\<close>, an infinity.
\<close>

section \<open>Rounding\<close>

text \<open>The binary length of a number, and a power of two with an integer exponent.\<close>

fun bit_len :: "nat \<Rightarrow> nat" where
  "bit_len n = (if n = 0 then 0 else Suc (bit_len (n div 2)))"

declare bit_len.simps [simp del]

definition pow2 :: "int \<Rightarrow> rat" where
  "pow2 k = (if 0 \<le> k then 2 ^ nat k else 1 / 2 ^ nat (- k))"

definition round_half_even :: "rat \<Rightarrow> int" where
  "round_half_even x =
    (let f = \<lfloor>x\<rfloor>; r = x - of_int f in
     if r < 1 / 2 then f else if r > 1 / 2 then f + 1 else if even f then f else f + 1)"

text \<open>The exponent of a positive rational: the power of two at or below it.\<close>

definition rat_exponent :: "rat \<Rightarrow> int" where
  "rat_exponent a =
    (let (n, d) = quotient_of a;
         e = int (bit_len (nat n)) - int (bit_len (nat d))
     in if a < pow2 e then e - 1 else e)"

text \<open>\<^verbatim>\<open>strconv.ParseFloat(s, 64)\<close> on the exact value: to nearest, ties to even, gradual underflow,
  and out of range when the result would reach \<open>2\<^sup>1\<^sup>0\<^sup>2\<^sup>4\<close>.\<close>

definition float64_round :: "rat \<Rightarrow> rat option" where
  "float64_round q =
    (if q = 0 then Some 0
     else
       (let a = \<bar>q\<bar>;
            p = max (rat_exponent a - 52) (- 1074);
            r = of_int (round_half_even (a / pow2 p)) * pow2 p
        in if pow2 1024 \<le> r then None else Some (if q < 0 then - r else r)))"

text \<open>Rounding keeps the sign and never leaves the range of a bound that is itself a float.\<close>

lemma pow2_pos: "0 < pow2 k"
  by (simp add: pow2_def)

lemma round_half_even_nonneg: "0 \<le> x \<Longrightarrow> 0 \<le> round_half_even x"
  by (simp add: round_half_even_def Let_def)

lemma float64_nonneg: "0 \<le> q \<Longrightarrow> float64_round q = Some r \<Longrightarrow> 0 \<le> r"
  using round_half_even_nonneg [of "\<bar>q\<bar> / pow2 (max (rat_exponent \<bar>q\<bar> - 52) (- 1074))"]
    pow2_pos [of "max (rat_exponent \<bar>q\<bar> - 52) (- 1074)"]
  by (auto simp: float64_round_def Let_def split: if_splits)

section \<open>Integers survive float64\<close>

lemma bit_len_1: "bit_len (Suc 0) = Suc 0"
  by (simp add: bit_len.simps [of "Suc 0"] bit_len.simps [of 0])

lemma bit_len_bounds: "n \<noteq> 0 \<Longrightarrow> 2 ^ (bit_len n - 1) \<le> n \<and> n < 2 ^ bit_len n \<and> 0 < bit_len n"
proof (induction n rule: bit_len.induct)
  case (1 n)
  show ?case
  proof (cases "n = 1")
    case True
    then show ?thesis by (simp add: bit_len_1)
  next
    case False
    with 1 have IH: "2 ^ (bit_len (n div 2) - 1) \<le> n div 2" "n div 2 < 2 ^ bit_len (n div 2)" "0 < bit_len (n div 2)"
      by auto
    have b: "bit_len n = Suc (bit_len (n div 2))" using 1(2) by (simp add: bit_len.simps [of n])
    have "(2::nat) ^ bit_len (n div 2) = 2 * 2 ^ (bit_len (n div 2) - 1)"
      using IH(3) by (metis Suc_diff_1 power_Suc)
    moreover have "2 * (n div 2) \<le> n" "n < 2 * (n div 2) + 2" by linarith+
    moreover have "(2::nat) ^ bit_len n = 2 * 2 ^ bit_len (n div 2)" using b by simp
    moreover have pred: "bit_len n - 1 = bit_len (n div 2)" using b by simp
    ultimately show ?thesis using IH b unfolding pred by (intro conjI; linarith)
  qed
qed

lemma bit_len_le: "n < 2 ^ k \<Longrightarrow> bit_len n \<le> k"
proof (cases "n = 0")
  case False
  assume "n < 2 ^ k"
  with bit_len_bounds [OF False] have "(2::nat) ^ (bit_len n - 1) < 2 ^ k" by linarith
  then show ?thesis by (simp add: power_strict_increasing_iff)
qed (simp add: bit_len.simps [of 0])

lemma round_half_even_int: "round_half_even (of_int i) = i"
  by (simp add: round_half_even_def)

lemma rat_exponent_nat:
  assumes "n \<noteq> 0"
  shows "rat_exponent (of_nat n) = int (bit_len n) - 1"
proof -
  have q: "quotient_of (of_nat n) = (int n, 1)"
    using quotient_of_int [of "int n"] by simp
  have "of_nat (2 ^ (bit_len n - 1)) \<le> (of_nat n :: rat)"
    using bit_len_bounds [OF assms] by (intro of_nat_mono) simp
  moreover have "nat (int (bit_len n) - 1) = bit_len n - 1" by simp
  ultimately have "\<not> of_nat n < pow2 (int (bit_len n) - 1)"
    using bit_len_bounds [OF assms] by (simp add: pow2_def)
  then show ?thesis unfolding rat_exponent_def q by (simp add: bit_len_1 Let_def)
qed

lemma float64_nat:
  assumes "n < 2 ^ 53"
  shows "n = 0 \<or> (let p = max (rat_exponent (of_nat n) - 52) (- 1074) in
    of_int (round_half_even (of_nat n / pow2 p)) * pow2 p = of_nat n)"
proof (cases "n = 0")
  case False
  let ?p = "int (bit_len n) - 53"
  have p: "max (rat_exponent (of_nat n) - 52) (- 1074) = ?p"
    unfolding rat_exponent_nat [OF False] by simp
  have le: "?p \<le> 0" using bit_len_le [OF assms] by simp
  define k where "k = nat (- ?p)"
  have pow: "pow2 ?p = 1 / 2 ^ k"
    using le by (cases "?p = 0") (auto simp: pow2_def k_def)
  have "of_nat n / pow2 ?p = of_int (int n * 2 ^ k)"
    unfolding pow by simp
  then have "round_half_even (of_nat n / pow2 ?p) = int n * 2 ^ k"
    by (simp only: round_half_even_int)
  then show ?thesis unfolding p Let_def pow by simp
qed simp

lemma float64_int:
  assumes "\<bar>i\<bar> < 2 ^ 53"
  shows "float64_round (of_int i) = Some (of_int i)"
proof (cases "i = 0")
  case False
  define n where "n = nat \<bar>i\<bar>"
  have n: "n \<noteq> 0" "n < 2 ^ 53" "\<bar>of_int i\<bar> = (of_nat n :: rat)"
    using False assms by (auto simp: n_def)
  have "of_nat n < pow2 1024"
  proof -
    have "(of_nat n :: rat) < of_nat (2 ^ 53)" using n(2) by (simp only: of_nat_less_iff)
    also have "\<dots> \<le> 2 ^ 1024"
      unfolding of_nat_power of_nat_numeral by (rule power_increasing) simp_all
    finally show ?thesis by (simp add: pow2_def)
  qed
  then show ?thesis
    using float64_nat [OF n(2)] n False unfolding float64_round_def Let_def n(3)
    by (auto simp: n_def of_nat_nat)
qed (simp add: float64_round_def)




section \<open>Rounding below an integer\<close>

lemma pow2_diff: "pow2 (int i - int j) = 2 ^ i / 2 ^ j"
proof (cases "j \<le> i")
  case True
  then have "nat (int i - int j) = i - j" by simp
  with True show ?thesis by (simp add: pow2_def power_diff)
next
  case False
  then have "nat (- (int i - int j)) = j - i" by simp
  with False show ?thesis by (simp add: pow2_def power_diff)
qed

lemma rat_exponent_le:
  assumes "0 < a"
  shows "pow2 (rat_exponent a) \<le> a"
proof -
  obtain n d where q: "quotient_of a = (n, d)" by fastforce
  have d: "0 < d" using quotient_of_denom_pos [OF q] .
  have a: "a = of_int n / of_int d" using quotient_of_div [OF q] .
  then have n: "0 < n" using assms d by (simp add: zero_less_divide_iff)
  define e where "e = int (bit_len (nat n)) - int (bit_len (nat d))"
  show ?thesis
  proof (cases "a < pow2 e")
    case True
    have bn: "2 ^ (bit_len (nat n) - 1) \<le> nat n" "0 < bit_len (nat n)" and bd: "nat d < 2 ^ bit_len (nat d)"
      using bit_len_bounds [of "nat n"] bit_len_bounds [of "nat d"] n d by auto
    have "(of_nat (2 ^ (bit_len (nat n) - 1)) :: rat) \<le> of_nat (nat n)" using bn(1) by (simp only: of_nat_le_iff)
    then have ln: "2 ^ (bit_len (nat n) - 1) \<le> (of_int n :: rat)" using n by simp
    have "(of_nat (nat d) :: rat) < of_nat (2 ^ bit_len (nat d))" using bd by (simp only: of_nat_less_iff)
    then have ld: "(of_int d :: rat) < 2 ^ bit_len (nat d)" using d by simp
    have "e - 1 = int (bit_len (nat n) - 1) - int (bit_len (nat d))" using bn(2) by (simp add: e_def)
    then have "pow2 (e - 1) = 2 ^ (bit_len (nat n) - 1) / 2 ^ bit_len (nat d)" by (simp only: pow2_diff)
    also have "\<dots> \<le> a" unfolding a using ln ld d n by (intro frac_le) simp_all
    finally show ?thesis using True q by (simp add: rat_exponent_def e_def)
  qed (simp add: rat_exponent_def q e_def)
qed

lemma round_half_even_le: "x \<le> of_int k \<Longrightarrow> round_half_even x \<le> k"
proof -
  assume x: "x \<le> of_int k"
  show ?thesis
  proof (cases "\<lfloor>x\<rfloor> < k")
    case True
    then show ?thesis by (simp add: round_half_even_def Let_def)
  next
    case False
    then have "\<lfloor>x\<rfloor> = k" using x by (metis floor_mono floor_of_int le_less)
    then have "x - of_int \<lfloor>x\<rfloor> < 1 / 2" using x by simp
    then show ?thesis using \<open>\<lfloor>x\<rfloor> = k\<close> by (simp add: round_half_even_def Let_def)
  qed
qed

lemma pow2_mono: "i \<le> j \<Longrightarrow> pow2 i \<le> pow2 j"
proof -
  assume "i \<le> j"
  define k where "k = nat (j - i)"
  have "pow2 j = pow2 i * 2 ^ k"
  proof -
    obtain m n where i: "i = int m - int n" by (metis int_diff_cases)
    have "j = int (m + k) - int n" using \<open>i \<le> j\<close> i by (simp add: k_def)
    then show ?thesis unfolding i by (simp only: pow2_diff power_add) simp
  qed
  then show ?thesis using pow2_pos [of i] by (simp add: mult_le_cancel_left1)
qed

lemma float64_below_int:
  assumes "0 \<le> q" "q \<le> of_int m" "m < 2 ^ 53"
  shows "\<exists>r. float64_round q = Some r \<and> 0 \<le> r \<and> r \<le> of_int m"
proof (cases "q = 0")
  case False
  then have q: "0 < q" "\<bar>q\<bar> = q" using assms(1) by simp_all
  define p where "p = max (rat_exponent q - 52) (- 1074)"
  define r where "r = of_int (round_half_even (q / pow2 p)) * pow2 p"
  have m: "(of_int m :: rat) < 2 ^ 53"
  proof -
    have "(of_int m :: rat) < of_int (2 ^ 53)" using assms(3) by (simp only: of_int_less_iff)
    then show ?thesis by simp
  qed
  have "rat_exponent q \<le> 52"
  proof (rule ccontr)
    assume "\<not> ?thesis"
    then have "pow2 53 \<le> pow2 (rat_exponent q)" by (intro pow2_mono) simp
    with rat_exponent_le [OF q(1)] assms(2) m show False by (simp add: pow2_def)
  qed
  then have p: "p \<le> 0" by (simp add: p_def)
  have "of_int m / pow2 p = of_int (m * 2 ^ nat (- p))"
    using p by (cases "p = 0") (simp_all add: pow2_def)
  then have "q / pow2 p \<le> of_int (m * 2 ^ nat (- p))"
    using assms(2) pow2_pos [of p] by (metis divide_right_mono less_imp_le)
  then have "round_half_even (q / pow2 p) \<le> m * 2 ^ nat (- p)" by (rule round_half_even_le)
  then have "of_int (round_half_even (q / pow2 p)) \<le> (of_int (m * 2 ^ nat (- p)) :: rat)" by (simp only: of_int_le_iff)
  then have "r \<le> of_int (m * 2 ^ nat (- p)) * pow2 p"
    unfolding r_def using pow2_pos [of p] by (intro mult_right_mono) simp_all
  also have "\<dots> = of_int m" using p by (cases "p = 0") (simp_all add: pow2_def)
  finally have le: "r \<le> of_int m" .
  have "(2::rat) ^ 53 \<le> 2 ^ 1024" by (rule power_increasing) simp_all
  then have "r < pow2 1024" using le m by (simp add: pow2_def)
  then have "float64_round q = Some r"
    using q by (simp add: float64_round_def Let_def r_def p_def)
  with le float64_nonneg [OF assms(1)] show ?thesis by blast
qed (use assms in \<open>simp add: float64_round_def\<close>)

end
