(* ===== verification/Intake_Json.thy ===== *)
theory Intake_Json
  imports Go_Json Go_Files Go_Float "HOL-Library.AList"
begin

text \<open>
  The JSON intake (\<^verbatim>\<open>jsonintake.go\<close>) and the part of \<^verbatim>\<open>encoding/json\<close> decoding it shares
  with the live intake: struct fields matched by name up to case folding, \<^verbatim>\<open>null\<close>, repeated
  members, type errors, and numbers rounded to \<^verbatim>\<open>float64\<close>. Every caller drops what it decoded
  when there was any error, so a decoder gives \<open>None\<close> on the first one.
\<close>

section \<open>Decoding\<close>

text \<open>Decoding a member list into a value already there, the way \<^verbatim>\<open>object\<close> walks the members.\<close>

fun opt_fold :: "('a \<Rightarrow> 's \<Rightarrow> 's option) \<Rightarrow> 'a list \<Rightarrow> 's \<Rightarrow> 's option" where
  "opt_fold f [] s = Some s"
| "opt_fold f (x # xs) s = (case f x s of None \<Rightarrow> None | Some s' \<Rightarrow> opt_fold f xs s')"

text \<open>Into \<^verbatim>\<open>any\<close>: the last of repeated members wins.\<close>

fun decode_any :: "raw \<Rightarrow> json option"
and decode_any_list :: "raw list \<Rightarrow> json list option"
and decode_any_members :: "(string \<times> raw) list \<Rightarrow> jmap \<Rightarrow> jmap option" where
  "decode_any RawNull = Some JNull"
| "decode_any (RawBool b) = Some (JBool b)"
| "decode_any (RawNum lit q) = map_option JNum (float64_round q)"
| "decode_any (RawStr s) = Some (JStr s)"
| "decode_any (RawArr vs) = map_option JArr (decode_any_list vs)"
| "decode_any (RawObj kvs) = map_option JObj (decode_any_members kvs [])"
| "decode_any_list [] = Some []"
| "decode_any_list (v # vs) =
    (case decode_any v of
       None \<Rightarrow> None
     | Some x \<Rightarrow> map_option (\<lambda>xs. x # xs) (decode_any_list vs))"
| "decode_any_members [] m = Some m"
| "decode_any_members ((k, v) # kvs) m =
    (case decode_any v of
       None \<Rightarrow> None
     | Some x \<Rightarrow> decode_any_members kvs (AList.update k x m))"

text \<open>Into a \<^verbatim>\<open>string\<close> and into a \<^verbatim>\<open>map[string]any\<close>, each over the value already there.\<close>

definition decode_string :: "string \<Rightarrow> raw \<Rightarrow> string option" where
  "decode_string old v = (case v of RawStr s \<Rightarrow> Some s | RawNull \<Rightarrow> Some old | _ \<Rightarrow> None)"

definition decode_map :: "jmap option \<Rightarrow> raw \<Rightarrow> jmap option option" where
  "decode_map old v =
    (case v of
       RawObj kvs \<Rightarrow> map_option Some (decode_any_members kvs (case old of None \<Rightarrow> [] | Some m \<Rightarrow> m))
     | RawNull \<Rightarrow> Some None
     | _ \<Rightarrow> None)"

text \<open>Into an \<^verbatim>\<open>int\<close>: the literal must be an integer in range.\<close>

definition decode_int :: "int \<Rightarrow> raw \<Rightarrow> int option" where
  "decode_int old v =
    (case v of
       RawNum lit q \<Rightarrow>
         (let ds = (if lit \<noteq> [] \<and> hd lit = CHR ''-'' then tl lit else lit) in
          if list_all is_digit ds \<and> - (2 ^ 63) \<le> \<lfloor>q\<rfloor> \<and> \<lfloor>q\<rfloor> < 2 ^ 63 then Some \<lfloor>q\<rfloor> else None)
     | RawNull \<Rightarrow> Some old
     | _ \<Rightarrow> None)"

text \<open>A member belongs to a struct field when the names are equal up to case folding; the field names
  are ASCII, to which only two other runes fold: the long s and the Kelvin sign.\<close>

definition fold_rune :: "nat \<Rightarrow> nat" where
  "fold_rune r =
    (if 65 \<le> r \<and> r \<le> 90 then r + 32 else if r = 383 then 115 else if r = 8490 then 107 else r)"

definition field_name :: "string \<Rightarrow> string \<Rightarrow> bool" where
  "field_name key field \<longleftrightarrow>
    map (\<lambda>(r, _). fold_rune r) (runes key) = map (\<lambda>(r, _). fold_rune r) (runes field)"

record toolJSON =
  tjName :: string
  tjDescription :: string
  tjInputSchema :: "jmap option"

definition zero_toolJSON :: toolJSON where
  "zero_toolJSON = \<lparr>tjName = '''', tjDescription = '''', tjInputSchema = None\<rparr>"

definition decode_tool_member :: "string \<times> raw \<Rightarrow> toolJSON \<Rightarrow> toolJSON option" where
  "decode_tool_member kv t =
    (if field_name (fst kv) ''name''
       then map_option (\<lambda>s. t\<lparr>tjName := s\<rparr>) (decode_string (tjName t) (snd kv))
     else if field_name (fst kv) ''description''
       then map_option (\<lambda>s. t\<lparr>tjDescription := s\<rparr>) (decode_string (tjDescription t) (snd kv))
     else if field_name (fst kv) ''inputSchema''
       then map_option (\<lambda>m. t\<lparr>tjInputSchema := m\<rparr>) (decode_map (tjInputSchema t) (snd kv))
     else Some t)"

definition decode_tool :: "toolJSON \<Rightarrow> raw \<Rightarrow> toolJSON option" where
  "decode_tool t v =
    (case v of
       RawObj kvs \<Rightarrow> opt_fold decode_tool_member kvs t
     | RawNull \<Rightarrow> Some t
     | _ \<Rightarrow> None)"

text \<open>Into a slice: an element decodes over the element already at its index, as a second member of
  the same field finds it; a new element starts from the zero value.\<close>

fun decode_elements :: "toolJSON list \<Rightarrow> raw list \<Rightarrow> toolJSON list option" where
  "decode_elements old [] = Some []"
| "decode_elements old (v # vs) =
    (case decode_tool (case old of [] \<Rightarrow> zero_toolJSON | t # _ \<Rightarrow> t) v of
       None \<Rightarrow> None
     | Some t \<Rightarrow> map_option (\<lambda>ts. t # ts) (decode_elements (tl old) vs))"

definition decode_tools :: "toolJSON list option \<Rightarrow> raw \<Rightarrow> toolJSON list option option" where
  "decode_tools old v =
    (case v of
       RawArr vs \<Rightarrow> map_option Some (decode_elements (case old of None \<Rightarrow> [] | Some ts \<Rightarrow> ts) vs)
     | RawNull \<Rightarrow> Some None
     | _ \<Rightarrow> None)"

text \<open>Into a struct whose one field is the slice \<^verbatim>\<open>tools\<close>.\<close>

definition decode_envelope :: "raw \<Rightarrow> toolJSON list option option" where
  "decode_envelope v =
    (case v of
       RawObj kvs \<Rightarrow>
         opt_fold (\<lambda>kv tools. if field_name (fst kv) ''tools'' then decode_tools tools (snd kv) else Some tools)
           kvs None
     | RawNull \<Rightarrow> Some None
     | _ \<Rightarrow> None)"

section \<open>The intake\<close>

text \<open>The marshal and unmarshal in between give the three fields back: they are decoded values.\<close>

definition convertTools :: "toolJSON list \<Rightarrow> tool list" where
  "convertTools ts =
    map (\<lambda>t. \<lparr>Name = tjName t, Description = tjDescription t, InputSchema = tjInputSchema t,
              SourceFile = '''', SourceLine = 0\<rparr>) ts"

definition parseToolsJSON :: "string \<Rightarrow> tool list result" where
  "parseToolsJSON text =
    (let failed = Inl (''expected {'' @ [CHR 0x22] @ ''tools'' @ [CHR 0x22] @
           '': [...]} or a [...] array of tool objects'')
     in case json_parse text of
          None \<Rightarrow> failed
        | Some v \<Rightarrow>
            (case decode_envelope v of
               Some (Some tools) \<Rightarrow> Inr (convertTools tools)
             | _ \<Rightarrow>
                 (case decode_tools None v of
                    Some bare \<Rightarrow> Inr (convertTools (case bare of None \<Rightarrow> [] | Some tools \<Rightarrow> tools))
                  | None \<Rightarrow> failed)))"

definition LoadToolsJSON :: "string \<Rightarrow> node \<Rightarrow> toolset result" where
  "LoadToolsJSON path n =
    (case node_read n of
       OpenFails e \<Rightarrow> Inl (''read '' @ path @ '': '' @ e)
     | ReadFails e \<Rightarrow> Inl (''read '' @ path @ '': '' @ e)
     | Content text \<Rightarrow>
         (case parseToolsJSON text of
            Inl e \<Rightarrow> Inl (''parse '' @ path @ '': '' @ e)
          | Inr tools \<Rightarrow> Inr \<lparr>Tools = tools, Source = path\<rparr>))"


section \<open>Reading back an advertised tool list\<close>

text \<open>The value a document decodes to, and the documents that decode to it exactly: valid UTF-8,
  integers a float64 holds, no repeated keys.\<close>

fun doc_any :: "jdoc \<Rightarrow> json" where
  "doc_any (DStr s) = JStr s"
| "doc_any (DInt i) = JNum (of_int i)"
| "doc_any (DBool b) = JBool b"
| "doc_any (DArr xs) = JArr (map doc_any xs)"
| "doc_any (DObj kxs) = JObj (map (\<lambda>(k, x). (k, doc_any x)) kxs)"

fun doc_ok :: "jdoc \<Rightarrow> bool" where
  "doc_ok (DStr s) = clean s"
| "doc_ok (DInt i) = (\<bar>i\<bar> < 2 ^ 53)"
| "doc_ok (DBool b) = True"
| "doc_ok (DArr xs) = list_all doc_ok xs"
| "doc_ok (DObj kxs) = (distinct (map fst kxs) \<and> list_all (\<lambda>(k, x). clean k \<and> doc_ok x) kxs)"

lemma update_new: "k \<notin> fst ` set m \<Longrightarrow> AList.update k v m = m @ [(k, v)]"
  by (induction m) auto

lemma decode_any_list_map:
  "(\<forall>x\<in>set xs. decode_any (doc_value x) = Some (doc_any x)) \<Longrightarrow>
    decode_any_list (map doc_value xs) = Some (map doc_any xs)"
  by (induction xs) auto

lemma decode_any_members_map:
  assumes "\<forall>(k, x)\<in>set kxs. clean k \<and> decode_any (doc_value x) = Some (doc_any x)"
    and "distinct (map fst kxs)" and "fst ` set m \<inter> fst ` set kxs = {}"
  shows "decode_any_members (map (\<lambda>(k, x). (utf8_clean k, doc_value x)) kxs) m =
    Some (m @ map (\<lambda>(k, x). (k, doc_any x)) kxs)"
  using assms
proof (induction kxs arbitrary: m)
  case (Cons kx kxs)
  obtain k x where kx: "kx = (k, x)" by fastforce
  with Cons.prems have "clean k" "decode_any (doc_value x) = Some (doc_any x)" "k \<notin> fst ` set m" by auto
  then have "decode_any_members (map (\<lambda>(k, x). (utf8_clean k, doc_value x)) (kx # kxs)) m =
      decode_any_members (map (\<lambda>(k, x). (utf8_clean k, doc_value x)) kxs) (m @ [(k, doc_any x)])"
    by (simp add: kx clean_def update_new)
  moreover have "fst ` set (m @ [(k, doc_any x)]) \<inter> fst ` set kxs = {}" using Cons.prems(2,3) kx by auto
  ultimately show ?case using Cons.IH [of "m @ [(k, doc_any x)]"] Cons.prems kx by simp
qed simp

lemma decode_any_doc: "doc_ok x \<Longrightarrow> decode_any (doc_value x) = Some (doc_any x)"
proof (induction x)
  case (DArr xs)
  then show ?case by (simp add: decode_any_list_map list_all_iff)
next
  case (DObj kxs)
  have "\<forall>(k, x)\<in>set kxs. clean k \<and> decode_any (doc_value x) = Some (doc_any x)"
    using DObj by (fastforce simp: list_all_iff)
  then show ?case using decode_any_members_map [of kxs "[]"] DObj(2) by simp
qed (simp_all add: clean_def float64_int)

text \<open>A tool as a server advertises it.\<close>

record advert =
  adName :: string
  adDescription :: string
  adSchema :: "(string \<times> jdoc) list"

definition advert_doc :: "advert \<Rightarrow> jdoc" where
  "advert_doc a = DObj [(''name'', DStr (adName a)), (''description'', DStr (adDescription a)),
     (''inputSchema'', DObj (adSchema a))]"

definition advert_tool :: "advert \<Rightarrow> tool" where
  "advert_tool a = \<lparr>Name = adName a, Description = adDescription a,
     InputSchema = Some (map (\<lambda>(k, x). (k, doc_any x)) (adSchema a)), SourceFile = '''', SourceLine = 0\<rparr>"

definition advert_ok :: "advert \<Rightarrow> bool" where
  "advert_ok a \<longleftrightarrow> clean (adName a) \<and> clean (adDescription a) \<and> doc_ok (DObj (adSchema a)) \<and>
     doc_depth (DObj (adSchema a)) \<le> 9000"

lemma field_name_ascii:
  "is_ascii k \<Longrightarrow> is_ascii f \<Longrightarrow> field_name k f \<longleftrightarrow> map (\<lambda>c. fold_rune (byte c)) k = map (\<lambda>c. fold_rune (byte c)) f"
  by (simp add: field_name_def runes_ascii o_def)

lemma int_dec_number: "list_all is_digit (if int_dec i \<noteq> [] \<and> hd (int_dec i) = CHR ''-'' then tl (int_dec i) else int_dec i)"
proof -
  have digits: "list_all is_digit (nat_dec n)" for n
    using nat_dec_digits [of _ n] by (auto simp: list_all_iff is_digit_def)
  show ?thesis
  proof (cases "i < 0")
    case False
    then have d: "int_dec i = nat_dec (nat i)" by (simp add: int_dec_def)
    have "is_digit (hd (nat_dec (nat i)))" using digits [of "nat i"] by (simp add: list_all_iff)
    then have "48 \<le> byte (hd (int_dec i))" unfolding d is_digit_def by simp
    then have "hd (int_dec i) \<noteq> CHR ''-''" by (intro byte_neq) simp
    then show ?thesis using digits [of "nat i"] unfolding d by simp
  qed (simp add: int_dec_def digits)
qed

lemma decode_int_doc: "- (2 ^ 63) \<le> c \<Longrightarrow> c < 2 ^ 63 \<Longrightarrow> decode_int old (doc_value (DInt c)) = Some c"
  using int_dec_number [of c] unfolding decode_int_def doc_value.simps raw.case Let_def by simp

lemma field_names:
  "field_name ''name'' ''name''" "\<not> field_name ''description'' ''name''"
  "field_name ''description'' ''description''" "\<not> field_name ''inputSchema'' ''name''"
  "\<not> field_name ''inputSchema'' ''description''" "field_name ''inputSchema'' ''inputSchema''"
  "field_name ''tools'' ''tools''"
  by (simp_all add: field_name_ascii is_ascii_def fold_rune_def)

lemma field_texts: "utf8_clean ''name'' = ''name''" "utf8_clean ''description'' = ''description''"
  "utf8_clean ''inputSchema'' = ''inputSchema''" "utf8_clean ''tools'' = ''tools''"
  by (rule utf8_clean_ascii; simp add: is_ascii_def)+

lemma decode_advert:
  assumes "advert_ok a"
  shows "decode_tool zero_toolJSON (doc_value (advert_doc a)) =
    Some \<lparr>tjName = adName a, tjDescription = adDescription a,
          tjInputSchema = Some (map (\<lambda>(k, x). (k, doc_any x)) (adSchema a))\<rparr>"
proof -
  have "doc_ok (DObj (adSchema a))" using assms by (simp add: advert_ok_def)
  from decode_any_doc [OF this]
  have "decode_any_members (map (\<lambda>(k, x). (utf8_clean k, doc_value x)) (adSchema a)) [] =
      Some (map (\<lambda>(k, x). (k, doc_any x)) (adSchema a))" by simp
  then show ?thesis
    using assms by (simp add: advert_doc_def decode_tool_def zero_toolJSON_def field_texts decode_tool_member_def
        field_names decode_string_def decode_map_def advert_ok_def clean_def)
qed

lemma decode_adverts:
  assumes "list_all advert_ok as"
  shows "decode_elements [] (map (\<lambda>a. doc_value (advert_doc a)) as) =
    Some (map (\<lambda>a. \<lparr>tjName = adName a, tjDescription = adDescription a,
      tjInputSchema = Some (map (\<lambda>(k, x). (k, doc_any x)) (adSchema a))\<rparr>) as)"
  using assms by (induction as) (simp_all add: decode_advert)

lemma adverts_depth:
  assumes "list_all advert_ok as"
  shows "doc_depth (DObj [(''tools'', DArr (map advert_doc as))]) \<le> maxNestingDepth"
    and "doc_depth (DArr (map advert_doc as)) \<le> maxNestingDepth"
proof -
  have d: "doc_depth (advert_doc a) \<le> 9998 \<and> doc_depth (advert_doc a) \<le> 9999" if "a \<in> set as" for a
  proof -
    have "doc_depth (advert_doc a) = Suc (doc_depth (DObj (adSchema a)))" by (simp add: advert_doc_def)
    moreover have "doc_depth (DObj (adSchema a)) \<le> 9000" using assms that by (simp add: list_all_iff advert_ok_def)
    ultimately show ?thesis by linarith
  qed
  then show "doc_depth (DObj [(''tools'', DArr (map advert_doc as))]) \<le> maxNestingDepth"
    "doc_depth (DArr (map advert_doc as)) \<le> maxNestingDepth"
    by (auto simp: maxNestingDepth_def)
qed

section \<open>Properties\<close>

text \<open>(C16) The JSON intake reads what a server advertises. A tool list with names, descriptions and
  schemas of valid UTF-8, without repeated keys and with integers a float64 holds, printed as JSON
  either in a \<^verbatim>\<open>tools\<close> envelope or as a bare array, parses to exactly these tools in order,
  however long the list and whatever characters need escaping.\<close>

theorem json_intake_roundtrip:
  assumes "list_all advert_ok as"
  shows "parseToolsJSON (Encode (DObj [(''tools'', DArr (map advert_doc as))])) = Inr (map advert_tool as) \<and>
    parseToolsJSON (Encode (DArr (map advert_doc as))) = Inr (map advert_tool as)"
proof -
  have conv: "convertTools (map (\<lambda>a. \<lparr>tjName = adName a, tjDescription = adDescription a,
      tjInputSchema = Some (map (\<lambda>(k, x). (k, doc_any x)) (adSchema a))\<rparr>) as) = map advert_tool as"
    by (simp add: convertTools_def advert_tool_def)
  have vals: "map (doc_value \<circ> advert_doc) as = map (\<lambda>a. doc_value (advert_doc a)) as" by simp
  show ?thesis
    unfolding parseToolsJSON_def Let_def json_parse_Encode [OF adverts_depth(1) [OF assms]]
      json_parse_Encode [OF adverts_depth(2) [OF assms]]
    by (simp add: decode_envelope_def decode_tools_def field_texts field_names vals decode_adverts [OF assms] conv)
qed

theorem json_intake_roundtrip_witness:
  "parseToolsJSON (Encode (DArr [advert_doc \<lparr>adName = ''ping'', adDescription = ''<p>'', adSchema = [(''x'', DInt 3)]\<rparr>])) =
    Inr [\<lparr>Name = ''ping'', Description = ''<p>'', InputSchema = Some [(''x'', JNum 3)], SourceFile = '''',
      SourceLine = 0\<rparr>]"
proof -
  have "list_all advert_ok [\<lparr>adName = ''ping'', adDescription = ''<p>'', adSchema = [(''x'', DInt 3)]\<rparr>]"
    by (simp add: advert_ok_def clean_ascii is_ascii_def)
  from json_intake_roundtrip [OF this] show ?thesis by (simp add: advert_tool_def)
qed


end
