(* ===== verification/Intake_Live.thy ===== *)
theory Intake_Live
  imports Intake_Json Output
begin

text \<open>
  The live intake (\<^verbatim>\<open>liveintake.go\<close>): the handshake with a running server over its standard
  input and output. The server's output is the bytes it sends and the error that ends them; what is
  written to it goes through a writer. The texts of \<^verbatim>\<open>encoding/json\<close>'s own errors are the
  parameter \<open>je\<close>, a function of the text that was decoded.
\<close>

section \<open>Messages\<close>

definition protocolVersion :: string where
  "protocolVersion = ''2024-11-05''"

definition clientInfo :: jdoc where
  "clientInfo = DObj [(''name'', DStr ''mcpcheck''), (''version'', DStr ''0.1.0'')]"

text \<open>An outgoing message; the fields with \<^verbatim>\<open>omitempty\<close> are left out when absent. A map's
  keys are written in sorted order.\<close>

definition message_doc :: "int option \<Rightarrow> string \<Rightarrow> jdoc option \<Rightarrow> jdoc" where
  "message_doc i meth params =
    DObj ([(''jsonrpc'', DStr ''2.0'')] @
      (case i of None \<Rightarrow> [] | Some n \<Rightarrow> [(''id'', DInt n)]) @
      omitempty ''method'' meth @
      (case params of None \<Rightarrow> [] | Some p \<Rightarrow> [(''params'', p)]))"

definition writeMessage :: "'w writer \<Rightarrow> 'w \<Rightarrow> jdoc \<Rightarrow> 'w \<times> string option" where
  "writeMessage wr w msg = wr w (Marshal msg @ [CHR 0x0A])"

definition writeRequest :: "'w writer \<Rightarrow> 'w \<Rightarrow> int \<Rightarrow> string \<Rightarrow> jdoc option \<Rightarrow> 'w \<times> string option" where
  "writeRequest wr w i meth params = writeMessage wr w (message_doc (Some i) meth params)"

definition writeNotification :: "'w writer \<Rightarrow> 'w \<Rightarrow> string \<Rightarrow> jdoc option \<Rightarrow> 'w \<times> string option" where
  "writeNotification wr w meth params = writeMessage wr w (message_doc None meth params)"

record jsonrpcError =
  Code :: int
  ErrMessage :: string

record jsonrpcMessage =
  JSONRPC :: string
  MsgID :: "raw option"
  Method :: string
  Params :: "raw option"
  Result :: "raw option"
  Error :: "jsonrpcError option"

definition zero_message :: jsonrpcMessage where
  "zero_message = \<lparr>JSONRPC = '''', MsgID = None, Method = '''', Params = None, Result = None, Error = None\<rparr>"

definition decode_error_member :: "string \<times> raw \<Rightarrow> jsonrpcError \<Rightarrow> jsonrpcError option" where
  "decode_error_member kv e =
    (if field_name (fst kv) ''code'' then map_option (\<lambda>c. e\<lparr>Code := c\<rparr>) (decode_int (Code e) (snd kv))
     else if field_name (fst kv) ''message''
       then map_option (\<lambda>m. e\<lparr>ErrMessage := m\<rparr>) (decode_string (ErrMessage e) (snd kv))
     else Some e)"

text \<open>Into the \<^verbatim>\<open>*jsonrpcError\<close>: null clears the pointer, an object fills what it points to.\<close>

definition decode_error :: "jsonrpcError option \<Rightarrow> raw \<Rightarrow> jsonrpcError option option" where
  "decode_error old v =
    (case v of
       RawNull \<Rightarrow> Some None
     | RawObj kvs \<Rightarrow>
         map_option Some (opt_fold decode_error_member kvs
           (case old of None \<Rightarrow> \<lparr>Code = 0, ErrMessage = ''''\<rparr> | Some e \<Rightarrow> e))
     | _ \<Rightarrow> None)"

definition decode_message_member :: "string \<times> raw \<Rightarrow> jsonrpcMessage \<Rightarrow> jsonrpcMessage option" where
  "decode_message_member kv m =
    (if field_name (fst kv) ''jsonrpc'' then map_option (\<lambda>s. m\<lparr>JSONRPC := s\<rparr>) (decode_string (JSONRPC m) (snd kv))
     else if field_name (fst kv) ''id'' then Some (m\<lparr>MsgID := Some (snd kv)\<rparr>)
     else if field_name (fst kv) ''method'' then map_option (\<lambda>s. m\<lparr>Method := s\<rparr>) (decode_string (Method m) (snd kv))
     else if field_name (fst kv) ''params'' then Some (m\<lparr>Params := Some (snd kv)\<rparr>)
     else if field_name (fst kv) ''result'' then Some (m\<lparr>Result := Some (snd kv)\<rparr>)
     else if field_name (fst kv) ''error'' then map_option (\<lambda>e. m\<lparr>Error := e\<rparr>) (decode_error (Error m) (snd kv))
     else Some m)"

definition decode_message :: "raw \<Rightarrow> jsonrpcMessage option" where
  "decode_message v =
    (case v of
       RawObj kvs \<Rightarrow> opt_fold decode_message_member kvs zero_message
     | RawNull \<Rightarrow> Some zero_message
     | _ \<Rightarrow> None)"

section \<open>Reading\<close>

text \<open>A buffered reader: the bytes still to come and the error at their end.\<close>

record reader =
  rdBytes :: string
  rdError :: string

definition ReadBytes_nl :: "reader \<Rightarrow> reader \<times> string \<times> string option" where
  "ReadBytes_nl r =
    (let b = rdBytes r in
     if CHR 0x0A \<in> set b
     then (r\<lparr>rdBytes := tl (dropWhile (\<lambda>c. c \<noteq> CHR 0x0A) b)\<rparr>, takeWhile (\<lambda>c. c \<noteq> CHR 0x0A) b @ [CHR 0x0A], None)
     else (r\<lparr>rdBytes := []\<rparr>, b, Some (rdError r)))"

definition readResponse :: "ucd \<Rightarrow> (string \<Rightarrow> string) \<Rightarrow> reader \<Rightarrow> reader \<times> jsonrpcMessage result" where
  "readResponse u je r =
    (case ReadBytes_nl r of
       (r', line, err) \<Rightarrow>
         (r', if err \<noteq> None \<and> length line = 0 then Inl (the err)
              else
                (case (case json_parse line of None \<Rightarrow> None | Some v \<Rightarrow> decode_message v) of
                   None \<Rightarrow> Inl (''decode response: '' @ je line @ '' (line: '' @ strconv_Quote u line @ '')'')
                 | Some msg \<Rightarrow>
                     (case Error msg of
                        Some e \<Rightarrow> Inl (''server returned error '' @ int_dec (Code e) @ '': '' @ ErrMessage e)
                      | None \<Rightarrow> Inr msg))))"

section \<open>The handshake\<close>

definition initialize_params :: jdoc where
  "initialize_params = DObj [(''capabilities'', DObj []), (''clientInfo'', clientInfo),
     (''protocolVersion'', DStr protocolVersion)]"

text \<open>Decoding the result: an absent one is an empty text, which does not parse.\<close>

definition decode_result :: "raw option \<Rightarrow> toolJSON list option option" where
  "decode_result res = (case res of None \<Rightarrow> None | Some v \<Rightarrow> decode_envelope v)"

definition FetchToolsLive :: "ucd \<Rightarrow> (string \<Rightarrow> string) \<Rightarrow> (raw option \<Rightarrow> string) \<Rightarrow> 'w writer \<Rightarrow> 'w \<Rightarrow> reader \<Rightarrow>
    'w \<times> reader \<times> tool list result" where
  "FetchToolsLive u je re wr w r =
    (case writeRequest wr w 1 ''initialize'' (Some initialize_params) of
       (w1, Some e) \<Rightarrow> (w1, r, Inl (''send initialize: '' @ e))
     | (w1, None) \<Rightarrow>
    (case readResponse u je r of
       (r1, Inl e) \<Rightarrow> (w1, r1, Inl (''initialize: '' @ e))
     | (r1, Inr _) \<Rightarrow>
    (case writeNotification wr w1 ''notifications/initialized'' None of
       (w2, Some e) \<Rightarrow> (w2, r1, Inl (''send initialized notification: '' @ e))
     | (w2, None) \<Rightarrow>
    (case writeRequest wr w2 2 ''tools/list'' None of
       (w3, Some e) \<Rightarrow> (w3, r1, Inl (''send tools/list: '' @ e))
     | (w3, None) \<Rightarrow>
    (case readResponse u je r1 of
       (r2, Inl e) \<Rightarrow> (w3, r2, Inl (''tools/list: '' @ e))
     | (r2, Inr resp) \<Rightarrow>
    (case decode_result (Result resp) of
       None \<Rightarrow> (w3, r2, Inl (''parse tools/list result: '' @ re (Result resp)))
     | Some ts \<Rightarrow> (w3, r2, Inr (map (\<lambda>t. \<lparr>Name = tjName t, Description = tjDescription t,
           InputSchema = tjInputSchema t, SourceFile = '''', SourceLine = 0\<rparr>)
         (case ts of None \<Rightarrow> [] | Some ts \<Rightarrow> ts)))))))))"

text \<open>The subprocess, outside the program: whether its pipes and its start fail, and what it sends.\<close>

record 'w subprocess =
  spStdinPipe :: "string option"
  spStdoutPipe :: "string option"
  spStart :: "string option"
  spWriter :: "'w writer"
  spStdin :: 'w
  spStdout :: reader

definition LoadLive :: "ucd \<Rightarrow> (string \<Rightarrow> string) \<Rightarrow> (raw option \<Rightarrow> string) \<Rightarrow> 'w subprocess \<Rightarrow> string list \<Rightarrow>
    toolset result" where
  "LoadLive u je re p cmd =
    (if length cmd = 0 then Inl ''LoadLive: empty command''
     else case spStdinPipe p of
       Some e \<Rightarrow> Inl (''stdin pipe: '' @ e)
     | None \<Rightarrow>
    (case spStdoutPipe p of
       Some e \<Rightarrow> Inl (''stdout pipe: '' @ e)
     | None \<Rightarrow>
    (case spStart p of
       Some e \<Rightarrow> Inl (''start '' @ cmd ! 0 @ '': '' @ e)
     | None \<Rightarrow>
    (case FetchToolsLive u je re (spWriter p) (spStdin p) (spStdout p) of
       (_, _, Inl fetchErr) \<Rightarrow> Inl fetchErr
     | (_, _, Inr tools) \<Rightarrow> Inr \<lparr>Tools = tools, Source = strings_Join cmd '' ''\<rparr>))))"

section \<open>Properties of a conversation\<close>

text \<open>A line the server sends: a document on one line, as \<^verbatim>\<open>Marshal\<close> writes it.\<close>

lemma ReadBytes_line:
  assumes "CHR 0x0A \<notin> set line"
  shows "ReadBytes_nl \<lparr>rdBytes = line @ CHR 0x0A # rest, rdError = e\<rparr> =
    (\<lparr>rdBytes = rest, rdError = e\<rparr>, line @ [CHR 0x0A], None)"
  unfolding ReadBytes_nl_def Let_def reader.select_convs
  using takeWhile_upto [OF assms, of rest] by simp

text \<open>Nothing is lost or invented between reads: the line read and the bytes left make up what was
  there.\<close>

lemma ReadBytes_conserves:
  assumes "ReadBytes_nl r = (r', line, err)"
  shows "rdBytes r = line @ rdBytes r'"
proof (cases "CHR 0x0A \<in> set (rdBytes r)")
  case True
  then show ?thesis
    using assms split_upto [OF True] unfolding ReadBytes_nl_def Let_def by auto
next
  case False
  then show ?thesis using assms by (auto simp: ReadBytes_nl_def Let_def)
qed


text \<open>A response with a result, as a server sends it, and the line that carries it.\<close>

definition response_doc :: "int \<Rightarrow> jdoc \<Rightarrow> jdoc" where
  "response_doc i res = DObj [(''jsonrpc'', DStr ''2.0''), (''id'', DInt i), (''result'', res)]"

definition error_doc :: "int \<Rightarrow> int \<Rightarrow> string \<Rightarrow> jdoc" where
  "error_doc i c m = DObj [(''jsonrpc'', DStr ''2.0''), (''id'', DInt i),
     (''error'', DObj [(''code'', DInt c), (''message'', DStr m)])]"

definition sent_line :: "jdoc \<Rightarrow> string" where
  "sent_line d = Marshal d @ [CHR 0x0A]"

lemma message_field_names:
  "field_name ''jsonrpc'' ''jsonrpc''" "\<not> field_name ''id'' ''jsonrpc''" "field_name ''id'' ''id''"
  "\<not> field_name ''result'' ''jsonrpc''" "\<not> field_name ''result'' ''id''" "\<not> field_name ''result'' ''method''"
  "\<not> field_name ''result'' ''params''" "field_name ''result'' ''result''"
  "\<not> field_name ''error'' ''jsonrpc''" "\<not> field_name ''error'' ''id''" "\<not> field_name ''error'' ''method''"
  "\<not> field_name ''error'' ''params''" "\<not> field_name ''error'' ''result''" "field_name ''error'' ''error''"
  "field_name ''code'' ''code''" "\<not> field_name ''message'' ''code''" "field_name ''message'' ''message''"
  by (simp_all add: field_name_ascii is_ascii_def fold_rune_def)

lemma message_texts:
  "utf8_clean ''jsonrpc'' = ''jsonrpc''" "utf8_clean ''id'' = ''id''" "utf8_clean ''result'' = ''result''"
  "utf8_clean ''error'' = ''error''" "utf8_clean ''code'' = ''code''" "utf8_clean ''message'' = ''message''"
  "utf8_clean ''2.0'' = ''2.0''"
  by (rule utf8_clean_ascii; simp add: is_ascii_def)+

lemma decode_message_response:
  "decode_message (doc_value (response_doc i res)) =
    Some (zero_message\<lparr>JSONRPC := ''2.0'', MsgID := Some (doc_value (DInt i)), Result := Some (doc_value res)\<rparr>)"
  by (simp add: decode_message_def response_doc_def message_texts decode_message_member_def message_field_names
      decode_string_def)

lemma decode_message_error:
  assumes "- (2 ^ 63) \<le> c" "c < 2 ^ 63" "clean m"
  shows "decode_message (doc_value (error_doc i c m)) =
    Some (zero_message\<lparr>JSONRPC := ''2.0'', MsgID := Some (doc_value (DInt i)), Error := Some \<lparr>Code = c, ErrMessage = m\<rparr>\<rparr>)"
proof -
  have "decode_error_member (''code'', doc_value (DInt c)) e = Some (e\<lparr>Code := c\<rparr>)" for e
    unfolding decode_error_member_def fst_conv snd_conv decode_int_doc [OF assms(1,2)] by (simp add: message_field_names)
  moreover have "decode_error_member (''message'', RawStr m) e = Some (e\<lparr>ErrMessage := m\<rparr>)" for e
    by (simp add: decode_error_member_def message_field_names decode_string_def)
  ultimately have "decode_error None (RawObj [(''code'', doc_value (DInt c)), (''message'', RawStr m)]) =
      Some (Some \<lparr>Code = c, ErrMessage = m\<rparr>)"
    by (simp only: decode_error_def) simp
  then show ?thesis
    using assms(3) by (simp add: decode_message_def error_doc_def message_texts decode_message_member_def
        message_field_names decode_string_def clean_def zero_message_def)
qed

lemma readResponse_line:
  assumes "doc_depth d \<le> maxNestingDepth" "decode_message (doc_value d) = Some msg"
  shows "readResponse u je \<lparr>rdBytes = sent_line d @ rest, rdError = e\<rparr> =
    (\<lparr>rdBytes = rest, rdError = e\<rparr>,
     case Error msg of Some err \<Rightarrow> Inl (''server returned error '' @ int_dec (Code err) @ '': '' @ ErrMessage err)
     | None \<Rightarrow> Inr msg)"
proof -
  have "ReadBytes_nl \<lparr>rdBytes = sent_line d @ rest, rdError = e\<rparr> = (\<lparr>rdBytes = rest, rdError = e\<rparr>, sent_line d, None)"
    using ReadBytes_line [OF Marshal_no_newline [of d]] by (simp add: sent_line_def)
  then show ?thesis
    unfolding readResponse_def using json_parse_Marshal_line [OF assms(1)] assms(2) by (simp add: sent_line_def)
qed


text \<open>The three lines the client may send, in order; and a writer that records each line it is given
  and fails where it is told to.\<close>

definition handshake_lines :: "string list" where
  "handshake_lines = map sent_line
     [message_doc (Some 1) ''initialize'' (Some initialize_params),
      message_doc None ''notifications/initialized'' None,
      message_doc (Some 2) ''tools/list'' None]"

definition recorder :: "(nat \<Rightarrow> string option) \<Rightarrow> string list writer" where
  "recorder fails w s = (w @ [s], fails (length w))"

definition hello_line :: string where "hello_line = handshake_lines ! 0"
definition ready_line :: string where "ready_line = handshake_lines ! 1"
definition list_line :: string where "list_line = handshake_lines ! 2"

lemma handshake_lines: "handshake_lines = [hello_line, ready_line, list_line]"
  by (simp add: hello_line_def ready_line_def list_line_def handshake_lines_def)

lemma writes:
  "writeRequest wr w 1 ''initialize'' (Some initialize_params) = wr w hello_line"
  "writeNotification wr w ''notifications/initialized'' None = wr w ready_line"
  "writeRequest wr w 2 ''tools/list'' None = wr w list_line"
  by (simp_all add: writeRequest_def writeNotification_def writeMessage_def hello_line_def ready_line_def
      list_line_def handshake_lines_def sent_line_def)

text \<open>What is left when no write fails: the two responses decide.\<close>

lemma fetch_no_write_error:
  assumes "readResponse u je r = (r1, Inr hello)"
  shows "FetchToolsLive u je re (recorder (\<lambda>_. None)) [] r =
    (handshake_lines,
     case readResponse u je r1 of
       (r2, Inl e) \<Rightarrow> (r2, Inl (''tools/list: '' @ e))
     | (r2, Inr resp) \<Rightarrow>
         (r2, case decode_result (Result resp) of
                None \<Rightarrow> Inl (''parse tools/list result: '' @ re (Result resp))
              | Some ts \<Rightarrow> Inr (convertTools (case ts of None \<Rightarrow> [] | Some ts \<Rightarrow> ts))))"
  unfolding FetchToolsLive_def writes recorder_def handshake_lines assms
  by (simp add: convertTools_def split: prod.split sum.split option.split)

section \<open>Properties\<close>

text \<open>(C14) A successful conversation. Whatever a server answers to \<^verbatim>\<open>initialize\<close>, and whatever it sends
  after its second line, if that line is a response whose result lists tools with clean names,
  descriptions and schemas, the live intake returns exactly these tools, in order and without a source
  position, having written exactly the three lines of the handshake and read exactly the two responses.\<close>

theorem live_conversation:
  assumes "doc_depth (response_doc 1 info) \<le> maxNestingDepth"
    and "list_all advert_ok as" "\<forall>a\<in>set as. doc_depth (advert_doc a) \<le> 9000"
  shows "FetchToolsLive u je re (recorder (\<lambda>_. None)) [] 
      \<lparr>rdBytes = sent_line (response_doc 1 info) @
         sent_line (response_doc 2 (DObj [(''tools'', DArr (map advert_doc as))])) @ rest, rdError = e\<rparr> =
    (handshake_lines, \<lparr>rdBytes = rest, rdError = e\<rparr>, Inr (map advert_tool as))"
proof -
  let ?tools = "DObj [(''tools'', DArr (map advert_doc as))]"
  have depth: "doc_depth (response_doc 2 ?tools) \<le> maxNestingDepth"
    using assms(3) by (auto simp: response_doc_def maxNestingDepth_def)
  have vals: "map (doc_value \<circ> advert_doc) as = map (\<lambda>a. doc_value (advert_doc a)) as" by simp
  have result: "decode_result (Some (doc_value ?tools)) =
      Some (Some (map (\<lambda>a. \<lparr>tjName = adName a, tjDescription = adDescription a,
        tjInputSchema = Some (map (\<lambda>(k, x). (k, doc_any x)) (adSchema a))\<rparr>) as))"
    by (simp add: decode_result_def decode_envelope_def decode_tools_def field_texts field_names vals
        decode_adverts [OF assms(2)])
  have conv: "convertTools (map (\<lambda>a. \<lparr>tjName = adName a, tjDescription = adDescription a,
      tjInputSchema = Some (map (\<lambda>(k, x). (k, doc_any x)) (adSchema a))\<rparr>) as) = map advert_tool as"
    by (simp add: convertTools_def advert_tool_def)
  have first: "readResponse u je \<lparr>rdBytes = sent_line (response_doc 1 info) @ more, rdError = e\<rparr> =
      (\<lparr>rdBytes = more, rdError = e\<rparr>, Inr (zero_message\<lparr>JSONRPC := ''2.0'', MsgID := Some (doc_value (DInt 1)),
        Result := Some (doc_value info)\<rparr>))" for more
    unfolding readResponse_line [OF assms(1) decode_message_response] by (simp add: zero_message_def)
  show ?thesis
    unfolding fetch_no_write_error [OF first] readResponse_line [OF depth decode_message_response]
    by (simp add: zero_message_def result conv del: doc_value.simps)
qed

theorem live_conversation_witness:
  "FetchToolsLive ascii_ucd id (\<lambda>_. '''') (recorder (\<lambda>_. None)) [] \<lparr>rdBytes = sent_line (response_doc 1 (DObj [])) @
      sent_line (response_doc 2 (DObj [(''tools'', DArr [advert_doc \<lparr>adName = ''ping'', adDescription = ''p'',
        adSchema = []\<rparr>])])) @ ''x'', rdError = ''EOF''\<rparr> =
    (handshake_lines, \<lparr>rdBytes = ''x'', rdError = ''EOF''\<rparr>,
     Inr [\<lparr>Name = ''ping'', Description = ''p'', InputSchema = Some [], SourceFile = '''', SourceLine = 0\<rparr>])"
proof -
  let ?a = "\<lparr>adName = ''ping'', adDescription = ''p'', adSchema = []\<rparr>"
  have "list_all advert_ok [?a]" by (simp add: advert_ok_def clean_ascii is_ascii_def)
  moreover have "doc_depth (response_doc 1 (DObj [])) \<le> maxNestingDepth"
    by (simp add: response_doc_def maxNestingDepth_def)
  moreover have "\<forall>a\<in>set [?a]. doc_depth (advert_doc a) \<le> 9000" by (simp add: advert_doc_def)
  ultimately show ?thesis
    using live_conversation [of "DObj []" "[?a]" ascii_ucd id "\<lambda>_. ''''"] by (simp add: advert_tool_def)
qed

text \<open>(C15) The order of the protocol. Whatever the server sends and wherever a write fails, the lines written
  are an initial part of initialize, initialized, tools/list; the second is written only after a first
  response was read; and tools are returned only when all three were written.\<close>

theorem live_protocol_order:
  "case FetchToolsLive u je re (recorder fails) [] r of
     (w, r', res) \<Rightarrow> prefix w handshake_lines \<and> w \<noteq> [] \<and>
       (if length w = 1 then r' = r \<and> fails 0 \<noteq> None \<or> r' = fst (readResponse u je r) \<and> \<not> is_ok res
        else is_ok (snd (readResponse u je r))) \<and>
       (if is_ok res then w = handshake_lines else True)"
  unfolding FetchToolsLive_def writes recorder_def handshake_lines
  by (auto split: option.split prod.split sum.split)

text \<open>A server's refusal is surfaced. When the line the server sends for \<^verbatim>\<open>tools/list\<close> is an error response,
  its code and message are what the caller is told, in the words \<^verbatim>\<open>tools/list: server returned error\<close>.\<close>

theorem live_error_surfaced:
  assumes "doc_depth (response_doc 1 info) \<le> maxNestingDepth"
    and "- (2 ^ 63) \<le> c" "c < 2 ^ 63" "clean m"
  shows "snd (snd (FetchToolsLive u je re (recorder (\<lambda>_. None)) []
      \<lparr>rdBytes = sent_line (response_doc 1 info) @ sent_line (error_doc 2 c m) @ rest, rdError = e\<rparr>)) =
    Inl (''tools/list: server returned error '' @ int_dec c @ '': '' @ m)"
proof -
  have "doc_depth (error_doc 2 c m) \<le> maxNestingDepth" by (simp add: error_doc_def maxNestingDepth_def)
  note err = readResponse_line [OF this decode_message_error [OF assms(2-4)]]
  have first: "readResponse u je \<lparr>rdBytes = sent_line (response_doc 1 info) @ more, rdError = e\<rparr> =
      (\<lparr>rdBytes = more, rdError = e\<rparr>, Inr (zero_message\<lparr>JSONRPC := ''2.0'', MsgID := Some (doc_value (DInt 1)),
        Result := Some (doc_value info)\<rparr>))" for more
    unfolding readResponse_line [OF assms(1) decode_message_response] by (simp add: zero_message_def)
  show ?thesis unfolding fetch_no_write_error [OF first] err by (simp add: zero_message_def)
qed

theorem live_error_surfaced_witness:
  "snd (snd (FetchToolsLive ascii_ucd id (\<lambda>_. '''') (recorder (\<lambda>_. None)) []
      \<lparr>rdBytes = sent_line (response_doc 1 (DObj [])) @ sent_line (error_doc 2 (- 32601) ''no such method''),
       rdError = ''EOF''\<rparr>)) = Inl ''tools/list: server returned error -32601: no such method''"
proof -
  have "clean ''no such method''" by (rule clean_ascii) (simp add: is_ascii_def)
  moreover have "doc_depth (response_doc 1 (DObj [])) \<le> maxNestingDepth"
    by (simp add: response_doc_def maxNestingDepth_def)
  moreover have "int_dec (- 32601) = ''-32601''"
  proof -
    have "digit_char 3 = CHR ''3''" "digit_char 2 = CHR ''2''" "digit_char 6 = CHR ''6''"
      "digit_char 0 = CHR ''0''" "digit_char 1 = CHR ''1''"
      unfolding digit_char_def by (rule char_ofI; simp)+
    then show ?thesis
      by (simp add: int_dec_def nat_dec.simps [of 32601] nat_dec.simps [of 3260] nat_dec.simps [of 326]
          nat_dec.simps [of 32] nat_dec.simps [of 3])
  qed
  ultimately show ?thesis
    using live_error_surfaced [of "DObj []" "- 32601" "''no such method''" ascii_ucd id "\<lambda>_. ''''" "''''" "''EOF''"] by simp
qed

end
