(* ===== verification/Cli.thy ===== *)
theory Cli
  imports Analyze Intake_Source Intake_Live
begin

text \<open>
  The command line (\<^verbatim>\<open>cmd/mcpcheck/main.go\<close>) and the choice of an intake
  (\<^verbatim>\<open>internal/scanner/dispatch.go\<close>). What lies outside the process is a record: the file
  system behind \<^verbatim>\<open>os.Stat\<close>, the subprocess a command starts, the texts of decoding errors
  and the values of durations. The command-line arguments are parsed as \<^verbatim>\<open>flag.Parse\<close> does.
\<close>

record 'p world =
  wProgram :: string
  wStat :: "string \<Rightarrow> node result"
  wSpawn :: "string list \<Rightarrow> 'p subprocess"
  wDecodeError :: "string \<Rightarrow> string"
  wResultError :: "raw option \<Rightarrow> string"
  wDuration :: "string \<Rightarrow> int option"

section \<open>Choosing an intake\<close>

definition dirHasExtension :: "node \<Rightarrow> string \<Rightarrow> bool result" where
  "dirHasExtension n ext =
    (case os_ReadDir n of
       Inl e \<Rightarrow> Inl e
     | Inr entries \<Rightarrow> Inr (list_ex (\<lambda>(name, e). \<not> entry_IsDir e \<and> strings_HasSuffix name ext) entries))"

definition Load :: "'p world \<Rightarrow> string \<Rightarrow> toolset result" where
  "Load env path =
    (case wStat env path of
       Inl e \<Rightarrow> Inl (''stat '' @ path @ '': '' @ e)
     | Inr n \<Rightarrow>
         if stat_IsDir n then
           (if dirHasExtension n ''.py'' = Inr True then LoadPythonDir path n else LoadTypeScriptDir path n)
         else if strings_HasSuffix path ''.json'' then LoadToolsJSON path n
         else if strings_HasSuffix path ''.py'' then LoadPythonFile path n
         else if isTypeScriptSourceFile path then LoadTypeScriptFile path n
         else Inl (''unsupported intake for '' @ path @ '' (want .json, .py, .ts/.tsx/.js/.mjs/.cjs, or a directory)''))"

definition loadLiveCmd :: "ucd \<Rightarrow> 'p world \<Rightarrow> string \<Rightarrow> toolset result" where
  "loadLiveCmd u env live =
    (let parts = strings_Fields live in
     if length parts = 0 then Inl ''--live: empty command''
     else LoadLive u (wDecodeError env) (wResultError env) (wSpawn env parts) parts)"

section \<open>Arguments\<close>

record flags =
  flFormat :: string
  flListRules :: bool
  flLive :: string
  flTimeout :: int

definition default_flags :: flags where
  "default_flags = \<lparr>flFormat = ''text'', flListRules = False, flLive = '''', flTimeout = 30 * 10 ^ 9\<rparr>"

definition usage :: "string \<Rightarrow> string" where
  "usage prog =
    ''usage: '' @ prog @ '' [--format text|json|sarif] <path>'' @ [CHR 0x0A] @
    ''       '' @ prog @ '' --list-rules [--format text|json]'' @ [CHR 0x0A] @
    ''  path: .json (tools/list response), .py / .ts / .tsx / .js / .mjs / .cjs file, or a directory'' @ [CHR 0x0A]"

text \<open>How parsing ends: the flags and the arguments left, or the process stops with what was written to
  standard error and a status.\<close>

datatype parsed = Parsed flags "string list" | Stopped string nat

definition flag_error :: "string \<Rightarrow> string \<Rightarrow> parsed" where
  "flag_error prog msg = Stopped (msg @ [CHR 0x0A] @ usage prog) 2"

definition ParseBool :: "string \<Rightarrow> bool option" where
  "ParseBool s =
    (if s \<in> set [''1'', ''t'', ''T'', ''true'', ''TRUE'', ''True''] then Some True
     else if s \<in> set [''0'', ''f'', ''F'', ''false'', ''FALSE'', ''False''] then Some False else None)"

text \<open>The name of a flag and the value after its equals sign; the sign is never first.\<close>

definition split_flag :: "string \<Rightarrow> string \<times> string option" where
  "split_flag name =
    (let k = Suc (length (takeWhile (\<lambda>c. c \<noteq> CHR ''='') (tl name))) in
     if k < length name then (take k name, Some (drop (Suc k) name)) else (name, None))"

definition set_flag :: "ucd \<Rightarrow> 'p world \<Rightarrow> string \<Rightarrow> string \<Rightarrow> flags \<Rightarrow> (parsed, flags) sum" where
  "set_flag u env name value fl =
    (if name = ''format'' then Inr (fl\<lparr>flFormat := value\<rparr>)
     else if name = ''live'' then Inr (fl\<lparr>flLive := value\<rparr>)
     else case wDuration env value of
       Some d \<Rightarrow> Inr (fl\<lparr>flTimeout := d\<rparr>)
     | None \<Rightarrow> Inl (flag_error (wProgram env)
         (''invalid value '' @ strconv_Quote u value @ '' for flag -'' @ name @ '': parse error'')))"

fun parse_flags :: "ucd \<Rightarrow> 'p world \<Rightarrow> flags \<Rightarrow> string list \<Rightarrow> parsed" where
  "parse_flags u env fl [] = Parsed fl []"
| "parse_flags u env fl (s # args) =
    (if length s < 2 \<or> hd s \<noteq> CHR ''-'' then Parsed fl (s # args)
     else if s = ''--'' then Parsed fl args
     else
       (let body = (if s ! 1 = CHR ''-'' then drop 2 s else drop 1 s) in
        if body = [] \<or> hd body = CHR ''-'' \<or> hd body = CHR ''=''
        then flag_error (wProgram env) (''bad flag syntax: '' @ s)
        else case split_flag body of (name, val) \<Rightarrow>
          if name = ''list-rules'' then
            (case val of
               None \<Rightarrow> parse_flags u env (fl\<lparr>flListRules := True\<rparr>) args
             | Some v \<Rightarrow>
                 (case ParseBool v of
                    Some b \<Rightarrow> parse_flags u env (fl\<lparr>flListRules := b\<rparr>) args
                  | None \<Rightarrow> flag_error (wProgram env)
                      (''invalid boolean value '' @ strconv_Quote u v @ '' for -'' @ name @ '': parse error'')))
          else if name = ''format'' \<or> name = ''live'' \<or> name = ''live-timeout'' then
            (case val of
               Some v \<Rightarrow> (case set_flag u env name v fl of Inl p \<Rightarrow> p | Inr fl' \<Rightarrow> parse_flags u env fl' args)
             | None \<Rightarrow>
                 (case args of
                    [] \<Rightarrow> flag_error (wProgram env) (''flag needs an argument: -'' @ name)
                  | v # args' \<Rightarrow>
                      (case set_flag u env name v fl of Inl p \<Rightarrow> p | Inr fl' \<Rightarrow> parse_flags u env fl' args')))
          else if name = ''help'' \<or> name = ''h'' then Stopped (usage (wProgram env)) 0
          else flag_error (wProgram env) (''flag provided but not defined: -'' @ name)))"

section \<open>The program\<close>

text \<open>A run gives what standard output has become, the text on standard error and the exit status.\<close>

definition failure :: "'w \<Rightarrow> string \<Rightarrow> 'w \<times> string \<times> nat" where
  "failure w e = (w, ''mcpcheck: '' @ e @ [CHR 0x0A], 1)"

definition finish :: "'w \<times> ending \<Rightarrow> 'w \<times> string \<times> nat" where
  "finish r =
    (case r of
       (w, Returned (Some e)) \<Rightarrow> failure w e
     | (w, Returned None) \<Rightarrow> (w, [], 0)
     | (w, Exited n) \<Rightarrow> (w, [], n))"

definition main :: "ucd \<Rightarrow> rule list \<Rightarrow> 'p world \<Rightarrow> 'w writer \<Rightarrow> 'w \<Rightarrow> string list \<Rightarrow> 'w \<times> string \<times> nat" where
  "main u registry env wr w args =
    (case parse_flags u env default_flags args of
       Stopped e status \<Rightarrow> (w, e, status)
     | Parsed fl rest \<Rightarrow>
         if flListRules fl then
           (case writeRules u registry wr w (flFormat fl) of
              (w', Some e) \<Rightarrow> failure w' e
            | (w', None) \<Rightarrow> (w', [], 0))
         else
           (let hasLive = flLive fl \<noteq> ''''; hasPath = length rest = 1 in
            if \<not> hasLive \<and> \<not> hasPath then (w, usage (wProgram env), 2)
            else if length rest > 1 then (w, usage (wProgram env), 2)
            else
              (case (if hasPath then map_sum id Some (Load env (rest ! 0)) else Inr None) of
                 Inl e \<Rightarrow> failure w e
               | Inr staticSet \<Rightarrow>
              (case (if hasLive then map_sum id Some (loadLiveCmd u env (flLive fl)) else Inr None) of
                 Inl e \<Rightarrow> failure w e
               | Inr liveSet \<Rightarrow> finish (analyzeAll u registry wr w staticSet liveSet (flFormat fl))))))"

section \<open>Properties\<close>

definition usage_stop :: "'p world \<Rightarrow> parsed \<Rightarrow> bool" where
  "usage_stop env p = (case p of Parsed fl rest \<Rightarrow> True | Stopped e c \<Rightarrow> (c = 0 \<or> c = 2) \<and> suffix (usage (wProgram env)) e)"

lemma usage_stop_simps [simp]:
  "usage_stop env (Parsed fl rest)" "usage_stop env (flag_error (wProgram env) msg)"
  "usage_stop env (Stopped (usage (wProgram env)) 0)"
proof -
  have "msg @ [CHR 0x0A] @ usage prog = (msg @ [CHR 0x0A]) @ usage prog" for prog by simp
  then show "usage_stop env (flag_error (wProgram env) msg)"
    unfolding usage_stop_def flag_error_def parsed.case by (metis suffixI)
qed (simp_all add: usage_stop_def)

lemma set_flag_stops: "set_flag u env name v fl = Inl p \<Longrightarrow> usage_stop env p"
  by (auto simp: set_flag_def split: if_splits option.splits)

lemma usage_stop_intros:
  "(b \<Longrightarrow> usage_stop env p) \<Longrightarrow> (\<not> b \<Longrightarrow> usage_stop env q) \<Longrightarrow> usage_stop env (if b then p else q)"
  "(x = None \<Longrightarrow> usage_stop env p) \<Longrightarrow> (\<And>v. x = Some v \<Longrightarrow> usage_stop env (f v)) \<Longrightarrow>
    usage_stop env (case x of None \<Rightarrow> p | Some v \<Rightarrow> f v)"
  "(\<And>n v. usage_stop env (g n v)) \<Longrightarrow> usage_stop env (case nv of (n, v) \<Rightarrow> g n v)"
  "(xs = [] \<Longrightarrow> usage_stop env p) \<Longrightarrow> (\<And>y ys. xs = y # ys \<Longrightarrow> usage_stop env (h y ys)) \<Longrightarrow>
    usage_stop env (case xs of [] \<Rightarrow> p | y # ys \<Rightarrow> h y ys)"
  "(\<And>q. r = Inl q \<Longrightarrow> usage_stop env q) \<Longrightarrow> (\<And>fl. r = Inr fl \<Longrightarrow> usage_stop env (k fl)) \<Longrightarrow>
    usage_stop env (case r of Inl q \<Rightarrow> q | Inr fl \<Rightarrow> k fl)"
  by (auto split: option.split prod.split list.split sum.split)

lemma parse_flags_stops: "usage_stop env (parse_flags u env fl args)"
proof (induction "length args" arbitrary: fl args rule: less_induct)
  case less
  show ?case
  proof (cases args)
    case (Cons s args')
    then have IH: "usage_stop env (parse_flags u env fl' args')" for fl' using less by simp
    have IH2: "usage_stop env (parse_flags u env fl' as)" if "args' = v # as" for fl' v as
      using less [of as] that Cons by simp
    show ?thesis
      unfolding Cons parse_flags.simps Let_def
      by (intro usage_stop_intros usage_stop_simps IH) (erule set_flag_stops | erule IH2)+
  qed simp
qed

lemma analyzeAll_ending: "snd (analyzeAll u registry wr w static live format) \<in> {Returned None, Exited 1} \<or>
    (\<exists>e. snd (analyzeAll u registry wr w static live format) = Returned (Some e))"
  by (auto simp: analyzeAll_def Let_def split: prod.split option.split)

lemma finish_analyze: "snd (snd (finish (analyzeAll u registry wr w static live format))) < 2"
  using analyzeAll_ending [of u registry wr w static live format]
  by (cases "analyzeAll u registry wr w static live format") (auto simp: finish_def failure_def)

text \<open>Usage errors. A run ends with status 0, 1 or 2; with 2 exactly when the flags do not parse, or
  when no listing was asked for and there is more than one path or neither a path nor a live command.
  Then nothing was analysed or printed on standard output and the usage text ends what is on standard
  error.\<close>

theorem cli_usage_errors:
  "case main u registry env wr w args of (w', err, status) \<Rightarrow>
     status \<in> {0, 1, 2} \<and>
     (status = 2) =
       (case parse_flags u env default_flags args of
          Stopped e c \<Rightarrow> c = 2
        | Parsed fl rest \<Rightarrow> \<not> flListRules fl \<and> (length rest > 1 \<or> flLive fl = '''' \<and> length rest = 0)) \<and>
     (if status = 2 then w' = w \<and> suffix (usage (wProgram env)) err else True)"
proof (cases "parse_flags u env default_flags args")
  case (Stopped e c)
  then show ?thesis
    using parse_flags_stops [of env u default_flags args] by (auto simp: main_def usage_stop_def)
next
  case (Parsed fl rest)
  consider "flListRules fl" | "\<not> flListRules fl" "length rest > 1 \<or> flLive fl = '''' \<and> length rest = 0"
    | "\<not> flListRules fl" "\<not> (length rest > 1 \<or> flLive fl = '''' \<and> length rest = 0)" by blast
  then show ?thesis
  proof cases
    case 1
    then show ?thesis by (auto simp: main_def Parsed failure_def split: prod.split option.split)
  next
    case 2
    then have "main u registry env wr w args = (w, usage (wProgram env), 2)"
      by (auto simp: main_def Parsed)
    with 2 show ?thesis by (simp add: Parsed)
  next
    case 3
    then have "flLive fl = '''' \<Longrightarrow> length rest = 1" by (cases rest) auto
    with 3 have "snd (snd (main u registry env wr w args)) < 2"
      by (simp add: main_def Parsed finish_analyze failure_def Let_def split: sum.split)
    then show ?thesis using 3 by (auto simp: Parsed split: prod.split)
  qed
qed


text \<open>A world whose files are the adverts a server would send, and one whose command starts such a server.\<close>

definition tools_doc :: "advert list \<Rightarrow> jdoc" where
  "tools_doc as = DObj [(''tools'', DArr (map advert_doc as))]"

lemma Load_tools_json:
  assumes "list_all advert_ok as" "wStat env path = Inr (File (Content (Encode (tools_doc as))))"
    and "suffix ''.json'' path"
  shows "Load env path = Inr \<lparr>Tools = map advert_tool as, Source = path\<rparr>"
  using json_intake_roundtrip [OF assms(1)] assms(2,3)
  by (simp add: Load_def stat_IsDir_def LoadToolsJSON_def node_read_def tools_doc_def)

lemma default_flags_simps: "\<not> flListRules default_flags" "flLive default_flags = ''''"
  by (simp_all add: default_flags_def)

lemma parse_flags_path:
  "path = [] \<or> hd path \<noteq> CHR ''-'' \<Longrightarrow>
    parse_flags u env default_flags [''--format'', format, path] = Parsed (default_flags\<lparr>flFormat := format\<rparr>) [path]"
  by (auto simp: split_flag_def set_flag_def)

text \<open>(C12) From file to exit status. Given \<^verbatim>\<open>--format F path\<close> with a known format and a JSON file that holds
  a tool list with clean names, descriptions and schemas, the process exits with status 1 exactly
  when one of the listed tools has an error of its own or two share a non-empty name, and with 0
  otherwise; standard error is empty either way.\<close>

theorem cli_json_exit:
  assumes "list_all advert_ok as" "wStat env path = Inr (File (Content (Encode (tools_doc as))))"
    and "suffix ''.json'' path" "hd path \<noteq> CHR ''-''" "format \<in> {''text'', ''json'', ''sarif''}"
  shows "snd (main u (rule_set u lib) env buffer b [''--format'', format, path]) =
    ([], if (\<exists>a\<in>set as. tool_error u (advert_tool a)) \<or> (\<exists>n. n \<noteq> '''' \<and> occurs_twice n (map adName as))
         then 1 else 0)"
proof -
  let ?ts = "\<lparr>Tools = map advert_tool as, Source = path\<rparr>"
  obtain b' where "write_findings u (rule_set u lib) buffer b format
      (all_findings (rule_set u lib) (Some ?ts) None) = (b', None)"
    using write_findings_buffer [OF assms(5)] by blast
  note run = analyzeAll_exit [OF this]
  have names: "map (Name \<circ> advert_tool) as = map adName as" by (simp add: advert_tool_def)
  have "set_error u ?ts \<longleftrightarrow>
      (\<exists>a\<in>set as. tool_error u (advert_tool a)) \<or> (\<exists>n. n \<noteq> '''' \<and> occurs_twice n (map adName as))"
    by (simp add: set_error_def not_distinct_names names)
  moreover have "main u (rule_set u lib) env buffer b [''--format'', format, path] =
      finish (analyzeAll u (rule_set u lib) buffer b (Some ?ts) None format)"
    using Load_tools_json [OF assms(1-3)] assms(4)
    by (simp add: main_def parse_flags_path default_flags_simps del: parse_flags.simps)
  ultimately show ?thesis using run by (simp add: finish_def)
qed

definition sample_lib :: "unit schema_lib" where
  "sample_lib = \<lparr>AddResource = (\<lambda>_ _. None), Compile = (\<lambda>_ _. Inr ()), Validate = (\<lambda>_ _. None)\<rparr>"

definition sample_world :: "advert list \<Rightarrow> string list world" where
  "sample_world as = \<lparr>wProgram = ''mcpcheck'', wStat = (\<lambda>_. Inr (File (Content (Encode (tools_doc as))))),
     wSpawn = (\<lambda>_. \<lparr>spStdinPipe = None, spStdoutPipe = None, spStart = None, spWriter = recorder (\<lambda>_. None),
        spStdin = [], spStdout = \<lparr>rdBytes = [], rdError = ''EOF''\<rparr>\<rparr>),
     wDecodeError = id, wResultError = (\<lambda>_. []), wDuration = (\<lambda>_. None)\<rparr>"

theorem cli_json_exit_witness:
  "snd (main ascii_ucd (rule_set ascii_ucd sample_lib) (sample_world [\<lparr>adName = ''a'', adDescription = [], adSchema = []\<rparr>,
      \<lparr>adName = ''a'', adDescription = [], adSchema = []\<rparr>]) buffer [] [''--format'', ''json'', ''t.json'']) = ([], 1)"
proof -
  let ?a = "\<lparr>adName = ''a'', adDescription = [], adSchema = []\<rparr>"
  have "list_all advert_ok [?a, ?a]" by (simp add: advert_ok_def clean_ascii is_ascii_def)
  moreover have "wStat (sample_world [?a, ?a]) ''t.json'' = Inr (File (Content (Encode (tools_doc [?a, ?a]))))"
    by (simp add: sample_world_def)
  moreover have "suffix ''.json'' ''t.json''" by (simp add: suffix_def)
  moreover have "hd ''t.json'' \<noteq> CHR ''-''" by simp
  moreover have "occurs_twice ''a'' (map adName [?a, ?a])" by (simp add: occurs_twice_def)
  ultimately show ?thesis
    using cli_json_exit [of "[?a, ?a]" "sample_world [?a, ?a]" "''t.json''" "''json''" ascii_ucd sample_lib "[]"] by auto
qed


lemma same_tools_no_mismatch:
  assumes "Tools s = Tools l"
  shows "RunComparison (rule_set u lib) (Some s) (Some l) = []"
proof -
  have "names_only_in (indexByName ts) (indexByName ts) = []" for ts
    using names_only_in_indexByName [of ts ts] by simp
  then show ?thesis
    unfolding RunComparison_rule_set using static_vs_live_names [of u s l] assms
    by (metis append_Nil list.map_disc_iff)
qed

text \<open>(C13) The two intakes agree. When a JSON file holds the tools that a server advertises when started, the
  static and the live intake load the same tools, and the comparison phase of the shipped rules
  reports nothing.\<close>

theorem intakes_agree:
  assumes "list_all advert_ok as" "\<forall>a\<in>set as. doc_depth (advert_doc a) \<le> 9000"
    and "wStat env path = Inr (File (Content (Encode (tools_doc as))))" "suffix ''.json'' path"
    and "strings_Fields cmd \<noteq> []" "doc_depth (response_doc 1 info) \<le> maxNestingDepth"
    and "wSpawn env (strings_Fields cmd) =
      \<lparr>spStdinPipe = None, spStdoutPipe = None, spStart = None, spWriter = recorder (\<lambda>_. None), spStdin = [],
       spStdout = \<lparr>rdBytes = sent_line (response_doc 1 info) @ sent_line (response_doc 2 (tools_doc as)) @ rest,
         rdError = e\<rparr>\<rparr>"
  shows "case (Load env path, loadLiveCmd u env cmd) of
      (Inr s, Inr l) \<Rightarrow> Tools s = map advert_tool as \<and> Tools l = map advert_tool as \<and>
        RunComparison (rule_set u lib) (Some s) (Some l) = []
    | _ \<Rightarrow> False"
proof -
  show ?thesis
    using live_conversation [OF assms(6,1,2)] assms(5,7) Load_tools_json [OF assms(1,3,4)]
    by (simp add: loadLiveCmd_def LoadLive_def tools_doc_def same_tools_no_mismatch)
qed

theorem intakes_agree_witness:
  "let a = \<lparr>adName = ''a'', adDescription = [], adSchema = []\<rparr>;
       env = (sample_world [a])\<lparr>wSpawn := (\<lambda>_. \<lparr>spStdinPipe = None, spStdoutPipe = None, spStart = None,
         spWriter = recorder (\<lambda>_. None), spStdin = [],
         spStdout = \<lparr>rdBytes = sent_line (response_doc 1 (DObj [])) @ sent_line (response_doc 2 (tools_doc [a])) @ [],
           rdError = ''EOF''\<rparr>\<rparr>)\<rparr>
   in case (Load env ''t.json'', loadLiveCmd ascii_ucd env ''serve'') of
      (Inr s, Inr l) \<Rightarrow> Tools s = map advert_tool [a] \<and> Tools l = map advert_tool [a] \<and>
        RunComparison (rule_set ascii_ucd sample_lib) (Some s) (Some l) = []
    | _ \<Rightarrow> False"
proof -
  let ?a = "\<lparr>adName = ''a'', adDescription = [], adSchema = []\<rparr>"
  have "list_all advert_ok [?a]" by (simp add: advert_ok_def clean_ascii is_ascii_def)
  moreover have "\<forall>a\<in>set [?a]. doc_depth (advert_doc a) \<le> 9000" by (simp add: advert_doc_def)
  moreover have "suffix ''.json'' ''t.json''" by (simp add: suffix_def)
  moreover have "strings_Fields ''serve'' \<noteq> []"
    by (simp add: strings_Fields_def runes_ascii is_ascii_def unicode_IsSpace_def)
  moreover have "doc_depth (response_doc 1 (DObj [])) \<le> maxNestingDepth"
    by (simp add: response_doc_def maxNestingDepth_def)
  ultimately show ?thesis
    unfolding Let_def
    by (intro intakes_agree [where rest = "[]" and e = "''EOF''" and info = "DObj []"]) (simp_all add: sample_world_def)
qed

end
