(* ===== verification/Go_Time.thy ===== *)
theory Go_Time
  imports Go_Strings "HOL-Library.Word"
begin

text \<open>
  Time as the program's packages use it: a \<^verbatim>\<open>time.Time\<close> is a number of nanoseconds since its
  zero value, a \<^verbatim>\<open>time.Duration\<close> a number of nanoseconds in 64 bits, where \<^verbatim>\<open>Sub\<close>
  saturates. The clocks of \<^verbatim>\<open>internal/clock\<close> are here as well.
\<close>

type_synonym time = int
type_synonym duration = int

text \<open>The value of an \<^verbatim>\<open>int64\<close> after an operation on exact integers.\<close>

definition wrap64 :: "int \<Rightarrow> int" where
  "wrap64 x = (x + 2 ^ 63) mod 2 ^ 64 - 2 ^ 63"

lemma wrap64_id: "- (2 ^ 63) \<le> x \<Longrightarrow> x < 2 ^ 63 \<Longrightarrow> wrap64 x = x"
  by (simp add: wrap64_def)

lemma wrap64_add [simp]: "wrap64 (wrap64 x + y) = wrap64 (x + y)"
  by (simp add: wrap64_def algebra_simps mod_simps)

definition time_IsZero :: "time \<Rightarrow> bool" where
  "time_IsZero t \<longleftrightarrow> t = 0"

definition min_duration :: duration where "min_duration = - (2 ^ 63)"
definition max_duration :: duration where "max_duration = 2 ^ 63 - 1"

definition time_Sub :: "time \<Rightarrow> time \<Rightarrow> duration" where
  "time_Sub t u = (if t - u < min_duration then min_duration else if t - u > max_duration then max_duration else t - u)"

definition time_Add :: "time \<Rightarrow> duration \<Rightarrow> time" where
  "time_Add t d = t + d"

lemma time_Sub_less_iff: "0 < d \<Longrightarrow> d \<le> max_duration \<Longrightarrow> time_Sub t u < d \<longleftrightarrow> t - u < d"
  by (auto simp: time_Sub_def min_duration_def max_duration_def)

abbreviation millisecond :: duration where "millisecond \<equiv> 1000000"
abbreviation second :: duration where "second \<equiv> 1000000000"

section \<open>The fake clock\<close>

record fake_clock =
  fakeNow :: time

definition NewFake :: "time \<Rightarrow> fake_clock" where
  "NewFake start = \<lparr>fakeNow = start\<rparr>"

definition Fake_Now :: "fake_clock \<Rightarrow> time" where
  "Fake_Now f = fakeNow f"

definition Fake_Set :: "time \<Rightarrow> fake_clock \<Rightarrow> fake_clock" where
  "Fake_Set t f = f\<lparr>fakeNow := t\<rparr>"

definition Fake_Advance :: "duration \<Rightarrow> fake_clock \<Rightarrow> fake_clock" where
  "Fake_Advance d f = f\<lparr>fakeNow := time_Add (fakeNow f) d\<rparr>"

end
