(* ===== verification/Kv.thy ===== *)
theory Kv
  imports Go_Time "HOL-Library.AList"
begin

text \<open>
  The key-value store (\<^verbatim>\<open>internal/kv/kv.go\<close>): sharded maps with expiry. A shard's map is the
  function from keys to entries with the list of its keys, so that its length is the number of
  entries; each operation runs with the lock of one shard held. \<^verbatim>\<open>Get\<close> takes its shard's lock
  twice, so it is also given as its two sections.
\<close>

section \<open>State\<close>

record 'v entry =
  evalue :: 'v
  expiresAt :: time

type_synonym 'v shard = "(string \<times> 'v entry) list"

record 'v memory =
  shards :: "'v shard list"
  mask :: "32 word"

text \<open>\<^verbatim>\<open>nextPow2\<close> at 64 bits: the doubling can run past the sign bit and never end, so it is
  partial.\<close>

partial_function (option) pow2_loop :: "64 word \<Rightarrow> 64 word \<Rightarrow> 64 word option" where
  "pow2_loop p n = (if sint p < sint n then pow2_loop (push_bit 1 p) n else Some p)"

declare pow2_loop.simps [code]

definition nextPow2 :: "64 word \<Rightarrow> 64 word option" where
  "nextPow2 n = pow2_loop 1 n"

definition NewMemory :: "64 word \<Rightarrow> 'v memory option" where
  "NewMemory n =
    (let n = (if sint n \<le> 0 then 16 else n) in
     case nextPow2 n of
       None \<Rightarrow> None
     | Some p \<Rightarrow> Some \<lparr>shards = replicate (unat p) [], mask = ucast (p - 1)\<rparr>)"

text \<open>FNV-1a at 32 bits.\<close>

definition fnv1a :: "string \<Rightarrow> 32 word" where
  "fnv1a key = foldl (\<lambda>h c. (xor h (of_nat (byte c))) * 16777619) 2166136261 key"

definition shard_index :: "'v memory \<Rightarrow> string \<Rightarrow> nat" where
  "shard_index m key = unat (and (fnv1a key) (mask m))"

section \<open>Operations\<close>

definition shardFor :: "'v memory \<Rightarrow> string \<Rightarrow> 'v shard" where
  "shardFor m key = shards m ! shard_index m key"

definition on_shard :: "'v memory \<Rightarrow> string \<Rightarrow> ('v shard \<Rightarrow> 'v shard) \<Rightarrow> 'v memory" where
  "on_shard m key f = m\<lparr>shards := (shards m)[shard_index m key := f (shardFor m key)]\<rparr>"

definition expired :: "time \<Rightarrow> 'v entry \<Rightarrow> bool" where
  "expired now e \<longleftrightarrow> \<not> time_IsZero (expiresAt e) \<and> \<not> now < expiresAt e"

text \<open>The second locked section of \<^verbatim>\<open>Get\<close>: the entry goes only if its expiry is still the one
  that was read.\<close>

definition expire :: "'v memory \<Rightarrow> string \<Rightarrow> 'v entry \<Rightarrow> 'v memory" where
  "expire m key e =
    (case map_of (shardFor m key) key of
       Some cur \<Rightarrow> if expiresAt cur = expiresAt e then on_shard m key (AList.delete key) else m
     | None \<Rightarrow> m)"

definition Get :: "'v memory \<Rightarrow> time \<Rightarrow> string \<Rightarrow> 'v memory \<times> 'v option" where
  "Get m now key =
    (case map_of (shardFor m key) key of
       None \<Rightarrow> (m, None)
     | Some e \<Rightarrow> if expired now e then (expire m key e, None) else (m, Some (evalue e)))"

definition SetKey :: "'v memory \<Rightarrow> string \<Rightarrow> 'v \<Rightarrow> 'v memory" where
  "SetKey m key v = on_shard m key (AList.update key \<lparr>evalue = v, expiresAt = 0\<rparr>)"

definition SetWithTTL :: "'v memory \<Rightarrow> time \<Rightarrow> string \<Rightarrow> 'v \<Rightarrow> duration \<Rightarrow> 'v memory" where
  "SetWithTTL m now key v ttl =
    (if ttl \<le> 0 then SetKey m key v
     else on_shard m key (AList.update key \<lparr>evalue = v, expiresAt = time_Add now ttl\<rparr>))"

definition Delete :: "'v memory \<Rightarrow> string \<Rightarrow> 'v memory" where
  "Delete m key = on_shard m key (AList.delete key)"

definition Len :: "'v memory \<Rightarrow> nat" where
  "Len m = sum_list (map length (shards m))"

definition Sweep :: "'v memory \<Rightarrow> time \<Rightarrow> 'v memory" where
  "Sweep m now = m\<lparr>shards := map (filter (\<lambda>(k, e). \<not> expired now e)) (shards m)\<rparr>"

text \<open>The times are the readings of the clock by \<^verbatim>\<open>Get\<close> and by \<^verbatim>\<open>SetWithTTL\<close>.\<close>

definition GetOrSet :: "'v memory \<Rightarrow> time \<Rightarrow> time \<Rightarrow> string \<Rightarrow> duration \<Rightarrow> 'v result \<Rightarrow> 'v memory \<times> 'v result" where
  "GetOrSet m now now' key ttl computed =
    (case Get m now key of
       (m', Some v) \<Rightarrow> (m', Inr v)
     | (m', None) \<Rightarrow>
         (case computed of
            Inl e \<Rightarrow> (m', Inl e)
          | Inr v \<Rightarrow> (if ttl > 0 then SetWithTTL m' now' key v ttl else SetKey m' key v, Inr v)))"

text \<open>The janitor goroutine and \<^verbatim>\<open>Close\<close>: the two channels and whether the goroutine runs. An
  event that cannot happen is \<open>None\<close>; \<^verbatim>\<open>Close\<close> returns once \<open>Close_returns\<close> is possible.\<close>

record 'v service =
  store :: "'v memory"
  stop_closed :: bool
  stopped_closed :: bool

definition start_service :: "'v memory \<Rightarrow> duration \<Rightarrow> 'v service" where
  "start_service m interval = \<lparr>store = m, stop_closed = False, stopped_closed = (interval \<le> 0)\<rparr>"

datatype janitor_event = Tick time | See_stop | Close_stop | Close_returns

fun janitor :: "janitor_event \<Rightarrow> 'v service \<Rightarrow> 'v service option" where
  "janitor (Tick now) s = (if stopped_closed s then None else Some (s\<lparr>store := Sweep (store s) now\<rparr>))"
| "janitor See_stop s = (if stopped_closed s \<or> \<not> stop_closed s then None else Some (s\<lparr>stopped_closed := True\<rparr>))"
| "janitor Close_stop s = Some (s\<lparr>stop_closed := True\<rparr>)"
| "janitor Close_returns s = (if stop_closed s \<and> stopped_closed s then Some s else None)"

text \<open>\<^verbatim>\<open>NewMemory\<close> from its configuration, and \<^verbatim>\<open>Close\<close> as a call: it closes the channel and returns if the
  goroutine is gone.\<close>

record kv_config =
  kvShards :: "64 word"
  JanitorInterval :: duration

definition NewService :: "kv_config \<Rightarrow> 'v service option" where
  "NewService c = map_option (\<lambda>m. start_service m (JanitorInterval c)) (NewMemory (kvShards c))"

definition Memory_Close :: "'v service \<Rightarrow> 'v service \<times> bool" where
  "Memory_Close s = (let s = s\<lparr>stop_closed := True\<rparr> in (s, stopped_closed s))"

text \<open>Without a janitor \<^verbatim>\<open>Close\<close> returns at once; with one it returns after the janitor has seen the channel, which it
  always can; and it can be called again.\<close>

lemma Close_returns_once_seen:
  "snd (Memory_Close (start_service m interval)) \<longleftrightarrow> interval \<le> 0"
  "\<not> stopped_closed s \<Longrightarrow> \<exists>t. janitor See_stop (fst (Memory_Close s)) = Some t \<and> snd (Memory_Close t) \<and> store t = store s"
  "snd (Memory_Close s) \<Longrightarrow> Memory_Close (fst (Memory_Close s)) = Memory_Close s"
  by (simp_all add: Memory_Close_def start_service_def Let_def)

section \<open>Invariant\<close>

definition wf_memory :: "'v memory \<Rightarrow> bool" where
  "wf_memory m \<longleftrightarrow>
    (\<forall>key. shard_index m key < length (shards m)) \<and>
    (\<forall>i<length (shards m). distinct (map fst (shards m ! i)) \<and>
      (\<forall>k\<in>fst ` set (shards m ! i). shard_index m k = i))"

text \<open>The abstract store: what a reader sees at a time.\<close>

definition view :: "'v memory \<Rightarrow> time \<Rightarrow> string \<Rightarrow> 'v option" where
  "view m now key =
    (case map_of (shardFor m key) key of
       None \<Rightarrow> None
     | Some e \<Rightarrow> if expired now e then None else Some (evalue e))"

lemma shard_index_on_shard [simp]: "shard_index (on_shard m key f) k = shard_index m k"
  by (simp add: on_shard_def shard_index_def)

lemma shardFor_on_shard:
  "wf_memory m \<Longrightarrow> shardFor (on_shard m key f) k =
    (if shard_index m k = shard_index m key then f (shardFor m key) else shardFor m k)"
  by (auto simp: shardFor_def wf_memory_def on_shard_def shard_index_def)

lemma wf_on_shard:
  assumes "wf_memory m"
    and "distinct (map fst (f (shardFor m key)))" "fst ` set (f (shardFor m key)) \<subseteq> insert key (fst ` set (shardFor m key))"
  shows "wf_memory (on_shard m key f)"
  unfolding wf_memory_def
proof (intro conjI allI impI)
  show "shard_index (on_shard m key f) k < length (shards (on_shard m key f))" for k
    using assms(1) by (simp add: wf_memory_def on_shard_def shard_index_def)
  fix i
  assume i: "i < length (shards (on_shard m key f))"
  have lt: "shard_index m key < length (shards m)" using assms(1) by (simp add: wf_memory_def)
  have at: "shards (on_shard m key f) ! i = (if i = shard_index m key then f (shardFor m key) else shards m ! i)"
    using i lt by (simp add: on_shard_def nth_list_update)
  show "distinct (map fst (shards (on_shard m key f) ! i))"
    using assms(1,2) i unfolding at by (simp add: wf_memory_def on_shard_def)
  show "\<forall>k\<in>fst ` set (shards (on_shard m key f) ! i). shard_index (on_shard m key f) k = i"
  proof
    fix k
    assume k: "k \<in> fst ` set (shards (on_shard m key f) ! i)"
    have "i < length (shards m)" using i by (simp add: on_shard_def)
    then have home: "\<forall>k\<in>fst ` set (shards m ! i). shard_index m k = i"
      using assms(1) by (simp add: wf_memory_def)
    have "k \<in> fst ` set (shards m ! i) \<or> k = key \<and> i = shard_index m key"
      using k assms(3) unfolding at shardFor_def by (cases "i = shard_index m key") auto
    with home show "shard_index (on_shard m key f) k = i" by auto
  qed
qed

lemma distinct_shardFor: "wf_memory m \<Longrightarrow> distinct (map fst (shardFor m key))"
  by (simp add: wf_memory_def shardFor_def)

lemma wf_update: "wf_memory m \<Longrightarrow> wf_memory (on_shard m key (AList.update key e))"
  by (rule wf_on_shard) (auto simp: distinct_shardFor distinct_update dom_update)

lemma wf_delete: "wf_memory m \<Longrightarrow> wf_memory (on_shard m key (AList.delete key))"
proof (rule wf_on_shard)
  assume m: "wf_memory m"
  then show "distinct (map fst (AList.delete key (shardFor m key)))"
    using distinct_shardFor [of m key] by (simp add: distinct_delete)
  show "fst ` set (AList.delete key (shardFor m key)) \<subseteq> insert key (fst ` set (shardFor m key))"
    by (auto simp: AList.delete_eq)
qed

lemma shardFor_same: "shard_index m k = shard_index m key \<Longrightarrow> shardFor m key = shardFor m k"
  by (simp add: shardFor_def)

lemma map_of_update_shard:
  "wf_memory m \<Longrightarrow> map_of (shardFor (on_shard m key (AList.update key e)) k) k =
    (if k = key then Some e else map_of (shardFor m k) k)"
  by (cases "shard_index m k = shard_index m key") (auto simp: shardFor_on_shard update_conv dest: shardFor_same)

lemma map_of_delete_shard:
  "wf_memory m \<Longrightarrow> map_of (shardFor (on_shard m key (AList.delete key)) k) k =
    (if k = key then None else map_of (shardFor m k) k)"
  by (cases "shard_index m k = shard_index m key") (auto simp: shardFor_on_shard delete_conv dest: shardFor_same)

section \<open>What a reader sees\<close>

lemma view_put:
  "wf_memory m \<Longrightarrow> view (on_shard m key (AList.update key e)) t =
    (view m t)(key := if expired t e then None else Some (evalue e))"
  by (rule ext) (simp add: view_def map_of_update_shard)

lemma view_delete: "wf_memory m \<Longrightarrow> view (on_shard m key (AList.delete key)) t = (view m t)(key := None)"
  by (rule ext) (simp add: view_def map_of_delete_shard)

lemma not_expired_forever: "\<not> expired t \<lparr>evalue = v, expiresAt = 0\<rparr>"
  by (simp add: expired_def time_IsZero_def)

lemma expired_mono: "expired t e \<Longrightarrow> t \<le> t' \<Longrightarrow> expired t' e"
  by (auto simp: expired_def)

lemma wf_expire: "wf_memory m \<Longrightarrow> wf_memory (expire m key e)"
  by (simp add: expire_def wf_delete split: option.split)

lemma wf_Get: "wf_memory m \<Longrightarrow> wf_memory (fst (Get m now key))"
  by (simp add: Get_def wf_expire split: option.split)

lemma view_expire:
  assumes "wf_memory m" "expired now e" "now \<le> t"
  shows "view (expire m key e) t = view m t"
proof (cases "map_of (shardFor m key) key")
  case (Some cur)
  show ?thesis
  proof (cases "expiresAt cur = expiresAt e")
    case True
    then have "expired t cur" using expired_mono [OF assms(2,3)] by (simp add: expired_def)
    then have "view m t key = None" using Some by (simp add: view_def)
    then have "(view m t)(key := None) = view m t" by (auto simp: fun_upd_def)
    with True Some show ?thesis by (simp add: expire_def view_delete [OF assms(1)])
  qed (simp add: expire_def Some)
qed (simp add: expire_def)

lemma view_Get:
  assumes "wf_memory m" "now \<le> t"
  shows "view (fst (Get m now key)) t = view m t"
  using view_expire [OF assms(1) _ assms(2)] by (auto simp: Get_def split: option.split)

lemma Get_view: "snd (Get m now key) = view m now key"
  by (simp add: Get_def view_def split: option.split)

lemma shardFor_Sweep:
  "wf_memory m \<Longrightarrow> shardFor (Sweep m now) k = filter (\<lambda>(k, e). \<not> expired now e) (shardFor m k)"
  by (simp add: shardFor_def wf_memory_def Sweep_def shard_index_def)

lemma map_of_filter_distinct:
  "distinct (map fst xs) \<Longrightarrow> map_of (filter (\<lambda>(k, e). P e) xs) k =
    (case map_of xs k of Some e \<Rightarrow> if P e then Some e else None | None \<Rightarrow> None)"
proof (induction xs)
  case (Cons x xs)
  obtain a e where x: "x = (a, e)" by fastforce
  have "map_of xs a = None" using Cons.prems x by (simp add: map_of_eq_None_iff)
  with Cons x show ?case by auto
qed simp

lemma wf_Sweep: "wf_memory m \<Longrightarrow> wf_memory (Sweep m now)"
proof -
  assume m: "wf_memory m"
  have idx: "shard_index (Sweep m now) k = shard_index m k" for k by (simp add: Sweep_def shard_index_def)
  have "distinct (map fst (filter Q xs))" if "distinct (map fst xs)" for Q and xs :: "(string \<times> 'a entry) list"
    using that by (rule distinct_map_filter)
  with m show ?thesis unfolding wf_memory_def idx by (auto simp: Sweep_def)
qed

lemma view_Sweep:
  assumes "wf_memory m" "now \<le> t"
  shows "view (Sweep m now) t = view m t"
proof (rule ext)
  fix k
  have "map_of (shardFor (Sweep m now) k) k =
      (case map_of (shardFor m k) k of Some e \<Rightarrow> if \<not> expired now e then Some e else None | None \<Rightarrow> None)"
    unfolding shardFor_Sweep [OF assms(1)] by (rule map_of_filter_distinct) (rule distinct_shardFor [OF assms(1)])
  then show "view (Sweep m now) t k = view m t k"
    using expired_mono [OF _ assms(2)] by (auto simp: view_def split: option.split)
qed

text \<open>The interface the rest of a program relies on.\<close>

locale key_value =
  fixes inv :: "'m \<Rightarrow> bool"
    and look :: "'m \<Rightarrow> time \<Rightarrow> string \<Rightarrow> 'v option"
    and get :: "'m \<Rightarrow> time \<Rightarrow> string \<Rightarrow> 'm \<times> 'v option"
    and put :: "'m \<Rightarrow> string \<Rightarrow> 'v \<Rightarrow> 'm"
    and del :: "'m \<Rightarrow> string \<Rightarrow> 'm"
  assumes inv_get: "inv m \<Longrightarrow> inv (fst (get m t k))"
    and inv_put: "inv m \<Longrightarrow> inv (put m k v)"
    and inv_del: "inv m \<Longrightarrow> inv (del m k)"
    and get_look: "snd (get m t k) = look m t k"
    and look_get: "inv m \<Longrightarrow> t \<le> t' \<Longrightarrow> look (fst (get m t k)) t' = look m t'"
    and look_put: "inv m \<Longrightarrow> look (put m k v) t = (look m t)(k \<mapsto> v)"
    and look_del: "inv m \<Longrightarrow> look (del m k) t = (look m t)(k := None)"
begin

lemma get_after_put: "inv m \<Longrightarrow> snd (get (put m k v) t k') = (if k' = k then Some v else snd (get m t k'))"
  by (simp add: get_look look_put)

lemma get_after_del: "inv m \<Longrightarrow> snd (get (del m k) t k') = (if k' = k then None else snd (get m t k'))"
  by (simp add: get_look look_del)

lemma get_stable: "inv m \<Longrightarrow> t \<le> t' \<Longrightarrow> snd (get (fst (get m t k)) t' k') = snd (get m t' k')"
  by (simp add: get_look look_get)

lemma get_after_puts:
  "inv m \<Longrightarrow> inv (foldl (\<lambda>m (k, v). put m k v) m kvs) \<and>
    look (foldl (\<lambda>m (k, v). put m k v) m kvs) t = foldl (\<lambda>s (k, v). s(k \<mapsto> v)) (look m t) kvs"
  by (induction kvs arbitrary: m) (auto simp: inv_put look_put)

end

interpretation kv: key_value wf_memory view Get SetKey Delete
  by unfold_locales
    (simp_all add: wf_Get SetKey_def Delete_def wf_update wf_delete Get_view view_Get view_put view_delete
      not_expired_forever)

section \<open>Size\<close>

lemma keys_card:
  assumes "wf_memory m"
  shows "Len m = card {k. map_of (shardFor m k) k \<noteq> None}"
proof -
  let ?I = "{0..<length (shards m)}" and ?K = "\<lambda>i. fst ` set (shards m ! i)"
  have home: "shard_index m k = i" if "i \<in> ?I" "k \<in> ?K i" for i k
    using that assms unfolding wf_memory_def by fastforce
  have "Len m = (\<Sum>i\<in>?I. length (shards m ! i))"
    unfolding Len_def sum_list_sum_nth by simp
  also have "\<dots> = (\<Sum>i\<in>?I. card (?K i))"
  proof (rule sum.cong)
    fix i
    assume "i \<in> ?I"
    then have "distinct (map fst (shards m ! i))" using assms by (simp add: wf_memory_def)
    then show "length (shards m ! i) = card (?K i)" using distinct_card by fastforce
  qed simp
  also have "\<dots> = card (\<Union>i\<in>?I. ?K i)"
    using home by (intro card_UN_disjoint [symmetric]) blast+
  also have "(\<Union>i\<in>?I. ?K i) = {k. map_of (shardFor m k) k \<noteq> None}"
  proof (intro set_eqI iffI)
    fix k
    assume "k \<in> (\<Union>i\<in>?I. ?K i)"
    then obtain i where "i \<in> ?I" "k \<in> ?K i" by blast
    with home show "k \<in> {k. map_of (shardFor m k) k \<noteq> None}"
      by (auto simp: shardFor_def map_of_eq_None_iff)
  next
    fix k
    assume "k \<in> {k. map_of (shardFor m k) k \<noteq> None}"
    then have "k \<in> ?K (shard_index m k)" by (simp add: shardFor_def map_of_eq_None_iff)
    moreover have "shard_index m k \<in> ?I" using assms by (simp add: wf_memory_def)
    ultimately show "k \<in> (\<Union>i\<in>?I. ?K i)" by blast
  qed
  finally show ?thesis .
qed

lemma Len_Sweep:
  assumes "wf_memory m"
  shows "Len (Sweep m now) = card {k. view m now k \<noteq> None}"
proof -
  have "map_of (shardFor (Sweep m now) k) k \<noteq> None \<longleftrightarrow> view m now k \<noteq> None" for k
    using map_of_filter_distinct [OF distinct_shardFor [OF assms, of k], of "\<lambda>e. \<not> expired now e" k]
    unfolding shardFor_Sweep [OF assms] view_def by (auto split: option.split)
  then show ?thesis unfolding keys_card [OF wf_Sweep [OF assms]] by simp
qed

section \<open>Construction\<close>

text \<open>The doubling reaches the least power of two at or above \<open>n\<close> for \<open>n\<close> up to \<open>2\<^sup>6\<^sup>2\<close>;
  past that the shift loses the bit and the loop goes on with zero.\<close>

lemma sint_push_bit_1:
  "0 \<le> sint p \<Longrightarrow> sint p < 2 ^ 62 \<Longrightarrow> sint (push_bit 1 p) = 2 * sint p" for p :: "64 word"
proof -
  assume p: "0 \<le> sint p" "sint p < 2 ^ 62"
  have "push_bit 1 p = 2 * p" by (simp add: push_bit_eq_mult)
  moreover have "sint (2 * p) = signed_take_bit 63 (2 * sint p)" by (simp add: sint_word_ariths)
  moreover have "signed_take_bit 63 (2 * sint p) = 2 * sint p"
    using p by (intro signed_take_bit_int_eq_self) simp_all
  ultimately show ?thesis by metis
qed

lemma pow2_loop_zero:
  assumes "pow2_loop p n = Some r"
  shows "p = 0 \<longrightarrow> sint n \<le> 0"
proof (rule pow2_loop.raw_induct [where P = "\<lambda>p n r. p = 0 \<longrightarrow> sint n \<le> 0", OF _ assms])
  fix f p n r
  assume IH: "\<And>p n r. f p n = Some r \<Longrightarrow> p = 0 \<longrightarrow> sint n \<le> 0"
    and step: "(if sint p < sint n then f (push_bit 1 p) n else Some p) = Some r"
  show "p = 0 \<longrightarrow> sint n \<le> 0" using IH [of 0 n r] step by (auto split: if_splits)
qed

text \<open>From a power of two at exponent \<open>i\<close> the loop ends at the first exponent whose power reaches
  \<open>n\<close>.\<close>

lemma sint_inject: "sint q = i \<Longrightarrow> q = of_int i" for q :: "64 word"
proof -
  assume i: "sint q = i"
  have "(of_int (sint q) :: 64 word) = q" by simp
  then show "q = of_int i" unfolding i by (rule sym)
qed

lemma pow2_loop_run:
  assumes "i \<le> j" "j \<le> 62" "sint p = 2 ^ i" "\<forall>k. i \<le> k \<and> k < j \<longrightarrow> 2 ^ k < sint n"
  shows "\<exists>q. sint q = 2 ^ j \<and> pow2_loop p n = pow2_loop q n"
  using assms
proof (induction "j - i" arbitrary: i p)
  case (Suc d)
  then have i: "i < j" by simp
  then have lt: "(2::int) ^ i < 2 ^ 62" using Suc.prems(2) by (intro power_strict_increasing) simp_all
  have "sint (push_bit 1 p) = 2 ^ Suc i" using sint_push_bit_1 [of p] lt Suc.prems(3) by simp
  moreover have "pow2_loop p n = pow2_loop (push_bit 1 p) n"
    using i Suc.prems(3,4) by (subst pow2_loop.simps) simp
  ultimately show ?case using Suc.hyps(1) [of "Suc i" "push_bit 1 p"] Suc.hyps(2) Suc.prems i by auto
qed (metis diff_is_0_eq le_antisym)

lemma nextPow2_exact:
  assumes "0 < sint n"
  shows "nextPow2 n =
    (if sint n \<le> 2 ^ 62 then Some (of_nat (2 ^ (LEAST k. nat (sint n) \<le> 2 ^ k))) else None)"
proof (cases "sint n \<le> 2 ^ 62")
  case True
  define j where "j = (LEAST k. nat (sint n) \<le> 2 ^ k)"
  have nn: "nat (sint n) \<le> 2 ^ 62" using True by (simp add: nat_le_iff)
  have j: "nat (sint n) \<le> 2 ^ j" "j \<le> 62"
    unfolding j_def by (rule LeastI [of _ 62], rule nn) (rule Least_le, rule nn)
  have below: "2 ^ k < sint n" if "k < j" for k
  proof -
    have "\<not> nat (sint n) \<le> 2 ^ k" using not_less_Least that unfolding j_def by blast
    then have "int (2 ^ k) < sint n" by linarith
    then show ?thesis by simp
  qed
  have one: "sint (1 :: 64 word) = 2 ^ 0" by simp
  obtain q where q: "sint q = 2 ^ j" "nextPow2 n = pow2_loop q n"
    using pow2_loop_run [of 0 j 1 n] j below one unfolding nextPow2_def by auto
  have "sint n \<le> 2 ^ j" using j(1) by (simp add: nat_le_iff)
  then have "nextPow2 n = Some q" using q by (subst (asm) pow2_loop.simps) simp
  moreover have "q = of_nat (2 ^ j)"
    using sint_inject [OF q(1)] by simp
  ultimately show ?thesis using True by (simp add: j_def)
next
  case False
  have "(2::int) ^ k \<le> 2 ^ 62" if "k < 62" for k using that by (intro power_increasing) simp_all
  then have below: "\<forall>k. 0 \<le> k \<and> k < 62 \<longrightarrow> 2 ^ k < sint n" using False by fastforce
  obtain q where q: "sint q = 2 ^ 62" "nextPow2 n = pow2_loop q n"
    using pow2_loop_run [of 0 62 1 n] below unfolding nextPow2_def by auto
  have "q = 0x4000000000000000" using sint_inject [OF q(1)] by simp
  then have "push_bit 1 (push_bit 1 q) = 0" by simp
  moreover have "pow2_loop q n = pow2_loop (push_bit 1 q) n"
    using q False by (subst pow2_loop.simps) simp
  moreover have "pow2_loop (push_bit 1 q) n = pow2_loop (push_bit 1 (push_bit 1 q)) n"
    using \<open>q = 0x4000000000000000\<close> assms by (subst pow2_loop.simps) simp
  ultimately have "nextPow2 n = pow2_loop 0 n" using q by simp
  then show ?thesis using False assms pow2_loop_zero [of 0 n] by (cases "pow2_loop 0 n") auto
qed

lemma wf_empty_shards:
  assumes "j \<le> 62"
  shows "wf_memory \<lparr>shards = replicate (2 ^ j) [], mask = ucast (of_nat (2 ^ j) - 1 :: 64 word)\<rparr>"
proof -
  have "unat (ucast (of_nat (2 ^ j) - 1 :: 64 word) :: 32 word) < 2 ^ j"
  proof -
    have "(2::nat) ^ j < 2 ^ 64" using assms by (intro power_strict_increasing) simp_all
    then have u: "unat (of_nat (2 ^ j) :: 64 word) = 2 ^ j" unfolding unat_of_nat by simp
    then have "(of_nat (2 ^ j) :: 64 word) \<noteq> 0" by (metis power_not_zero unat_0 zero_neq_numeral)
    then have "unat (of_nat (2 ^ j) - 1 :: 64 word) = 2 ^ j - 1" using u by (simp add: unat_minus_one)
    moreover have "unat (ucast w :: 32 word) \<le> unat w" for w :: "64 word"
      by (simp add: unsigned_ucast_eq)
    ultimately show ?thesis by (metis One_nat_def diff_less le_less_trans less_numeral_extra(1) zero_less_numeral zero_less_power)
  qed
  moreover have "unat (and h w) \<le> unat w" for h w :: "32 word"
    using word_and_le1 [of h w] by (simp add: word_le_nat_alt)
  ultimately show ?thesis by (simp add: wf_memory_def shard_index_def) (meson le_less_trans)
qed

lemma NewMemory_exact:
  assumes "sint n \<le> 2 ^ 62"
  shows "\<exists>m j. NewMemory n = Some m \<and> length (shards m) = 2 ^ j \<and> wf_memory m \<and> Len m = 0 \<and>
    (\<forall>k. nat (if sint n \<le> 0 then 16 else sint n) \<le> 2 ^ k \<longleftrightarrow> j \<le> k)"
proof -
  define w where "w = (if sint n \<le> 0 then 16 else n)"
  have w: "0 < sint w" "sint w \<le> 2 ^ 62" "sint w = (if sint n \<le> 0 then 16 else sint n)"
    using assms by (simp_all add: w_def)
  define j where "j = (LEAST k. nat (sint w) \<le> 2 ^ k)"
  have nn: "nat (sint w) \<le> 2 ^ 62" using w(2) by (simp add: nat_le_iff)
  have j: "nat (sint w) \<le> 2 ^ j" "j \<le> 62"
    unfolding j_def by (rule LeastI [of _ 62], rule nn) (rule Least_le, rule nn)
  let ?m = "\<lparr>shards = replicate (2 ^ j) [], mask = ucast (of_nat (2 ^ j) - 1 :: 64 word)\<rparr>"
  have "(2::nat) ^ j < 2 ^ 64" using j(2) by (intro power_strict_increasing) simp_all
  then have "unat (of_nat (2 ^ j) :: 64 word) = 2 ^ j" unfolding unat_of_nat by simp
  then have "NewMemory n = Some ?m"
    using nextPow2_exact [OF w(1)] w(2) unfolding NewMemory_def w_def [symmetric] Let_def by (simp add: j_def)
  moreover have "nat (sint w) \<le> 2 ^ k \<longleftrightarrow> j \<le> k" for k
  proof
    show "nat (sint w) \<le> 2 ^ k \<Longrightarrow> j \<le> k" unfolding j_def by (rule Least_le)
    show "nat (sint w) \<le> 2 ^ k" if "j \<le> k"
      using j(1) power_increasing [OF that, of "2::nat"] by linarith
  qed
  moreover have "Len ?m = 0" by (simp add: Len_def sum_list_replicate)
  ultimately show ?thesis using wf_empty_shards [OF j(2)] w(3) by (intro exI [of _ ?m] exI [of _ j]) simp
qed

section \<open>Properties\<close>

text \<open>(C20) Refinement. On a well-formed store every operation does to what readers see what the abstract map
  does: \<^verbatim>\<open>Get\<close> returns what is there and unexpired and changes nothing a later reader sees,
  \<^verbatim>\<open>Set\<close> and \<^verbatim>\<open>SetWithTTL\<close> update one key, the latter until its expiry,
  \<^verbatim>\<open>Delete\<close> removes one, \<^verbatim>\<open>Sweep\<close> changes nothing and leaves exactly the unexpired entries
  counted by \<^verbatim>\<open>Len\<close>; a value set between the two locked sections of a \<^verbatim>\<open>Get\<close> of an expired
  entry survives; and all of them keep the store well-formed.\<close>

theorem kv_refinement:
  assumes "wf_memory m" "0 \<le> now" "now \<le> t"
  shows "snd (Get m now k) = view m now k \<and> view (fst (Get m now k)) t = view m t \<and>
    view (SetKey m k v) t = (view m t)(k \<mapsto> v) \<and>
    view (SetWithTTL m now k v ttl) t = (view m t)(k := if ttl \<le> 0 \<or> t < now + ttl then Some v else None) \<and>
    view (Delete m k) t = (view m t)(k := None) \<and>
    view (Sweep m now) t = view m t \<and> Len (Sweep m now) = card {k. view m now k \<noteq> None} \<and>
    (if expired now e then expire (SetKey m k v) k e = SetKey m k v else True) \<and>
    wf_memory (fst (Get m now k)) \<and> wf_memory (SetKey m k v) \<and> wf_memory (SetWithTTL m now k v ttl) \<and>
    wf_memory (Delete m k) \<and> wf_memory (Sweep m now)"
proof (intro conjI)
  show "view (SetWithTTL m now k v ttl) t = (view m t)(k := if ttl \<le> 0 \<or> t < now + ttl then Some v else None)"
    using assms kv.look_put [OF assms(1), of k v t]
    by (auto simp: SetWithTTL_def view_put expired_def time_IsZero_def time_Add_def)
  show "if expired now e then expire (SetKey m k v) k e = SetKey m k v else True"
    using assms(1) by (simp add: SetKey_def expire_def map_of_update_shard expired_def time_IsZero_def)
  show "wf_memory (SetWithTTL m now k v ttl)"
    using assms(1) by (simp add: SetWithTTL_def kv.inv_put wf_update)
qed (use assms in \<open>simp_all add: kv.get_look kv.look_get kv.look_put kv.look_del kv.inv_get kv.inv_put kv.inv_del
  view_Sweep Len_Sweep wf_Sweep\<close>)

theorem kv_refinement_witness:
  "\<exists>m. NewMemory 3 = Some m \<and> length (shards m) = 4 \<and>
     snd (Get (SetWithTTL m 5 ''a'' (1::nat) 10) 14 ''a'') = Some 1 \<and>
     snd (Get (SetWithTTL m 5 ''a'' (1::nat) 10) 15 ''a'') = None"
proof -
  obtain m :: "nat memory" and j where m: "NewMemory 3 = Some m" "length (shards m) = 2 ^ j" "wf_memory m"
    "\<forall>k. (3::nat) \<le> 2 ^ k \<longleftrightarrow> j \<le> k"
    using NewMemory_exact [of 3] by auto
  have "\<not> j \<le> 1" "j \<le> 2" using m(4) [rule_format, of 1] m(4) [rule_format, of 2] by simp_all
  then have "j = 2" by simp
  have wf: "wf_memory (SetWithTTL m 5 ''a'' 1 10)" using kv_refinement [OF m(3), of 5 5] by simp
  have "view (SetWithTTL m 5 ''a'' 1 10) 14 ''a'' = Some 1" "view (SetWithTTL m 5 ''a'' 1 10) 15 ''a'' = None"
    using kv_refinement [OF m(3), of 5 14 "''a''" 1 10] kv_refinement [OF m(3), of 5 15 "''a''" 1 10] by simp_all
  then have "snd (Get (SetWithTTL m 5 ''a'' 1 10) 14 ''a'') = Some 1"
    "snd (Get (SetWithTTL m 5 ''a'' 1 10) 15 ''a'') = None"
    using kv_refinement [OF wf, of 14 14 "''a''"] kv_refinement [OF wf, of 15 15 "''a''"] by simp_all
  with m(1,2) \<open>j = 2\<close> show ?thesis by (intro exI [of _ m]) simp
qed

text \<open>Construction ends exactly when it can. The rounding of the shard count to a power of two ends with
  the least one at or above it when that is at most \<open>2\<^sup>6\<^sup>2\<close>, and never ends for a larger count, whose
  doubling loses its bit; the store it builds is well-formed and empty. A count that is not positive
  stands for 16.\<close>

theorem kv_sizing:
  "if sint n \<le> 2 ^ 62
   then \<exists>m :: 'v memory. \<exists>j. NewMemory n = Some m \<and> length (shards m) = 2 ^ j \<and> wf_memory m \<and> Len m = 0 \<and>
     (\<forall>k. nat (if sint n \<le> 0 then 16 else sint n) \<le> 2 ^ k \<longleftrightarrow> j \<le> k)
   else (NewMemory n :: 'v memory option) = None"
proof (cases "sint n \<le> 2 ^ 62")
  case True
  then show ?thesis using NewMemory_exact [OF True] by simp
next
  case False
  then have "0 < sint n" by simp
  from nextPow2_exact [OF this] False show ?thesis by (simp add: NewMemory_def)
qed

end
