(* ===== verification/Breaker.thy ===== *)
theory Breaker
  imports Go_Time Prelude
begin

text \<open>
  The circuit breaker (\<^verbatim>\<open>internal/circuitbreaker/circuitbreaker.go\<close>): its operations, each with
  the lock held, and the system of concurrent calls around one breaker, whose calls enter through
  \<^verbatim>\<open>allow\<close> and leave through \<^verbatim>\<open>recordResult\<close> in any order. An error is a text; the
  operation of a call is not part of the breaker. While a listener runs the lock is dropped, so the
  listener is given as what becomes of the breaker meanwhile.
\<close>

section \<open>State\<close>

datatype cb_state = StateClosed | StateOpen | StateHalfOpen

fun state_String :: "cb_state \<Rightarrow> string" where
  "state_String StateClosed = ''closed''"
| "state_String StateOpen = ''open''"
| "state_String StateHalfOpen = ''half-open''"

record breaker =
  bState :: cb_state
  bFailures :: int
  openedAt :: time
  totalCalls :: int
  totalFailures :: int
  totalShortCirc :: int
  transitions :: int

record cb_config =
  Threshold :: int
  Cooldown :: duration
  IsFailure :: "(string option \<Rightarrow> bool) option"
  OnStateChange :: "(cb_state \<Rightarrow> cb_state \<Rightarrow> breaker \<Rightarrow> breaker) option"

text \<open>The defaults \<^verbatim>\<open>New\<close> fills in.\<close>

definition effective :: "cb_config \<Rightarrow> cb_config" where
  "effective cfg =
    (let cfg = (if Threshold cfg \<le> 0 then cfg\<lparr>Threshold := 5\<rparr> else cfg);
         cfg = (if Cooldown cfg \<le> 0 then cfg\<lparr>Cooldown := 30 * second\<rparr> else cfg)
     in if IsFailure cfg = None then cfg\<lparr>IsFailure := Some (\<lambda>err. err \<noteq> None)\<rparr> else cfg)"

definition NewBreaker :: breaker where
  "NewBreaker = \<lparr>bState = StateClosed, bFailures = 0, openedAt = 0, totalCalls = 0, totalFailures = 0,
     totalShortCirc = 0, transitions = 0\<rparr>"

section \<open>Operations\<close>

definition CbState :: "breaker \<Rightarrow> cb_state" where
  "CbState b = bState b"

definition transition :: "cb_config \<Rightarrow> cb_state \<Rightarrow> breaker \<Rightarrow> breaker" where
  "transition cfg to b =
    (let frm = bState b in
     if frm = to then b
     else
       (let b = b\<lparr>bState := to, transitions := transitions b + 1\<rparr> in
        case OnStateChange cfg of None \<Rightarrow> b | Some fn \<Rightarrow> fn frm to b))"

definition allow :: "cb_config \<Rightarrow> time \<Rightarrow> breaker \<Rightarrow> breaker \<times> bool" where
  "allow cfg now b =
    (let b = b\<lparr>totalCalls := totalCalls b + 1\<rparr> in
     case bState b of
       StateClosed \<Rightarrow> (b, True)
     | StateOpen \<Rightarrow>
         if time_Sub now (openedAt b) < Cooldown cfg then (b, False)
         else (transition cfg StateHalfOpen b, True)
     | StateHalfOpen \<Rightarrow> (b, False))"

definition failed_call :: "cb_config \<Rightarrow> string option \<Rightarrow> bool" where
  "failed_call cfg err = (case IsFailure cfg of Some f \<Rightarrow> f err | None \<Rightarrow> False)"

definition recordResult :: "cb_config \<Rightarrow> time \<Rightarrow> string option \<Rightarrow> breaker \<Rightarrow> breaker" where
  "recordResult cfg now err b =
    (let failed = failed_call cfg err;
         b = (if failed then b\<lparr>totalFailures := totalFailures b + 1\<rparr> else b)
     in case bState b of
          StateClosed \<Rightarrow>
            (if \<not> failed then b\<lparr>bFailures := 0\<rparr>
             else
               (let b = b\<lparr>bFailures := bFailures b + 1\<rparr> in
                if bFailures b \<ge> Threshold cfg then transition cfg StateOpen (b\<lparr>openedAt := now\<rparr>) else b))
        | StateHalfOpen \<Rightarrow>
            (if failed then (transition cfg StateOpen (b\<lparr>openedAt := now\<rparr>))\<lparr>bFailures := Threshold cfg\<rparr>
             else transition cfg StateClosed (b\<lparr>bFailures := 0\<rparr>))
        | StateOpen \<Rightarrow> b)"

definition short_circuit :: "breaker \<Rightarrow> breaker" where
  "short_circuit b = b\<lparr>totalShortCirc := totalShortCirc b + 1\<rparr>"

definition Reset :: "cb_config \<Rightarrow> breaker \<Rightarrow> breaker" where
  "Reset cfg b = transition cfg StateClosed (b\<lparr>bFailures := 0, openedAt := 0\<rparr>)"

definition ErrOpen :: string where
  "ErrOpen = ''circuitbreaker: open''"

text \<open>One call with nothing in between: the context's error, the times at which \<^verbatim>\<open>allow\<close> and
  \<^verbatim>\<open>recordResult\<close> read the clock, and what the operation returns. The last component says whether
  the operation did.\<close>

definition Do :: "cb_config \<Rightarrow> string option \<Rightarrow> time \<Rightarrow> time \<Rightarrow> string option \<Rightarrow> breaker \<Rightarrow>
    breaker \<times> string option \<times> bool" where
  "Do cfg ctxErr now now' opErr b =
    (case ctxErr of
       Some e \<Rightarrow> (b, Some e, False)
     | None \<Rightarrow>
         (case allow cfg now b of
            (b, False) \<Rightarrow> (short_circuit b, Some ErrOpen, False)
          | (b, True) \<Rightarrow> (recordResult cfg now' opErr b, opErr, True)))"

record cb_stats =
  stState :: cb_state
  stFailures :: int
  stTotalCalls :: int
  stTotalFailures :: int
  stTotalShortCircuits :: int
  stTransitions :: int

definition Stats :: "breaker \<Rightarrow> cb_stats" where
  "Stats b = \<lparr>stState = bState b, stFailures = bFailures b, stTotalCalls = totalCalls b,
     stTotalFailures = totalFailures b, stTotalShortCircuits = totalShortCirc b, stTransitions = transitions b\<rparr>"

section \<open>Concurrent calls\<close>

text \<open>Around the breaker: the calls whose operation runs, the calls turned away that have not counted
  themselves yet, and the calls whose operation has returned or panicked.\<close>

record system =
  brk :: breaker
  running :: nat
  rejected :: nat
  returned :: nat
  panicked :: nat

definition start :: "system \<Rightarrow> bool" where
  "start s \<longleftrightarrow> s = \<lparr>brk = NewBreaker, running = 0, rejected = 0, returned = 0, panicked = 0\<rparr>"

inductive call_step :: "cb_config \<Rightarrow> system \<Rightarrow> system \<Rightarrow> bool" for cfg where
  admit: "allow cfg now (brk s) = (b, True) \<Longrightarrow> call_step cfg s (s\<lparr>brk := b, running := running s + 1\<rparr>)"
| reject: "allow cfg now (brk s) = (b, False) \<Longrightarrow> call_step cfg s (s\<lparr>brk := b, rejected := rejected s + 1\<rparr>)"
| count_reject: "0 < rejected s \<Longrightarrow>
    call_step cfg s (s\<lparr>brk := short_circuit (brk s), rejected := rejected s - 1\<rparr>)"
| finish: "0 < running s \<Longrightarrow>
    call_step cfg s (s\<lparr>brk := recordResult cfg now err (brk s), running := running s - 1, returned := returned s + 1\<rparr>)"
| panic: "0 < running s \<Longrightarrow> call_step cfg s (s\<lparr>running := running s - 1, panicked := panicked s + 1\<rparr>)"
| reset: "call_step cfg s (s\<lparr>brk := Reset cfg (brk s)\<rparr>)"


section \<open>Invariant\<close>

text \<open>A listener that leaves the breaker alone.\<close>

definition quiet :: "cb_config \<Rightarrow> bool" where
  "quiet cfg \<longleftrightarrow> (case OnStateChange cfg of None \<Rightarrow> True | Some fn \<Rightarrow> \<forall>frm to b. fn frm to b = b)"

lemma effective_bounds: "0 < Threshold (effective cfg)" "0 < Cooldown (effective cfg)" "IsFailure (effective cfg) \<noteq> None"
  "quiet (effective cfg) = quiet cfg"
  by (simp_all add: effective_def Let_def quiet_def)

lemma transition_quiet:
  "quiet cfg \<Longrightarrow> transition cfg to b = (if bState b = to then b else b\<lparr>bState := to, transitions := transitions b + 1\<rparr>)"
  by (simp add: transition_def quiet_def Let_def split: option.splits)

definition breaker_ok :: "cb_config \<Rightarrow> breaker \<Rightarrow> bool" where
  "breaker_ok cfg b \<longleftrightarrow>
    (if bState b = StateClosed then 0 \<le> bFailures b \<and> bFailures b < Threshold cfg else bFailures b = Threshold cfg)"

definition system_ok :: "cb_config \<Rightarrow> system \<Rightarrow> bool" where
  "system_ok cfg s \<longleftrightarrow> breaker_ok cfg (brk s) \<and>
    (bState (brk s) = StateHalfOpen \<longrightarrow> 0 < running s + panicked s) \<and>
    totalCalls (brk s) = totalShortCirc (brk s) + int (rejected s + running s + returned s + panicked s) \<and>
    0 \<le> totalFailures (brk s) \<and> totalFailures (brk s) \<le> int (returned s)"

lemma allow_True:
  "quiet cfg \<Longrightarrow> allow cfg now b = (b', True) \<Longrightarrow>
    bState b \<noteq> StateHalfOpen \<and> totalCalls b' = totalCalls b + 1 \<and> totalShortCirc b' = totalShortCirc b \<and>
    totalFailures b' = totalFailures b \<and> bFailures b' = bFailures b \<and>
    (bState b' = bState b \<and> bState b = StateClosed \<or> bState b' = StateHalfOpen \<and> bState b = StateOpen)"
  by (auto simp: allow_def Let_def transition_quiet split: cb_state.splits if_splits)

lemma allow_False:
  "allow cfg now b = (b', False) \<Longrightarrow> b' = b\<lparr>totalCalls := totalCalls b + 1\<rparr> \<and> bState b \<noteq> StateClosed"
  by (auto simp: allow_def Let_def split: cb_state.splits if_splits)

lemma recordResult_counts:
  "quiet cfg \<Longrightarrow> totalCalls (recordResult cfg now err b) = totalCalls b \<and>
    totalShortCirc (recordResult cfg now err b) = totalShortCirc b \<and>
    totalFailures (recordResult cfg now err b) = totalFailures b + (if failed_call cfg err then 1 else 0) \<and>
    bState (recordResult cfg now err b) \<noteq> StateHalfOpen"
  by (auto simp: recordResult_def Let_def transition_quiet split: cb_state.split)

lemma recordResult_ok:
  "quiet cfg \<Longrightarrow> 0 < Threshold cfg \<Longrightarrow> breaker_ok cfg b \<Longrightarrow> breaker_ok cfg (recordResult cfg now err b)"
  by (auto simp: recordResult_def Let_def transition_quiet breaker_ok_def split: cb_state.split)

lemma Reset_ok:
  "quiet cfg \<Longrightarrow> 0 < Threshold cfg \<Longrightarrow> breaker_ok cfg (Reset cfg b) \<and> bState (Reset cfg b) = StateClosed \<and>
    totalCalls (Reset cfg b) = totalCalls b \<and> totalShortCirc (Reset cfg b) = totalShortCirc b \<and>
    totalFailures (Reset cfg b) = totalFailures b"
  by (simp add: Reset_def transition_quiet breaker_ok_def)

lemma system_ok_step:
  assumes "quiet cfg" "0 < Threshold cfg" "system_ok cfg s" "call_step cfg s t"
  shows "system_ok cfg t"
  using assms(4)
proof (cases rule: call_step.cases)
  case (admit now b)
  then show ?thesis
    using allow_True [OF assms(1) admit(2)] assms(3) by (auto simp: system_ok_def breaker_ok_def)
next
  case (reject now b)
  then show ?thesis
    using allow_False [OF reject(2)] assms(3) by (auto simp: system_ok_def breaker_ok_def)
next
  case count_reject
  then show ?thesis using assms(3) by (auto simp: system_ok_def breaker_ok_def short_circuit_def)
next
  case (finish now err)
  then show ?thesis
    using recordResult_counts [OF assms(1), of now err "brk s"] recordResult_ok [OF assms(1,2), of "brk s" now err] assms(3)
    by (auto simp: system_ok_def)
next
  case panic
  then show ?thesis using assms(3) by (auto simp: system_ok_def)
next
  case reset
  then show ?thesis using Reset_ok [OF assms(1,2), of "brk s"] assms(3) by (auto simp: system_ok_def)
qed

interpretation breaker: invariant_machine start "call_step (effective cfg)"
    "\<lambda>s. quiet cfg \<longrightarrow> system_ok (effective cfg) s" for cfg
proof
  show "quiet cfg \<longrightarrow> system_ok (effective cfg) s" if "start s" for s
    using that effective_bounds(1) [of cfg] by (auto simp: start_def system_ok_def breaker_ok_def NewBreaker_def)
  show "quiet cfg \<longrightarrow> system_ok (effective cfg) t"
    if "quiet cfg \<longrightarrow> system_ok (effective cfg) s" "call_step (effective cfg) s t" for s t
    using that system_ok_step [of "effective cfg" s t] effective_bounds by blast
qed

section \<open>Properties\<close>


definition sample_config :: cb_config where
  "sample_config = \<lparr>Threshold = 1, Cooldown = 10, IsFailure = None, OnStateChange = None\<rparr>"


text \<open>Calls one after the other.\<close>

definition run_calls :: "cb_config \<Rightarrow> (time \<times> time \<times> string option) list \<Rightarrow> breaker \<Rightarrow> breaker" where
  "run_calls cfg calls b = foldl (\<lambda>b (now, now', err). fst (Do cfg None now now' err b)) b calls"

lemma failed_call_default: "IsFailure cfg = None \<Longrightarrow> failed_call (effective cfg) err \<longleftrightarrow> err \<noteq> None"
  by (simp add: failed_call_def effective_def Let_def)

lemma Do_closed_failure:
  assumes "quiet cfg" "bState b = StateClosed" "failed_call cfg err"
  shows "bFailures (fst (Do cfg None now now' err b)) = bFailures b + 1 \<and>
    bState (fst (Do cfg None now now' err b)) = (if bFailures b + 1 < Threshold cfg then StateClosed else StateOpen)"
  using assms by (simp add: Do_def allow_def recordResult_def Let_def transition_quiet)

lemma run_failures:
  assumes "quiet cfg" "list_all (\<lambda>(now, now', err). failed_call cfg err) calls" "bState b = StateClosed"
    "bFailures b + int (length calls) \<le> Threshold cfg"
  shows "bFailures (run_calls cfg calls b) = bFailures b + int (length calls) \<and>
    bState (run_calls cfg calls b) =
      (if calls = [] \<or> bFailures b + int (length calls) < Threshold cfg then StateClosed else StateOpen)"
  using assms(2-)
proof (induction calls arbitrary: b)
  case (Cons call calls)
  obtain now now' err where c: "call = (now, now', err)" by (cases call) auto
  note step = Do_closed_failure [OF assms(1) Cons.prems(2), of err now now']
  show ?case
  proof (cases "calls = []")
    case False
    then have "bFailures b + 1 < Threshold cfg" using Cons.prems(3) by (cases calls) auto
    with Cons step c False show ?thesis by (auto simp: run_calls_def)
  qed (use Cons.prems step c in \<open>auto simp: run_calls_def\<close>)
qed (simp add: run_calls_def)

text \<open>A half-open breaker lets nothing through by itself: after a probe that panicked it stays half-open
  whatever the time.\<close>

theorem half_open_rejects:
  "bState b = StateHalfOpen \<Longrightarrow> Do cfg None now now' err b =
    (b\<lparr>totalCalls := totalCalls b + 1, totalShortCirc := totalShortCirc b + 1\<rparr>, Some ErrOpen, False)"
  by (simp add: Do_def allow_def Let_def short_circuit_def)

text \<open>(C22) The cycle of a breaker whose calls do not overlap, with the default failure test. From closed, with no
  failures so far or after a success that makes it forget them, it is open after exactly as many failing
  calls in a row as the threshold, and closed before; open, it turns calls away without running them until the cooldown has passed since it
  opened, and then runs the next call, whose success closes it with no failures and whose failure
  opens it again from that moment.\<close>

theorem breaker_cycle:
  assumes "quiet cfg" "IsFailure cfg = None" "Cooldown (effective cfg) \<le> max_duration"
    and "bState b = StateClosed"
    and "prior = (if bFailures b = 0 then [] else [(t, t', None)])"
    and "list_all (\<lambda>(now, now', err). err \<noteq> None) calls" "int (length calls) \<le> Threshold (effective cfg)"
    and "bState d = StateOpen"
  shows "bState (run_calls (effective cfg) (prior @ calls) b) =
      (if int (length calls) = Threshold (effective cfg) then StateOpen else StateClosed) \<and>
    (case Do (effective cfg) None now now' err d of
       (d', result, did) \<Rightarrow>
         if now - openedAt d < Cooldown (effective cfg)
         then \<not> did \<and> result = Some ErrOpen \<and> bState d' = StateOpen \<and> openedAt d' = openedAt d
         else did \<and> result = err \<and>
           (if err = None then bState d' = StateClosed \<and> bFailures d' = 0
            else bState d' = StateOpen \<and> openedAt d' = now' \<and> bFailures d' = Threshold (effective cfg)))"
proof
  let ?c = "effective cfg"
  have q: "quiet ?c" using assms(1) effective_bounds(4) by blast
  define b' where "b' = run_calls ?c prior b"
  have b': "bState b' = StateClosed" "bFailures b' = 0"
    using assms(4,5) failed_call_default [OF assms(2)]
    by (auto simp: b'_def run_calls_def Do_def allow_def recordResult_def Let_def)
  have "run_calls ?c (prior @ calls) b = run_calls ?c calls b'" by (simp add: b'_def run_calls_def)
  then show "bState (run_calls ?c (prior @ calls) b) = (if int (length calls) = Threshold ?c then StateOpen else StateClosed)"
    using run_failures [OF q, of calls b'] b' assms effective_bounds(1) [of cfg]
    by (auto simp: failed_call_default)
  have "time_Sub now (openedAt d) < Cooldown ?c \<longleftrightarrow> now - openedAt d < Cooldown ?c"
    using assms(3) effective_bounds(2) by (intro time_Sub_less_iff)
  then show "case Do ?c None now now' err d of
       (d', result, did) \<Rightarrow>
         if now - openedAt d < Cooldown ?c
         then \<not> did \<and> result = Some ErrOpen \<and> bState d' = StateOpen \<and> openedAt d' = openedAt d
         else did \<and> result = err \<and>
           (if err = None then bState d' = StateClosed \<and> bFailures d' = 0
            else bState d' = StateOpen \<and> openedAt d' = now' \<and> bFailures d' = Threshold ?c)"
    using assms(8) failed_call_default [OF assms(2)]
    by (simp add: Do_def allow_def recordResult_def Let_def transition_quiet [OF q] short_circuit_def)
qed

theorem breaker_cycle_witness:
  "bState (run_calls (effective sample_config) [(0, 7, Some ''down'')] NewBreaker) = StateOpen \<and>
    (case Do (effective sample_config) None 20 21 None (NewBreaker\<lparr>bState := StateOpen, openedAt := 7\<rparr>) of
       (d', result, did) \<Rightarrow> did \<and> bState d' = StateClosed)"
proof -
  let ?d = "NewBreaker\<lparr>bState := StateOpen, openedAt := 7\<rparr>"
  have c: "quiet sample_config" "IsFailure sample_config = None" "Cooldown (effective sample_config) = 10"
    "Threshold (effective sample_config) = 1"
    by (simp_all add: quiet_def sample_config_def effective_def Let_def)
  have m: "Cooldown (effective sample_config) \<le> max_duration" unfolding c(3) by (simp add: max_duration_def)
  have b: "bState NewBreaker = StateClosed" "bFailures NewBreaker = 0" "bState ?d = StateOpen" "openedAt ?d = 7"
    by (simp_all add: NewBreaker_def)
  have "list_all (\<lambda>(now, now', err). err \<noteq> None) [(0 :: int, 7 :: int, Some ''down'')]"
    "int (length [(0 :: int, 7 :: int, Some ''down'')]) \<le> Threshold (effective sample_config)"
    by (simp_all add: c(4))
  from breaker_cycle [OF c(1,2) m b(1) _ this b(3), where prior = "[]" and now = 20 and now' = 21 and err = None] show ?thesis
    unfolding c(3,4) b(4) by (auto simp: b(2) split: prod.splits)
qed

end
