(* ===== verification/Limiter.thy ===== *)
theory Limiter
  imports Prelude
begin

text \<open>
  The counting semaphore (\<^verbatim>\<open>internal/limiter/limiter.go\<close>): its operations with the lock held,
  and the system of threads that acquire, sleep on the condition variable, are woken and release.
  A thread checks its request and goes to sleep with the lock held, but wake-ups are sent without
  it, and so are cancellations.
\<close>

section \<open>State and operations\<close>

record semaphore =
  capacity :: int
  inFlight :: int
  totalAcquired :: int
  totalWaited :: int

definition NewSemaphore :: "int \<Rightarrow> semaphore result" where
  "NewSemaphore cap =
    (if cap < 1 then Inl ''limiter.NewSemaphore: capacity must be >= 1''
     else Inr \<lparr>capacity = cap, inFlight = 0, totalAcquired = 0, totalWaited = 0\<rparr>)"

definition fits :: "semaphore \<Rightarrow> int \<Rightarrow> bool" where
  "fits s n \<longleftrightarrow> \<not> inFlight s + n > capacity s"

text \<open>The end of \<^verbatim>\<open>AcquireN\<close>, after its loop.\<close>

definition grant :: "int \<Rightarrow> bool \<Rightarrow> semaphore \<Rightarrow> semaphore" where
  "grant n waited s =
    s\<lparr>inFlight := inFlight s + n, totalAcquired := totalAcquired s + n,
      totalWaited := (if waited then totalWaited s + 1 else totalWaited s)\<rparr>"

definition ErrCapacityExceeded :: string where
  [simp]: "ErrCapacityExceeded = ''limiter: requested permits exceed capacity''"

text \<open>How \<^verbatim>\<open>AcquireN\<close> begins: it returns at once, possibly with an error, or goes on to the
  loop.\<close>

datatype entry_check = Return "string option" | Enter

definition acquire_entry :: "semaphore \<Rightarrow> string option \<Rightarrow> int \<Rightarrow> entry_check" where
  "acquire_entry s ctxErr n =
    (if n \<le> 0 then Return None
     else if n > capacity s then Return (Some ErrCapacityExceeded)
     else case ctxErr of Some e \<Rightarrow> Return (Some e) | None \<Rightarrow> Enter)"

text \<open>\<^verbatim>\<open>Acquire\<close> is \<^verbatim>\<open>AcquireN\<close> for one permit.\<close>

definition Acquire_begin :: "semaphore \<Rightarrow> string option \<Rightarrow> entry_check" where
  "Acquire_begin s ctxErr = acquire_entry s ctxErr 1"

definition TryAcquireN :: "int \<Rightarrow> semaphore \<Rightarrow> semaphore \<times> bool" where
  "TryAcquireN n s =
    (if n \<le> 0 then (s, True)
     else if inFlight s + n > capacity s then (s, False)
     else (s\<lparr>inFlight := inFlight s + n, totalAcquired := totalAcquired s + n\<rparr>, True))"

definition TryAcquire :: "semaphore \<Rightarrow> semaphore \<times> bool" where
  "TryAcquire s = TryAcquireN 1 s"

definition ReleaseN :: "int \<Rightarrow> semaphore \<Rightarrow> semaphore result" where
  "ReleaseN n s =
    (if n \<le> 0 then Inr s
     else if inFlight s < n then Inl ''limiter: ReleaseN: released more permits than acquired''
     else Inr (s\<lparr>inFlight := inFlight s - n\<rparr>))"

definition Release :: "semaphore \<Rightarrow> semaphore result" where
  "Release s = ReleaseN 1 s"

text \<open>\<^verbatim>\<open>Run\<close> when it need not wait (\<open>None\<close> when it must): the permit is returned after the function,
  whose own effect on the semaphore comes in between; a panic of \<^verbatim>\<open>Release\<close> is an \<open>Inl\<close>.\<close>

definition SemRun :: "string option \<Rightarrow> (semaphore \<Rightarrow> semaphore \<times> string option) \<Rightarrow> semaphore \<Rightarrow>
    (semaphore \<times> string option) result option" where
  "SemRun ctxErr fn s =
    (case Acquire_begin s ctxErr of
       Return e \<Rightarrow> Some (Inr (s, e))
     | Enter \<Rightarrow>
         if \<not> fits s 1 then None
         else
           (case fn (grant 1 False s) of
              (s', res) \<Rightarrow> Some (map_sum id (\<lambda>s''. (s'', res)) (Release s'))))"

definition InFlight :: "semaphore \<Rightarrow> int" where
  "InFlight s = inFlight s"

definition Capacity :: "semaphore \<Rightarrow> int" where
  "Capacity s = capacity s"

record sem_stats =
  TotalAcquired :: int
  TotalWaited :: int

definition SemStats :: "semaphore \<Rightarrow> sem_stats" where
  "SemStats s = \<lparr>TotalAcquired = totalAcquired s, TotalWaited = totalWaited s\<rparr>"

section \<open>Threads\<close>

text \<open>Where a thread is: outside, in the loop about to take the lock (having slept or not), between its
  check and its sleep with the lock held, asleep, or holding permits.\<close>

datatype phase = Outside | Trying int bool | Parking int | Asleep int | Holding int

fun held :: "phase \<Rightarrow> int" where
  "held (Holding n) = n"
| "held _ = 0"

fun wake :: "phase \<Rightarrow> phase" where
  "wake (Asleep n) = Trying n True"
| "wake p = p"

record threads =
  sem :: semaphore
  phases :: "nat \<Rightarrow> phase"
  cancelled :: "nat set"
  lock :: "nat option"
  broadcasts :: nat

text \<open>The steps of \<open>N\<close> threads; \<open>broadcasts\<close> counts the wake-ups that were decided and not yet
  sent.\<close>

inductive sem_step :: "nat \<Rightarrow> threads \<Rightarrow> threads \<Rightarrow> bool" for N where
  enter: "t < N \<Longrightarrow> phases s t = Outside \<Longrightarrow>
    acquire_entry (sem s) (if t \<in> cancelled s then Some e else None) n = Enter \<Longrightarrow>
    sem_step N s (s\<lparr>phases := (phases s)(t := Trying n False)\<rparr>)"
| take: "t < N \<Longrightarrow> phases s t = Trying n waited \<Longrightarrow> lock s = None \<Longrightarrow> fits (sem s) n \<Longrightarrow>
    sem_step N s (s\<lparr>phases := (phases s)(t := Holding n), sem := grant n waited (sem s)\<rparr>)"
| give_up: "t < N \<Longrightarrow> phases s t = Trying n waited \<Longrightarrow> lock s = None \<Longrightarrow> \<not> fits (sem s) n \<Longrightarrow> t \<in> cancelled s \<Longrightarrow>
    sem_step N s (s\<lparr>phases := (phases s)(t := Outside)\<rparr>)"
| check: "t < N \<Longrightarrow> phases s t = Trying n waited \<Longrightarrow> lock s = None \<Longrightarrow> \<not> fits (sem s) n \<Longrightarrow> t \<notin> cancelled s \<Longrightarrow>
    sem_step N s (s\<lparr>phases := (phases s)(t := Parking n), lock := Some t\<rparr>)"
| park: "t < N \<Longrightarrow> phases s t = Parking n \<Longrightarrow> lock s = Some t \<Longrightarrow>
    sem_step N s (s\<lparr>phases := (phases s)(t := Asleep n), lock := None\<rparr>)"
| try_take: "t < N \<Longrightarrow> phases s t = Outside \<Longrightarrow> 0 < n \<Longrightarrow> lock s = None \<Longrightarrow> TryAcquireN n (sem s) = (sem', True) \<Longrightarrow>
    sem_step N s (s\<lparr>phases := (phases s)(t := Holding n), sem := sem'\<rparr>)"
| release: "t < N \<Longrightarrow> phases s t = Holding n \<Longrightarrow> lock s = None \<Longrightarrow> ReleaseN n (sem s) = Inr sem' \<Longrightarrow>
    sem_step N s (s\<lparr>phases := (phases s)(t := Outside), sem := sem', broadcasts := broadcasts s + 1\<rparr>)"
| cancel: "t < N \<Longrightarrow>
    sem_step N s (s\<lparr>cancelled := insert t (cancelled s), broadcasts := broadcasts s + 1\<rparr>)"
| broadcast: "0 < broadcasts s \<Longrightarrow>
    sem_step N s (s\<lparr>phases := wake \<circ> phases s, broadcasts := broadcasts s - 1\<rparr>)"

definition sem_start :: "int \<Rightarrow> threads \<Rightarrow> bool" where
  "sem_start cap s \<longleftrightarrow> NewSemaphore cap = Inr (sem s) \<and> phases s = (\<lambda>_. Outside) \<and> cancelled s = {} \<and>
     lock s = None \<and> broadcasts s = 0"

section \<open>Invariant\<close>

fun wanted :: "phase \<Rightarrow> int option" where
  "wanted Outside = None"
| "wanted (Trying n w) = Some n"
| "wanted (Parking n) = Some n"
| "wanted (Asleep n) = Some n"
| "wanted (Holding n) = Some n"

text \<open>The permits held add up, no request is for nothing, the lock is held by exactly the thread that is
  about to sleep, whose request does not fit, and while no wake-up is due no sleeper's request
  fits.\<close>

definition sem_ok :: "nat \<Rightarrow> threads \<Rightarrow> bool" where
  "sem_ok N s \<longleftrightarrow>
     inFlight (sem s) = (\<Sum>t<N. held (phases s t)) \<and> inFlight (sem s) \<le> capacity (sem s) \<and>
     (\<forall>t n. wanted (phases s t) = Some n \<longrightarrow> 0 < n) \<and>
     (\<forall>t n. phases s t = Parking n \<longrightarrow> lock s = Some t \<and> \<not> fits (sem s) n) \<and>
     (\<forall>t. lock s = Some t \<longrightarrow> t < N \<and> (\<exists>n. phases s t = Parking n)) \<and>
     (broadcasts s = 0 \<longrightarrow> (\<forall>t n. phases s t = Asleep n \<longrightarrow> \<not> fits (sem s) n))"

lemma sum_held_update:
  "t < (N :: nat) \<Longrightarrow> (\<Sum>i<N. held ((f(t := p)) i)) = (\<Sum>i<N. held (f i)) - held (f t) + held p"
  using sum_fun_move [of "{..<N}" t "\<lambda>_. held" f p] by simp

lemma sem_ok_wanted: "sem_ok N s \<Longrightarrow> wanted (phases s t) = Some n \<Longrightarrow> 0 < n"
  by (auto simp: sem_ok_def)

lemma held_wake: "held (wake p) = held p"
  by (cases p) auto

lemma wanted_wake: "wanted (wake p) = wanted p"
  by (cases p) auto

lemma wake_Parking: "wake p = Parking n \<longleftrightarrow> p = Parking n" and wake_Asleep: "wake p \<noteq> Asleep n"
  by (cases p; auto)+

lemma fits_mono: "\<not> fits s n \<Longrightarrow> capacity s' = capacity s \<Longrightarrow> inFlight s \<le> inFlight s' \<Longrightarrow> \<not> fits s' n"
  by (simp add: fits_def)

text \<open>A step that moves one thread.\<close>

lemma sem_ok_move:
  assumes "sem_ok N s" "t < N" "lock s = None \<or> lock s = Some t" "phases s' = (phases s)(t := p)"
    and "inFlight (sem s') = inFlight (sem s) - held (phases s t) + held p" "capacity (sem s') = capacity (sem s)"
    and "inFlight (sem s') \<le> capacity (sem s')"
    and "\<And>n. wanted p = Some n \<Longrightarrow> 0 < n"
    and "\<And>n. p = Parking n \<Longrightarrow> lock s' = Some t \<and> \<not> fits (sem s') n"
    and "\<And>n. p = Asleep n \<Longrightarrow> \<not> fits (sem s') n"
    and "inFlight (sem s) \<le> inFlight (sem s') \<and> broadcasts s' = broadcasts s \<or> broadcasts s' > 0"
    and "lock s' = None \<or> lock s' = Some t \<and> (\<exists>n. p = Parking n)"
  shows "sem_ok N s'"
proof -
  have one: "\<forall>u n. phases s u = Parking n \<longrightarrow> u = t"
    using assms(1,3) by (auto simp: sem_ok_def)
  have sleepers: "\<forall>u n. phases s u = Asleep n \<longrightarrow> \<not> fits (sem s') n" if "broadcasts s' = 0"
    using assms(1,6,11) that fits_mono [of "sem s" _ "sem s'"] by (auto simp: sem_ok_def)
  have "inFlight (sem s') = (\<Sum>t<N. held (phases s' t))"
    using assms(1,5) sum_held_update [OF assms(2), of "phases s" p] unfolding assms(4) by (simp add: sem_ok_def)
  moreover have "\<forall>u n. wanted (phases s' u) = Some n \<longrightarrow> 0 < n"
    using assms(1,8) unfolding assms(4) by (simp add: sem_ok_def)
  moreover have "\<forall>u n. phases s' u = Parking n \<longrightarrow> lock s' = Some u \<and> \<not> fits (sem s') n"
    using one assms(9) unfolding assms(4) by auto
  moreover have "broadcasts s' = 0 \<longrightarrow> (\<forall>u n. phases s' u = Asleep n \<longrightarrow> \<not> fits (sem s') n)"
    using sleepers assms(10) unfolding assms(4) by auto
  moreover have "\<forall>u. lock s' = Some u \<longrightarrow> u < N \<and> (\<exists>n. phases s' u = Parking n)"
    using assms(2,12) unfolding assms(4) by auto
  ultimately show ?thesis using assms(7) by (simp add: sem_ok_def)
qed

lemma sem_ok_step:
  assumes "sem_ok N s" "sem_step N s s'"
  shows "sem_ok N s'"
proof -
  have cap: "inFlight (sem s) \<le> capacity (sem s)" using assms(1) by (simp add: sem_ok_def)
  show ?thesis
    using assms(2)
  proof (cases rule: sem_step.cases)
    case (enter t e n)
    from enter(4) have "0 < n" by (auto simp: acquire_entry_def split: if_splits)
    with enter assms(1) show ?thesis
      using sum_held_update [OF enter(2), of "phases s" "Trying n False"] by (auto simp: sem_ok_def)
  next
    case (take t n waited)
    have "0 < n" using sem_ok_wanted [OF assms(1), of t n] take(3) by simp
    with take show ?thesis
      by (intro sem_ok_move [OF assms(1) take(2), of s' "Holding n"]) (auto simp: grant_def fits_def)
  next
    case (give_up t n waited)
    then show ?thesis
      using cap by (intro sem_ok_move [OF assms(1) give_up(2), of s' Outside]) auto
  next
    case (check t n waited)
    have "0 < n" using sem_ok_wanted [OF assms(1), of t n] check(3) by simp
    with check show ?thesis
      using cap by (intro sem_ok_move [OF assms(1) check(2), of s' "Parking n"]) auto
  next
    case (park t n)
    have "0 < n" using sem_ok_wanted [OF assms(1), of t n] park(3) by simp
    moreover have "\<not> fits (sem s) n" using assms(1) park(3) by (simp add: sem_ok_def)
    ultimately show ?thesis
      using park cap by (intro sem_ok_move [OF assms(1) park(2), of s' "Asleep n"]) auto
  next
    case (try_take t n sem')
    then show ?thesis
      by (intro sem_ok_move [OF assms(1) try_take(2), of s' "Holding n"]) (auto simp: TryAcquireN_def split: if_splits)
  next
    case (release t n sem')
    have "0 < n" using sem_ok_wanted [OF assms(1), of t n] release(3) by simp
    with release show ?thesis
      using cap by (intro sem_ok_move [OF assms(1) release(2), of s' Outside]) (auto simp: ReleaseN_def split: if_splits)
  next
    case (cancel t)
    then show ?thesis using assms(1) by (auto simp: sem_ok_def)
  next
    case broadcast
    then show ?thesis
      using assms(1) by (auto simp: sem_ok_def held_wake wanted_wake wake_Parking wake_Asleep)
  qed
qed

lemma sem_step_capacity: "sem_step N s s' \<Longrightarrow> capacity (sem s') = capacity (sem s)"
  by (cases rule: sem_step.cases, assumption) (auto simp: grant_def TryAcquireN_def ReleaseN_def split: if_splits)

interpretation semaphore: invariant_machine "sem_start cap" "sem_step N"
    "\<lambda>s. sem_ok N s \<and> capacity (sem s) = cap" for cap N
proof
  show "sem_ok N s \<and> capacity (sem s) = cap" if "sem_start cap s" for s
  proof -
    have "sem s = \<lparr>capacity = cap, inFlight = 0, totalAcquired = 0, totalWaited = 0\<rparr>" "\<not> cap < 1"
      using that by (auto simp: sem_start_def NewSemaphore_def split: if_splits)
    then show ?thesis using that by (simp add: sem_start_def sem_ok_def)
  qed
  show "sem_ok N t \<and> capacity (sem t) = cap"
    if "sem_ok N s \<and> capacity (sem s) = cap" "sem_step N s t" for s t
    using that sem_ok_step sem_step_capacity by metis
qed

section \<open>Properties\<close>


text \<open>A run of two threads on one permit: the first holds it, the second sleeps.\<close>

definition one_permit :: semaphore where
  "one_permit = \<lparr>capacity = 1, inFlight = 0, totalAcquired = 0, totalWaited = 0\<rparr>"

definition run0 :: threads where
  "run0 = \<lparr>sem = one_permit, phases = (\<lambda>_. Outside), cancelled = {}, lock = None, broadcasts = 0\<rparr>"

definition run1 :: threads where
  "run1 = run0\<lparr>phases := (phases run0)(0 := Holding 1), sem := fst (TryAcquire one_permit)\<rparr>"

definition run2 :: threads where
  "run2 = run1\<lparr>phases := (phases run1)(1 := Trying 1 False)\<rparr>"

definition run3 :: threads where
  "run3 = run2\<lparr>phases := (phases run2)(1 := Parking 1), lock := Some 1\<rparr>"

lemmas run_defs = run0_def run1_def run2_def run3_def one_permit_def TryAcquire_def TryAcquireN_def

lemma run3_reach: "reach (sem_start 1) (sem_step 2) run3"
proof -
  have "reach (sem_start 1) (sem_step 2) run0"
    by (rule reach_start) (simp add: sem_start_def run_defs NewSemaphore_def)
  moreover have "sem_step 2 run0 run1"
    unfolding run1_def by (rule try_take [where n = 1]) (simp_all add: run_defs)
  moreover have "sem_step 2 run1 run2"
    unfolding run2_def by (rule enter) (simp_all add: run_defs acquire_entry_def)
  moreover have "sem_step 2 run2 run3"
    unfolding run3_def by (rule check [where waited = False]) (simp_all add: run_defs fits_def)
  ultimately show ?thesis by (blast intro: reach_step)
qed


text \<open>Progress. A sleeping thread whose permits are free is never stuck: some continuation of at most three
  steps, in which nobody else acquires or releases, hands it its permits.\<close>

theorem sleeper_can_proceed:
  assumes "reach (sem_start cap) (sem_step N) s" "t < N" "phases s t = Asleep n" "fits (sem s) n"
  shows "\<exists>s'. (sem_step N)\<^sup>*\<^sup>* s s' \<and> phases s' t = Holding n \<and> inFlight (sem s') = inFlight (sem s) + n"
proof -
  have ok: "sem_ok N s" using semaphore.inv_reach [OF assms(1)] by blast
  have due: "0 < broadcasts s"
  proof (rule ccontr)
    assume "\<not> 0 < broadcasts s"
    then have "\<not> fits (sem s) n" using ok assms(3) unfolding sem_ok_def by blast
    with assms(4) show False by contradiction
  qed
  have free: "\<exists>r. (sem_step N)\<^sup>*\<^sup>* s r \<and> lock r = None \<and> phases r t = Asleep n \<and> sem r = sem s \<and> 0 < broadcasts r"
  proof (cases "lock s")
    case None
    with due assms(3) show ?thesis by (intro exI [of _ s]) simp
  next
    case (Some u)
    obtain m where u: "u < N" "phases s u = Parking m"
      using ok Some unfolding sem_ok_def by blast
    let ?p = "s\<lparr>phases := (phases s)(u := Asleep m), lock := None\<rparr>"
    have "sem_step N s ?p" by (rule park [OF u Some])
    moreover have "u \<noteq> t" using u assms(3) by auto
    ultimately show ?thesis using due assms(3) by (intro exI [of _ ?p]) auto
  qed
  then obtain r where r: "(sem_step N)\<^sup>*\<^sup>* s r" "lock r = None" "phases r t = Asleep n" "sem r = sem s" "0 < broadcasts r"
    by blast
  let ?w = "r\<lparr>phases := wake \<circ> phases r, broadcasts := broadcasts r - 1\<rparr>"
  let ?h = "?w\<lparr>phases := (phases ?w)(t := Holding n), sem := grant n True (sem ?w)\<rparr>"
  have "sem_step N r ?w" by (rule broadcast [OF r(5)])
  moreover have "sem_step N ?w ?h"
    using assms(2,4) r by (intro take) simp_all
  ultimately have "(sem_step N)\<^sup>*\<^sup>* s ?h" using r(1) by (meson rtranclp.rtrancl_into_rtrancl)
  then show ?thesis using r(4) by (intro exI [of _ ?h]) (simp add: grant_def)
qed

text \<open>A cancellation can be missed: its wake-up goes out between the check and the sleep of the thread it is
  meant for, which then sleeps although its context is done.\<close>

theorem cancellation_can_be_missed:
  "\<exists>s. reach (sem_start 1) (sem_step 2) s \<and> 1 \<in> cancelled s \<and> phases s 1 = Asleep 1 \<and> broadcasts s = 0"
proof -
  let ?c = "run3\<lparr>cancelled := insert 1 (cancelled run3), broadcasts := broadcasts run3 + 1\<rparr>"
  let ?b = "?c\<lparr>phases := wake \<circ> phases ?c, broadcasts := broadcasts ?c - 1\<rparr>"
  let ?p = "?b\<lparr>phases := (phases ?b)(1 := Asleep 1), lock := None\<rparr>"
  have "sem_step 2 run3 ?c" by (rule cancel) simp
  moreover have "sem_step 2 ?c ?b" by (rule broadcast) simp
  moreover have "sem_step 2 ?b ?p" by (rule park) (simp_all add: run_defs)
  ultimately have "reach (sem_start 1) (sem_step 2) ?p" using run3_reach by (blast intro: reach_step)
  then show ?thesis by (intro exI [of _ ?p]) (simp add: run_defs)
qed

text \<open>The sleeper of the run, with the release that frees its permit.\<close>

theorem sleeper_can_proceed_witness:
  "\<exists>s s'. phases s 1 = Asleep 1 \<and> phases s 0 = Outside \<and> (sem_step 2)\<^sup>*\<^sup>* s s' \<and> phases s' 1 = Holding 1"
proof -
  let ?p = "run3\<lparr>phases := (phases run3)(1 := Asleep 1), lock := None\<rparr>"
  let ?r = "?p\<lparr>phases := (phases ?p)(0 := Outside), sem := (sem ?p)\<lparr>inFlight := 0\<rparr>, broadcasts := broadcasts ?p + 1\<rparr>"
  have "sem_step 2 run3 ?p" by (rule park) (simp_all add: run_defs)
  moreover have "sem_step 2 ?p ?r"
    by (rule release [where n = 1]) (simp_all add: run_defs ReleaseN_def)
  ultimately have "reach (sem_start 1) (sem_step 2) ?r" using run3_reach by (blast intro: reach_step)
  moreover have "phases ?r 1 = Asleep 1" "fits (sem ?r) 1" "phases ?r 0 = Outside" by (simp_all add: run_defs fits_def)
  ultimately show ?thesis using sleeper_can_proceed [of 1 2 ?r 1 1] by fastforce
qed

end
