(* ===== verification/Ratelimit.thy ===== *)
theory Ratelimit
  imports Go_Time Go_Float Prelude
begin

text \<open>
  The token bucket and the manual limiter (\<^verbatim>\<open>internal/ratelimit/ratelimit.go\<close>). Tokens are
  \<^verbatim>\<open>float64\<close> values, kept as the exact rationals they are and rounded at every operation. A
  waiting call is the list of what happens to it: the clock at each try and whether its timer fires
  or its context ends.
\<close>

section \<open>The bucket\<close>

record bucket =
  rate :: rat
  burst :: int
  tokens :: rat
  lastFill :: time

text \<open>\<^verbatim>\<open>float64(n)\<close> and \<^verbatim>\<open>Duration.Seconds\<close>; both stay in range. A product or sum out of range
  is positive infinity, which the cap replaces.\<close>

definition to_float :: "int \<Rightarrow> rat" where
  "to_float n = the (float64_round (of_int n))"

definition Seconds :: "duration \<Rightarrow> rat" where
  "Seconds d =
    (let sec = (if 0 \<le> d then d div second else - ((- d) div second));
         nsec = d - sec * second
     in the (float64_round (to_float sec + the (float64_round (to_float nsec / 1000000000)))))"

definition New :: "time \<Rightarrow> rat \<Rightarrow> int \<Rightarrow> bucket result" where
  "New now ratePerSec n =
    (if ratePerSec \<le> 0 then Inl ''ratelimit.New: ratePerSec must be > 0''
     else if n < 1 then Inl ''ratelimit.New: burst must be >= 1''
     else Inr \<lparr>rate = ratePerSec, burst = n, tokens = to_float n, lastFill = now\<rparr>)"

definition refillLocked :: "time \<Rightarrow> bucket \<Rightarrow> bucket" where
  "refillLocked now b =
    (let elapsed = Seconds (time_Sub now (lastFill b)) in
     if elapsed \<le> 0 then b
     else
       (let cap = to_float (burst b);
            sum = (case float64_round (elapsed * rate b) of
                     None \<Rightarrow> None
                   | Some gain \<Rightarrow> float64_round (tokens b + gain))
        in b\<lparr>tokens := (case sum of None \<Rightarrow> cap | Some x \<Rightarrow> if x > cap then cap else x), lastFill := now\<rparr>))"

definition consume :: "int \<Rightarrow> bucket \<Rightarrow> bucket \<times> bool" where
  "consume n b =
    (if tokens b \<ge> to_float n then (b\<lparr>tokens := the (float64_round (tokens b - to_float n))\<rparr>, True) else (b, False))"

definition AllowN :: "time \<Rightarrow> int \<Rightarrow> bucket \<Rightarrow> bucket \<times> bool" where
  "AllowN now n b = (if n \<le> 0 then (b, True) else consume n (refillLocked now b))"

definition Allow :: "time \<Rightarrow> bucket \<Rightarrow> bucket \<times> bool" where
  "Allow now b = AllowN now 1 b"

definition Tokens :: "time \<Rightarrow> bucket \<Rightarrow> bucket \<times> rat" where
  "Tokens now b = (let b = refillLocked now b in (b, tokens b))"

text \<open>How long \<^verbatim>\<open>WaitN\<close> sets its timer. A duration out of range converts as the machine does,
  \<open>far\<close>.\<close>

definition wait_duration :: "(rat \<Rightarrow> int) \<Rightarrow> int \<Rightarrow> bucket \<Rightarrow> duration" where
  "wait_duration far n b =
    (let need = the (float64_round (to_float n - tokens b));
         wait = (case float64_round (need / rate b) of
                   None \<Rightarrow> far 0
                 | Some s \<Rightarrow>
                     (case float64_round (s * 1000000000) of
                        None \<Rightarrow> far 0
                      | Some ns \<Rightarrow> if ns < 2 ^ 63 then \<lfloor>ns\<rfloor> else far ns))
     in if wait \<le> 0 then millisecond else wait)"

datatype wakeup = Fires | Cancelled string

text \<open>\<^verbatim>\<open>WaitN\<close> with what happens to it: the readings of the clock and how each wait ended. The
  result is \<open>None\<close> when it is still waiting at the end, and holds the timers it set.\<close>

fun wait_loop :: "(rat \<Rightarrow> int) \<Rightarrow> int \<Rightarrow> (time \<times> wakeup) list \<Rightarrow> bucket \<Rightarrow> bucket \<times> duration list \<times> string option option" where
  "wait_loop far n [] b = (b, [], None)"
| "wait_loop far n ((now, wk) # es) b =
    (case consume n (refillLocked now b) of
       (b', True) \<Rightarrow> (b', [], Some None)
     | (b', False) \<Rightarrow>
         (case wk of
            Cancelled e \<Rightarrow> (b', [wait_duration far n b'], Some (Some e))
          | Fires \<Rightarrow>
              (case wait_loop far n es b' of
                 (b'', ds, r) \<Rightarrow> (b'', wait_duration far n b' # ds, r))))"

definition ErrBurstExceeded :: string where
  [simp]: "ErrBurstExceeded = ''ratelimit: requested tokens exceed burst''"

definition WaitN :: "(rat \<Rightarrow> int) \<Rightarrow> int \<Rightarrow> (time \<times> wakeup) list \<Rightarrow> bucket \<Rightarrow>
    bucket \<times> duration list \<times> string option option" where
  "WaitN far n es b =
    (if n \<le> 0 then (b, [], Some None)
     else if n > burst b then (b, [], Some (Some ErrBurstExceeded))
     else wait_loop far n es b)"

definition Bucket_Wait :: "(rat \<Rightarrow> int) \<Rightarrow> (time \<times> wakeup) list \<Rightarrow> bucket \<Rightarrow> bucket \<times> duration list \<times> string option option" where
  "Bucket_Wait far es b = WaitN far 1 es b"

section \<open>The manual limiter\<close>

text \<open>The token count; negative counts are possible. A waiting call tries at every wake-up.\<close>

definition NewManual :: "int \<Rightarrow> int" where "NewManual initial = initial"
definition Manual_Tokens :: "int \<Rightarrow> int" where "Manual_Tokens m = m"
definition Manual_Set :: "int \<Rightarrow> int \<Rightarrow> int" where "Manual_Set n m = n"
definition Manual_Add :: "int \<Rightarrow> int \<Rightarrow> int" where "Manual_Add delta m = m + delta"

definition Manual_AllowN :: "int \<Rightarrow> int \<Rightarrow> int \<times> bool" where
  "Manual_AllowN n m = (if n \<le> 0 then (m, True) else if m \<ge> n then (m - n, True) else (m, False))"

text \<open>Between two tries others change the count; the context is asked before each sleep.\<close>

fun Manual_WaitN :: "int \<Rightarrow> ((int \<Rightarrow> int) \<times> string option) list \<Rightarrow> int \<Rightarrow> int \<times> string option option" where
  "Manual_WaitN n [] m = (if n \<le> 0 then (m, Some None) else (m, None))"
| "Manual_WaitN n ((others, ctxErr) # es) m =
    (if n \<le> 0 then (m, Some None)
     else if m \<ge> n then (m - n, Some None)
     else case ctxErr of Some e \<Rightarrow> (m, Some (Some e)) | None \<Rightarrow> Manual_WaitN n es (others m))"

definition Manual_Allow :: "int \<Rightarrow> int \<times> bool" where
  "Manual_Allow m = Manual_AllowN 1 m"

definition Manual_Wait :: "((int \<Rightarrow> int) \<times> string option) list \<Rightarrow> int \<Rightarrow> int \<times> string option option" where
  "Manual_Wait es m = Manual_WaitN 1 es m"

section \<open>Invariant\<close>

definition bucket_ok :: "bucket \<Rightarrow> bool" where
  "bucket_ok b \<longleftrightarrow> 0 < rate b \<and> 1 \<le> burst b \<and> burst b < 2 ^ 53 \<and> 0 \<le> tokens b \<and> tokens b \<le> of_int (burst b)"

lemma to_float_int: "\<bar>n\<bar> < 2 ^ 53 \<Longrightarrow> to_float n = of_int n"
  by (simp add: to_float_def float64_int)

lemma refill_ok: "bucket_ok b \<Longrightarrow> bucket_ok (refillLocked now b) \<and> burst (refillLocked now b) = burst b"
proof -
  assume b: "bucket_ok b"
  let ?e = "Seconds (time_Sub now (lastFill b))"
  have cap: "to_float (burst b) = of_int (burst b)" using b by (intro to_float_int) (simp add: bucket_ok_def)
  have "0 \<le> x" if "0 < ?e" "float64_round (?e * rate b) = Some gain" "float64_round (tokens b + gain) = Some x" for gain x
  proof -
    have "0 \<le> ?e * rate b" using that(1) b by (simp add: bucket_ok_def)
    then have "0 \<le> gain" using float64_nonneg that(2) by blast
    then have "0 \<le> tokens b + gain" using b by (simp add: bucket_ok_def)
    then show ?thesis using float64_nonneg that(3) by blast
  qed
  with b cap show ?thesis
    by (auto simp: refillLocked_def Let_def bucket_ok_def not_le split: option.split)
qed

lemma consume_ok:
  assumes "bucket_ok b" "0 < n" "n < 2 ^ 53" "consume n b = (b', ok)"
  shows "bucket_ok b' \<and> burst b' = burst b \<and> (if ok then n \<le> burst b else b' = b)"
proof -
  have n: "to_float n = of_int n" using assms(2,3) by (intro to_float_int) simp
  have "bucket_ok (b\<lparr>tokens := the (float64_round (tokens b - of_int n))\<rparr>) \<and> n \<le> burst b" if "of_int n \<le> tokens b"
  proof -
    have "0 \<le> tokens b - of_int n" "tokens b - of_int n \<le> of_int (burst b)"
      using that assms(1,2) by (simp_all add: bucket_ok_def)
    moreover have "burst b < 2 ^ 53" using assms(1) by (simp add: bucket_ok_def)
    ultimately obtain r where "float64_round (tokens b - of_int n) = Some r" "0 \<le> r" "r \<le> of_int (burst b)"
      using float64_below_int by blast
    moreover have "(of_int n :: rat) \<le> of_int (burst b)" using that assms(1) by (simp add: bucket_ok_def)
    ultimately show ?thesis using assms(1) by (simp add: bucket_ok_def)
  qed
  then show ?thesis using assms(1,4) n by (auto simp: consume_def split: if_splits)
qed

text \<open>What callers do to a bucket: tries at any time and readings.\<close>

inductive bucket_step :: "bucket \<Rightarrow> bucket \<Rightarrow> bool" where
  tryN: "n < 2 ^ 53 \<Longrightarrow> bucket_step b (fst (AllowN now n b))"
| look: "bucket_step b (fst (Tokens now b))"
| waitN: "n < 2 ^ 53 \<Longrightarrow> bucket_step b (fst (WaitN far n es b))"

lemma AllowN_ok:
  assumes "bucket_ok b" "n < 2 ^ 53" "AllowN now n b = (b', ok)"
  shows "bucket_ok b' \<and> burst b' = burst b \<and> (ok \<and> 0 < n \<longrightarrow> n \<le> burst b)"
proof (cases "n \<le> 0")
  case False
  then have "consume n (refillLocked now b) = (b', ok)" using assms(3) by (simp add: AllowN_def)
  from consume_ok [OF _ _ assms(2) this] refill_ok [OF assms(1), of now] False
  show ?thesis by (cases ok) auto
qed (use assms in \<open>simp add: AllowN_def\<close>)

lemma wait_loop_ok:
  assumes "bucket_ok b" "0 < n" "n < 2 ^ 53" "wait_loop far n es b = (b', ds, r)"
  shows "bucket_ok b' \<and> burst b' = burst b \<and> list_all (\<lambda>d. 0 < d) ds"
  using assms(1,4)
proof (induction es arbitrary: b b' ds r)
  case (Cons e es)
  obtain now wk where e: "e = (now, wk)" by fastforce
  obtain c ok where c: "consume n (refillLocked now b) = (c, ok)" by fastforce
  have d: "0 < wait_duration far n c" by (simp add: wait_duration_def Let_def)
  have ok: "bucket_ok c" "burst c = burst b"
    using consume_ok [OF _ assms(2,3) c] refill_ok [OF Cons.prems(1), of now] by auto
  show ?case
  proof (cases ok)
    case True
    with Cons.prems(2) e c show ?thesis using ok by simp
  next
    case False
    show ?thesis
    proof (cases wk)
      case Fires
      obtain b2 ds2 r2 where rest: "wait_loop far n es c = (b2, ds2, r2)" by (metis prod_cases3)
      with Cons.IH [OF ok(1) rest] Cons.prems(2) e c False Fires d ok(2) show ?thesis by auto
    next
      case (Cancelled x)
      with Cons.prems(2) e c False d ok show ?thesis by auto
    qed
  qed
qed simp

lemma WaitN_ok:
  assumes "bucket_ok b" "n < 2 ^ 53" "WaitN far n es b = (b', ds, r)"
  shows "bucket_ok b' \<and> burst b' = burst b \<and> list_all (\<lambda>d. 0 < d) ds"
  using assms wait_loop_ok [OF assms(1) _ assms(2), of far es b' ds r]
  by (auto simp: WaitN_def split: if_splits)

interpretation bucket: invariant_machine "\<lambda>b. \<exists>now r n. New now r n = Inr b \<and> n < 2 ^ 53" bucket_step bucket_ok
proof
  show "bucket_ok b" if "\<exists>now r n. New now r n = Inr b \<and> n < 2 ^ 53" for b
    using that to_float_int by (auto simp: New_def bucket_ok_def split: if_splits)
  show "bucket_ok b'" if "bucket_ok b" "bucket_step b b'" for b b'
    using that(2)
  proof (cases rule: bucket_step.cases)
    case (tryN n now)
    then show ?thesis using AllowN_ok [OF that(1)] by (metis prod.collapse)
  next
    case (look now)
    then show ?thesis using refill_ok [OF that(1)] by (simp add: Tokens_def Let_def)
  next
    case (waitN n far es)
    then show ?thesis using WaitN_ok [OF that(1)] by (metis prod.collapse)
  qed
qed

section \<open>Properties\<close>

text \<open>(C24) Bounds of the token bucket. However it is used, and whatever the clock and the rounding of floating point
  do, the tokens stay between zero and the burst; a request is only ever granted up to the burst; and
  every timer a waiting call sets is positive, so that waiting never spins.\<close>

theorem bucket_bounds:
  assumes "reach (\<lambda>b. \<exists>now r n. New now r n = Inr b \<and> n < 2 ^ 53) bucket_step b" "n < 2 ^ 53"
  shows "0 \<le> tokens b \<and> tokens b \<le> of_int (burst b) \<and>
    (snd (AllowN now n b) \<longrightarrow> n \<le> burst b) \<and> list_all (\<lambda>d. 0 < d) (fst (snd (WaitN far n es b)))"
proof -
  have b: "bucket_ok b" using bucket.inv_reach [OF assms(1)] .
  have "snd (AllowN now n b) \<longrightarrow> n \<le> burst b"
    using AllowN_ok [OF b assms(2), of now] b by (cases "AllowN now n b") (auto simp: bucket_ok_def)
  moreover have "list_all (\<lambda>d. 0 < d) (fst (snd (WaitN far n es b)))"
    using WaitN_ok [OF b assms(2), of far es] by (cases "WaitN far n es b") auto
  ultimately show ?thesis using b by (simp add: bucket_ok_def)
qed

theorem bucket_bounds_witness:
  "\<exists>b. New 0 (1 / 2) 3 = Inr b \<and> 0 \<le> tokens b \<and> tokens b \<le> 3 \<and> (snd (AllowN 7 4 b) \<longrightarrow> 4 \<le> burst b)"
proof -
  let ?b = "\<lparr>rate = 1 / 2, burst = 3, tokens = 3, lastFill = 0\<rparr>"
  have n: "New 0 (1 / 2) 3 = Inr ?b" using to_float_int [of 3] by (simp add: New_def)
  then have "reach (\<lambda>b. \<exists>now r n. New now r n = Inr b \<and> n < 2 ^ 53) bucket_step ?b"
    by (intro reach_start exI [of _ 0] exI [of _ "1 / 2"] exI [of _ 3]) simp
  from bucket_bounds [OF this, of 4 7] n show ?thesis by (intro exI [of _ ?b]) simp
qed

end
