(* ===== verification/Retry.thy ===== *)
theory Retry
  imports Go_Time Go_Float Prelude
begin

text \<open>
  Retries with backoff (\<^verbatim>\<open>internal/retry/retry.go\<close>). What surrounds an execution is a record: the
  context's error before each attempt, what the operation and the sleeper return, and the draws of
  the random source. Delays are computed in \<^verbatim>\<open>float64\<close>; an infinite intermediate result is
  \<open>None\<close> and capped like any other that is too large.
\<close>

section \<open>Policies\<close>

record policy =
  MaxAttempts :: int
  BaseDelay :: duration
  MaxDelay :: duration
  Multiplier :: rat
  JitterFraction :: rat
  Retryable :: "(string \<Rightarrow> bool) option"

definition maxAttempts :: "policy \<Rightarrow> int" where
  "maxAttempts p = (if MaxAttempts p \<le> 0 then 3 else MaxAttempts p)"

definition baseDelay :: "policy \<Rightarrow> duration" where
  "baseDelay p = (if BaseDelay p \<le> 0 then 100 * millisecond else BaseDelay p)"

definition maxDelay :: "policy \<Rightarrow> duration" where
  "maxDelay p = (if MaxDelay p \<le> 0 then 5 * second else MaxDelay p)"

definition multiplier :: "policy \<Rightarrow> rat" where
  "multiplier p = (if Multiplier p \<le> 0 then 2 else Multiplier p)"

section \<open>Delays\<close>

definition flt :: "int \<Rightarrow> rat" where
  "flt d = the (float64_round (of_int d))"

text \<open>The loop of \<^verbatim>\<open>computeDelay\<close> with the number of rounds left.\<close>

fun grow :: "policy \<Rightarrow> nat \<Rightarrow> rat \<Rightarrow> rat" where
  "grow p 0 base = base"
| "grow p (Suc i) base =
    (case float64_round (base * multiplier p) of
       None \<Rightarrow> flt (maxDelay p)
     | Some base' \<Rightarrow> if base' \<ge> flt (maxDelay p) then flt (maxDelay p) else grow p i base')"

text \<open>The jitter around a base with a draw from [0, 1); each operation is rounded.\<close>

definition fl :: "rat \<Rightarrow> rat" where
  "fl q = the (float64_round q)"

definition jitter :: "rat \<Rightarrow> rat \<Rightarrow> rat \<Rightarrow> rat" where
  "jitter j draw base =
    (let offset = fl (fl (fl (fl (draw * 2) - 1) * j) * base);
         base = fl (base + offset)
     in if base < 0 then 0 else base)"

definition computeDelay :: "policy \<Rightarrow> rat option \<Rightarrow> int \<Rightarrow> duration" where
  "computeDelay p draw attempt =
    (let base = grow p (nat (attempt - 1)) (flt (baseDelay p));
         base = (if JitterFraction p > 0 \<and> draw \<noteq> None then jitter (JitterFraction p) (the draw) base else base)
     in \<lfloor>base\<rfloor>)"

section \<open>Execution\<close>

record surroundings =
  ctxErr :: "int \<Rightarrow> string option"
  operation :: "int \<Rightarrow> string option"
  sleeper :: "int \<Rightarrow> duration \<Rightarrow> string option"
  draws :: "int \<Rightarrow> rat option"

text \<open>What an execution does: the attempts made, the retries announced and the delays slept, and the
  error returned.\<close>

record trace =
  calls :: "int list"
  retries :: "(int \<times> string \<times> duration) list"
  outcome :: "string option"

definition done_with :: "string option \<Rightarrow> trace" where
  "done_with e = \<lparr>calls = [], retries = [], outcome = e\<rparr>"

definition called :: "int \<Rightarrow> trace \<Rightarrow> trace" where
  "called attempt t = t\<lparr>calls := attempt # calls t\<rparr>"

definition retried :: "int \<Rightarrow> string \<Rightarrow> duration \<Rightarrow> trace \<Rightarrow> trace" where
  "retried attempt err delay t = t\<lparr>retries := (attempt, err, delay) # retries t\<rparr>"

definition is_retryable :: "policy \<Rightarrow> string \<Rightarrow> bool" where
  "is_retryable p err = (case Retryable p of None \<Rightarrow> True | Some f \<Rightarrow> f err)"

definition exhausted :: "policy \<Rightarrow> string \<Rightarrow> string" where
  "exhausted p err = ''retry: exhausted '' @ int_dec (maxAttempts p) @ '' attempts: '' @ err"

text \<open>The loop from an attempt on, with the number of attempts left.\<close>

fun attempts :: "policy \<Rightarrow> surroundings \<Rightarrow> nat \<Rightarrow> int \<Rightarrow> string option \<Rightarrow> trace" where
  "attempts p w 0 attempt lastErr =
    done_with (case lastErr of None \<Rightarrow> Some ''retry: no attempts ran'' | Some e \<Rightarrow> Some (exhausted p e))"
| "attempts p w (Suc k) attempt lastErr =
    (case ctxErr w attempt of
       Some e \<Rightarrow> done_with (Some e)
     | None \<Rightarrow>
         called attempt
           (case operation w attempt of
              None \<Rightarrow> done_with None
            | Some err \<Rightarrow>
                if attempt = maxAttempts p then done_with (Some (exhausted p err))
                else if \<not> is_retryable p err then done_with (Some err)
                else
                  (let delay = computeDelay p (draws w attempt) attempt in
                   retried attempt err delay
                     (case sleeper w attempt delay of
                        Some e \<Rightarrow> done_with (Some e)
                      | None \<Rightarrow> attempts p w k (attempt + 1) (Some err)))))"

definition Executor_Do :: "policy \<Rightarrow> surroundings \<Rightarrow> trace" where
  "Executor_Do p w = attempts p w (nat (maxAttempts p)) 1 None"

text \<open>The sleepers: \<^verbatim>\<open>Real\<close> waits for its timer or for the context, \<^verbatim>\<open>Instant\<close> only notes the delay.\<close>

datatype timer_end = TimerFires | CtxEnds string

definition Real_Sleep :: "string option \<Rightarrow> duration \<Rightarrow> timer_end \<Rightarrow> string option" where
  "Real_Sleep ctx_err d e = (if d \<le> 0 then ctx_err else (case e of TimerFires \<Rightarrow> None | CtxEnds err \<Rightarrow> Some err))"

record instant_sleeper =
  Delays :: "duration list"

definition Instant_Sleep :: "string option \<Rightarrow> duration \<Rightarrow> instant_sleeper \<Rightarrow> instant_sleeper \<times> string option" where
  "Instant_Sleep ctx_err d i = (i\<lparr>Delays := Delays i @ [d]\<rparr>, ctx_err)"

record ('s, 'r) executor =
  exSleeper :: 's
  exRandom :: "'r option"

definition NewExecutor :: "'s \<Rightarrow> 'r option \<Rightarrow> ('s, 'r) executor" where
  "NewExecutor s r = \<lparr>exSleeper = s, exRandom = r\<rparr>"

text \<open>An execution's surroundings under an executor: its sleeper, and draws only if it has a random source.\<close>

definition surround :: "(int \<Rightarrow> string option) \<Rightarrow> (int \<Rightarrow> string option) \<Rightarrow>
    (int \<Rightarrow> duration \<Rightarrow> string option, int \<Rightarrow> rat) executor \<Rightarrow> surroundings" where
  "surround ctx op e =
    \<lparr>ctxErr = ctx, operation = op, sleeper = exSleeper e, draws = (\<lambda>i. map_option (\<lambda>r. r i) (exRandom e))\<rparr>"

text \<open>The notes of an \<^verbatim>\<open>Instant\<close> are the delays of the trace, in order.\<close>

lemma instant_notes:
  "Delays (fold (\<lambda>(a, err, d) i. fst (Instant_Sleep (ctx a) d i)) rs i) = Delays i @ map (\<lambda>(a, err, d). d) rs"
  by (induction rs arbitrary: i) (auto simp: Instant_Sleep_def)

section \<open>Delays are bounded\<close>

lemma flt_int: "\<bar>d\<bar> < 2 ^ 53 \<Longrightarrow> flt d = of_int d"
  by (simp add: flt_def float64_int)

lemma delays_pos: "0 < baseDelay p" "0 < maxDelay p" "0 < multiplier p" "1 \<le> maxAttempts p"
  by (simp_all add: baseDelay_def maxDelay_def multiplier_def maxAttempts_def)

lemma grow_bounds:
  assumes "maxDelay p < 2 ^ 53" "0 \<le> base"
  shows "0 \<le> grow p i base \<and> grow p i base \<le> max base (of_int (maxDelay p))"
  using assms(2)
proof (induction i arbitrary: base)
  case (Suc i)
  have m: "flt (maxDelay p) = of_int (maxDelay p)" "(0 :: rat) \<le> of_int (maxDelay p)"
    using assms(1) delays_pos(2) [of p] by (simp_all add: flt_int)
  show ?case
  proof (cases "float64_round (base * multiplier p)")
    case None
    with m show ?thesis by simp
  next
    case (Some base')
    have "0 \<le> base * multiplier p" using Suc.prems delays_pos(3) [of p] by simp
    then have "0 \<le> base'" using float64_nonneg Some by blast
    from Suc.IH [OF this] Some m show ?thesis by (auto simp: not_le)
  qed
qed simp

lemma computeDelay_bounds:
  assumes "maxDelay p < 2 ^ 53" "baseDelay p < 2 ^ 53" "JitterFraction p \<le> 0 \<or> draw = None"
  shows "0 \<le> computeDelay p draw attempt \<and> computeDelay p draw attempt \<le> max (baseDelay p) (maxDelay p)"
proof -
  let ?g = "grow p (nat (attempt - 1)) (of_int (baseDelay p))"
  have base: "flt (baseDelay p) = of_int (baseDelay p)" "(0 :: rat) \<le> of_int (baseDelay p)"
    using assms(2) delays_pos(1) [of p] by (simp_all add: flt_int)
  have g: "0 \<le> ?g" "?g \<le> max (of_int (baseDelay p)) (of_int (maxDelay p))"
    using grow_bounds [OF assms(1) base(2)] by blast+
  have "computeDelay p draw attempt = \<lfloor>?g\<rfloor>"
    using assms(3) by (auto simp: computeDelay_def Let_def base(1))
  moreover have "\<lfloor>?g\<rfloor> \<le> max (baseDelay p) (maxDelay p)"
    using g(2) by (simp add: floor_le_iff)
  ultimately show ?thesis using g(1) by simp
qed

section \<open>What an execution does\<close>

lemma trace_simps [simp]:
  "calls (done_with e) = []" "retries (done_with e) = []" "outcome (done_with e) = e"
  "calls (called a t) = a # calls t" "retries (called a t) = retries t" "outcome (called a t) = outcome t"
  "calls (retried a err d t) = calls t" "retries (retried a err d t) = (a, err, d) # retries t"
  "outcome (retried a err d t) = outcome t"
  by (simp_all add: done_with_def called_def retried_def)

text \<open>The shape of a trace from an attempt on: consecutive attempts, a retry announced after a
  retryable failure with the delay computed for it, and success exactly when the last attempt
  succeeded.\<close>

fun consecutive :: "int \<Rightarrow> int list \<Rightarrow> bool" where
  "consecutive a [] = True"
| "consecutive a (x # xs) = (x = a \<and> consecutive (a + 1) xs)"

lemma consecutive_upto: "consecutive a xs \<longleftrightarrow> xs = [a..a + int (length xs) - 1]"
proof (induction xs arbitrary: a)
  case (Cons x xs)
  have "[a..a + int (length (x # xs)) - 1] = a # [a + 1..a + 1 + int (length xs) - 1]"
    by (simp add: upto_rec1)
  with Cons show ?case by simp
qed simp

definition trace_ok :: "policy \<Rightarrow> surroundings \<Rightarrow> int \<Rightarrow> trace \<Rightarrow> bool" where
  "trace_ok p w first t \<longleftrightarrow>
    consecutive first (calls t) \<and> length (retries t) \<le> length (calls t) \<and>
    list_all (\<lambda>(a, err, d). a < maxAttempts p \<and> operation w a = Some err \<and> is_retryable p err \<and>
      d = computeDelay p (draws w a) a) (retries t) \<and>
    (outcome t = None \<longleftrightarrow> calls t \<noteq> [] \<and> operation w (last (calls t)) = None)"

lemma attempts_trace:
  assumes "attempt + int k \<le> maxAttempts p + 1"
  shows "trace_ok p w attempt (attempts p w k attempt lastErr) \<and> length (calls (attempts p w k attempt lastErr)) \<le> k \<and>
    (calls (attempts p w k attempt lastErr) = [] \<longrightarrow> outcome (attempts p w k attempt lastErr) \<noteq> None)"
  using assms
proof (induction k arbitrary: attempt lastErr)
  case 0
  then show ?case by (cases lastErr) (simp_all add: trace_ok_def)
next
  case (Suc k)
  show ?case
  proof (cases "ctxErr w attempt")
    case None
    show ?thesis
    proof (cases "operation w attempt")
      case err: (Some err)
      let ?d = "computeDelay p (draws w attempt) attempt"
      let ?t = "attempts p w k (attempt + 1) (Some err)"
      show ?thesis
      proof (cases "attempt = maxAttempts p \<or> \<not> is_retryable p err \<or> sleeper w attempt ?d \<noteq> None")
        case True
        then show ?thesis using None err Suc.prems by (auto simp: trace_ok_def Let_def)
      next
        case False
        then have step: "attempts p w (Suc k) attempt lastErr = called attempt (retried attempt err ?d ?t)"
          using None err by (simp add: Let_def)
        have IH: "trace_ok p w (attempt + 1) ?t" "length (calls ?t) \<le> k" "calls ?t = [] \<Longrightarrow> outcome ?t \<noteq> None"
          using Suc.IH [of "attempt + 1" "Some err"] Suc.prems by auto
        have "attempt < maxAttempts p" using False Suc.prems by simp
        with step IH False err show ?thesis by (auto simp: trace_ok_def)
      qed
    qed (use None in \<open>simp add: trace_ok_def\<close>)
  qed (simp add: trace_ok_def)
qed

lemma Executor_Do_trace: "trace_ok p w 1 (Executor_Do p w) \<and> int (length (calls (Executor_Do p w))) \<le> maxAttempts p"
  using attempts_trace [of 1 "nat (maxAttempts p)" p w None] delays_pos(4) [of p] by (auto simp: Executor_Do_def)

lemma attempts_quiet:
  assumes "\<forall>a. ctxErr w a = None" "\<forall>a d. sleeper w a d = None" "\<forall>e. is_retryable p e"
    and "attempt + int k = maxAttempts p + 1"
  shows "outcome (attempts p w k attempt lastErr) = None \<longleftrightarrow> (\<exists>a. attempt \<le> a \<and> a \<le> maxAttempts p \<and> operation w a = None)"
  using assms(4)
proof (induction k arbitrary: attempt lastErr)
  case 0
  then show ?case by (auto split: option.split)
next
  case (Suc k)
  show ?case
  proof (cases "operation w attempt")
    case None
    with assms(1) Suc.prems show ?thesis by auto
  next
    case (Some err)
    have "(\<exists>a. attempt \<le> a \<and> a \<le> maxAttempts p \<and> operation w a = None) \<longleftrightarrow>
        (\<exists>a. attempt + 1 \<le> a \<and> a \<le> maxAttempts p \<and> operation w a = None)"
      using Some by (metis add1_zle_eq nless_le option.distinct(1) zless_add1_eq order_le_less)
    moreover have "attempt = maxAttempts p \<Longrightarrow> k = 0" using Suc.prems by simp
    ultimately show ?thesis
      using Suc.IH [of "attempt + 1" "Some err"] Suc.prems Some assms(1-3) by (auto simp: Let_def)
  qed
qed

section \<open>Properties\<close>

text \<open>(C25) Retries are bounded. An execution makes consecutive attempts from the first, at most as many as the
  policy allows; it sleeps only after a retryable failure of an attempt that is not the last allowed;
  and without jitter every delay lies between zero and the larger of the base and the maximal
  delay.\<close>

theorem retry_bounds:
  assumes "maxDelay p < 2 ^ 53" "baseDelay p < 2 ^ 53" "JitterFraction p \<le> 0"
  shows "calls (Executor_Do p w) = [1..int (length (calls (Executor_Do p w)))] \<and> int (length (calls (Executor_Do p w))) \<le> maxAttempts p \<and>
    length (retries (Executor_Do p w)) \<le> length (calls (Executor_Do p w)) \<and>
    list_all (\<lambda>(a, err, d). a < maxAttempts p \<and> operation w a = Some err \<and> is_retryable p err \<and>
      0 \<le> d \<and> d \<le> max (baseDelay p) (maxDelay p)) (retries (Executor_Do p w))"
  using Executor_Do_trace [of p w] computeDelay_bounds [OF assms(1,2)] assms(3)
  unfolding trace_ok_def consecutive_upto list_all_iff by fastforce

definition sample_policy :: policy where
  "sample_policy = \<lparr>MaxAttempts = 0, BaseDelay = 7 * second, MaxDelay = 0, Multiplier = 0, JitterFraction = 0,
     Retryable = None\<rparr>"

theorem retry_bounds_witness:
  "list_all (\<lambda>(a, err, d). a < 3 \<and> d \<le> 7 * second)
    (retries (Executor_Do sample_policy \<lparr>ctxErr = (\<lambda>_. None), operation = (\<lambda>_. Some ''no''), sleeper = (\<lambda>_ _. None), draws = (\<lambda>_. None)\<rparr>))"
proof -
  have p: "maxDelay sample_policy = 5 * second" "baseDelay sample_policy = 7 * second" "maxAttempts sample_policy = 3"
    by (simp_all add: maxDelay_def baseDelay_def maxAttempts_def sample_policy_def)
  have "maxDelay sample_policy < 2 ^ 53" "baseDelay sample_policy < 2 ^ 53" "JitterFraction sample_policy \<le> 0"
    unfolding p by (simp_all add: sample_policy_def)
  from retry_bounds [OF this] show ?thesis unfolding p list_all_iff by fastforce
qed

text \<open>Retries succeed when they can. While the context and the sleeper report nothing and every error is
  retryable, an execution returns no error exactly when one of the allowed attempts would succeed.\<close>

theorem retry_succeeds:
  assumes "\<forall>a. ctxErr w a = None" "\<forall>a d. sleeper w a d = None" "\<forall>e. is_retryable p e"
  shows "outcome (Executor_Do p w) = None \<longleftrightarrow> (\<exists>a. 1 \<le> a \<and> a \<le> maxAttempts p \<and> operation w a = None)"
  using attempts_quiet [OF assms, of 1 "nat (maxAttempts p)" None] delays_pos(4) [of p] by (simp add: Executor_Do_def)

theorem retry_succeeds_witness:
  "outcome (Executor_Do sample_policy \<lparr>ctxErr = (\<lambda>_. None), operation = (\<lambda>a. if a = 3 then None else Some ''no''),
     sleeper = (\<lambda>_ _. None), draws = (\<lambda>_. None)\<rparr>) = None"
proof -
  let ?w = "\<lparr>ctxErr = (\<lambda>_. None), operation = (\<lambda>a. if a = 3 then None else Some ''no''),
     sleeper = (\<lambda>_ _. None), draws = (\<lambda>_. None)\<rparr>"
  have "maxAttempts sample_policy = 3" by (simp add: maxAttempts_def sample_policy_def)
  then show ?thesis
    using retry_succeeds [of ?w sample_policy] by (auto simp: is_retryable_def sample_policy_def)
qed

end
