(* ===== verification/Scheduler.thy ===== *)
theory Scheduler
  imports Go_Time Prelude "HOL-Library.AList"
begin

text \<open>
  The job scheduler (\<^verbatim>\<open>internal/scheduler/scheduler.go\<close>). A job is entered in a table under its
  name; the table holds positions of a store of entries, because an invocation keeps its entry when
  the name is scheduled again or removed. Invocations run beside the scheduler and end in one of the
  ways below. The table is a list: a map's iteration order is any order of it.
\<close>

section \<open>State\<close>

record job =
  jName :: string
  jFunc :: bool
  Interval :: duration
  At :: time

record job_entry =
  spec :: job
  nextDue :: time
  busy :: bool

record scheduler =
  jobs :: "(string \<times> nat) list"
  entries :: "job_entry list"
  has_cancel :: bool
  stopped :: bool
  cancel_called :: bool
  wake :: bool
  started :: bool
  inflight :: "nat list"
  reports :: "(string \<times> string) list"

definition NewScheduler :: scheduler where
  "NewScheduler = \<lparr>jobs = [], entries = [], has_cancel = False, stopped = False, cancel_called = False,
     wake = False, started = False, inflight = [], reports = []\<rparr>"

definition idleTimeout :: duration where
  "idleTimeout = 60 * second"

abbreviation microsecond :: duration where "microsecond \<equiv> 1000"

section \<open>Operations\<close>

definition ErrNoSchedule :: string where [simp]: "ErrNoSchedule = ''scheduler: Job needs Interval > 0 or non-zero At''"
definition ErrNameRequired :: string where [simp]: "ErrNameRequired = ''scheduler: Job.Name is required''"
definition ErrNoFunc :: string where [simp]: "ErrNoFunc = ''scheduler: Job.Func is required''"
definition ErrStopped :: string where [simp]: "ErrStopped = ''scheduler: stopped''"

definition signalWake :: "scheduler \<Rightarrow> scheduler" where
  "signalWake s = s\<lparr>wake := True\<rparr>"

definition Schedule :: "time \<Rightarrow> job \<Rightarrow> scheduler \<Rightarrow> scheduler \<times> string option" where
  "Schedule now j s =
    (if jName j = '''' then (s, Some ErrNameRequired)
     else if \<not> jFunc j then (s, Some ErrNoFunc)
     else if Interval j \<le> 0 \<and> time_IsZero (At j)
       then (s, Some ErrNoSchedule)
     else if stopped s then (s, Some ErrStopped)
     else
       (let first = (if time_IsZero (At j) then time_Add now (Interval j) else At j) in
        (signalWake (s\<lparr>jobs := AList.update (jName j) (length (entries s)) (jobs s),
           entries := entries s @ [\<lparr>spec = j, nextDue = first, busy = False\<rparr>]\<rparr>), None)))"

definition Unschedule :: "string \<Rightarrow> scheduler \<Rightarrow> scheduler \<times> bool" where
  "Unschedule name s =
    (case map_of (jobs s) name of
       None \<Rightarrow> (s, False)
     | Some _ \<Rightarrow> (signalWake (s\<lparr>jobs := AList.delete name (jobs s)\<rparr>), True))"

definition Names :: "scheduler \<Rightarrow> string list" where
  "Names s = sort (map fst (jobs s))"

fun earliest_due :: "job_entry list \<Rightarrow> time option \<Rightarrow> time option" where
  "earliest_due [] found = found"
| "earliest_due (e # es) found =
    (if time_IsZero (nextDue e) then earliest_due es found
     else case found of
       None \<Rightarrow> earliest_due es (Some (nextDue e))
     | Some earliest \<Rightarrow> earliest_due es (if nextDue e < earliest then Some (nextDue e) else found))"

definition table :: "scheduler \<Rightarrow> job_entry list" where
  "table s = map (\<lambda>(name, i). entries s ! i) (jobs s)"

definition NextDue :: "scheduler \<Rightarrow> time option" where
  "NextDue s = earliest_due (table s) None"

definition advanceNext :: "time \<Rightarrow> job_entry \<Rightarrow> job_entry" where
  "advanceNext runStart e =
    (if Interval (spec e) > 0 then e\<lparr>nextDue := time_Add runStart (Interval (spec e))\<rparr> else e\<lparr>nextDue := 0\<rparr>)"

definition is_due :: "time \<Rightarrow> job_entry \<Rightarrow> bool" where
  "is_due now e \<longleftrightarrow> \<not> (time_IsZero (nextDue e) \<or> nextDue e > now) \<and> \<not> busy e"

text \<open>The launching loop of \<^verbatim>\<open>RunDue\<close> over the entries it found due.\<close>

fun launch :: "time \<Rightarrow> nat list \<Rightarrow> scheduler \<Rightarrow> scheduler \<times> nat" where
  "launch now [] s = (s, 0)"
| "launch now (i # is) s =
    (if busy (entries s ! i) then launch now is s
     else
       (case launch now is
          (s\<lparr>entries := (entries s)[i := advanceNext now ((entries s ! i)\<lparr>busy := True\<rparr>)],
             inflight := i # inflight s\<rparr>) of
          (s', n) \<Rightarrow> (s', n + 1)))"

definition due_entries :: "time \<Rightarrow> scheduler \<Rightarrow> nat list" where
  "due_entries now s = filter (\<lambda>i. is_due now (entries s ! i)) (map snd (jobs s))"

definition RunDue :: "time \<Rightarrow> scheduler \<Rightarrow> scheduler \<times> nat" where
  "RunDue now s = launch now (due_entries now s) s"

text \<open>How an invocation ends, and what \<^verbatim>\<open>run\<close> does then.\<close>

datatype run_end = NoPermit string | Finished "string option" | Panicked string

definition run_error :: "run_end \<Rightarrow> string option" where
  "run_error r =
    (case r of
       NoPermit e \<Rightarrow> Some (''acquire concurrency permit: '' @ e)
     | Finished e \<Rightarrow> e
     | Panicked v \<Rightarrow> Some (''panic: '' @ v))"

definition end_run :: "nat \<Rightarrow> run_end \<Rightarrow> scheduler \<Rightarrow> scheduler" where
  "end_run i r s =
    s\<lparr>entries := (entries s)[i := (entries s ! i)\<lparr>busy := False\<rparr>], inflight := remove1 i (inflight s),
      reports := (case run_error r of
                    None \<Rightarrow> reports s
                  | Some e \<Rightarrow> reports s @ [(jName (spec (entries s ! i)), e)])\<rparr>"

definition nextSleep :: "time \<Rightarrow> scheduler \<Rightarrow> duration" where
  "nextSleep now s =
    (case NextDue s of
       None \<Rightarrow> idleTimeout
     | Some due \<Rightarrow>
         (let d = time_Sub due now in
          if d \<le> 0 then microsecond else if d > idleTimeout then idleTimeout else d))"

text \<open>\<^verbatim>\<open>Start\<close>: entering the loop, a turn of it up to the timer, and what ends the wait: the
  context, a wake signal or the timer. A second call returns.\<close>

definition Start_enter :: "scheduler \<Rightarrow> scheduler \<times> bool" where
  "Start_enter s = (if started s then (s, False) else (s\<lparr>started := True, has_cancel := True\<rparr>, True))"

definition Start_turn :: "time \<Rightarrow> time \<Rightarrow> scheduler \<Rightarrow> scheduler \<times> duration" where
  "Start_turn now now' s = (let s' = fst (RunDue now s) in (s', nextSleep now' s'))"

datatype sleep_end = CtxDone | Woken | TimerFired

definition Start_wait :: "sleep_end \<Rightarrow> scheduler \<Rightarrow> (scheduler \<times> bool) option" where
  "Start_wait w s =
    (case w of
       CtxDone \<Rightarrow> Some (s, False)
     | Woken \<Rightarrow> (if wake s then Some (s\<lparr>wake := False\<rparr>, True) else None)
     | TimerFired \<Rightarrow> Some (s, True))"

definition Stop_begin :: "scheduler \<Rightarrow> scheduler" where
  "Stop_begin s = (if stopped s then s else s\<lparr>stopped := True, cancel_called := has_cancel s\<rparr>)"

text \<open>\<^verbatim>\<open>WaitInflight\<close> returns nil once nothing runs, or the context's error; \<open>None\<close> while it
  waits.\<close>

definition WaitInflight :: "string option \<Rightarrow> scheduler \<Rightarrow> string option option" where
  "WaitInflight ctxErr s = (if inflight s = [] then Some None else map_option Some ctxErr)"

definition Stop :: "string option \<Rightarrow> scheduler \<Rightarrow> scheduler \<times> string option option" where
  "Stop ctxErr s =
    (let s' = Stop_begin s in
     (s', map_option (map_option (\<lambda>e. ''scheduler: stop timed out: '' @ e)) (WaitInflight ctxErr s')))"

section \<open>The system\<close>

inductive sched_step :: "scheduler \<Rightarrow> scheduler \<Rightarrow> bool" where
  schedule: "sched_step s (fst (Schedule now j s))"
| unschedule: "sched_step s (fst (Unschedule name s))"
| run_due: "sched_step s (fst (RunDue now s))"
| finish: "i \<in> set (inflight s) \<Longrightarrow> sched_step s (end_run i r s)"
| enter: "sched_step s (fst (Start_enter s))"
| awake: "Start_wait w s = Some (s', again) \<Longrightarrow> sched_step s s'"
| stop: "sched_step s (Stop_begin s)"

text \<open>Every name of the table has one entry of its own, and exactly the busy entries run, once
  each.\<close>

definition sched_ok :: "scheduler \<Rightarrow> bool" where
  "sched_ok s \<longleftrightarrow>
    distinct (map fst (jobs s)) \<and> distinct (map snd (jobs s)) \<and>
    (\<forall>(name, i)\<in>set (jobs s). i < length (entries s) \<and> jName (spec (entries s ! i)) = name) \<and>
    distinct (inflight s) \<and> set (inflight s) = {i. i < length (entries s) \<and> busy (entries s ! i)}"

lemma sched_okD:
  "sched_ok s \<Longrightarrow> (name, i) \<in> set (jobs s) \<Longrightarrow> i < length (entries s) \<and> jName (spec (entries s ! i)) = name"
  by (auto simp: sched_ok_def)

lemma set_delete_subset: "set (AList.delete k xs) \<subseteq> set xs"
  by (auto simp: AList.delete_eq)

lemma Schedule_ok:
  assumes "sched_ok s"
  shows "sched_ok (fst (Schedule now j s))"
proof -
  let ?n = "length (entries s)"
  have upd: "(name, i) \<in> set (AList.update k v xs) \<Longrightarrow> (name, i) = (k, v) \<or> (name, i) \<in> set xs \<and> name \<noteq> k"
    if "distinct (map fst xs)" for name i k and v :: nat and xs
    using that by (induction xs) (force split: if_splits)+
  have snd_upd: "distinct (map snd (AList.update k ?n xs))"
    if "distinct (map snd xs)" "\<forall>(name, i)\<in>set xs. i < ?n" for k xs
    using that
  proof (induction xs)
    case (Cons x xs)
    have "set (map snd (AList.update k ?n xs)) \<subseteq> insert ?n (set (map snd xs))" by (induction xs) auto
    with Cons show ?case by (auto split: if_splits)
  qed simp
  show ?thesis
  proof (cases "snd (Schedule now j s) = None")
    case True
    define e where "e = \<lparr>spec = j, nextDue = (if time_IsZero (At j) then time_Add now (Interval j) else At j), busy = False\<rparr>"
    have s': "fst (Schedule now j s) = signalWake (s\<lparr>jobs := AList.update (jName j) ?n (jobs s), entries := entries s @ [e]\<rparr>)"
      using True by (auto simp: Schedule_def Let_def e_def split: if_splits)
    have old: "distinct (map fst (jobs s))" "distinct (map snd (jobs s))"
      "\<forall>(name, i)\<in>set (jobs s). i < ?n \<and> jName (spec (entries s ! i)) = name"
      "distinct (inflight s)" "set (inflight s) = {i. i < ?n \<and> busy (entries s ! i)}"
      using assms by (simp_all add: sched_ok_def)
    have "\<forall>(name, i)\<in>set (AList.update (jName j) ?n (jobs s)).
        i < length (entries s @ [e]) \<and> jName (spec ((entries s @ [e]) ! i)) = name"
    proof (intro ballI, clarify)
      fix name i
      assume "(name, i) \<in> set (AList.update (jName j) ?n (jobs s))"
      from upd [OF old(1) this] old(3)
      consider "name = jName j" "i = ?n" | "i < ?n" "jName (spec (entries s ! i)) = name" by auto
      then show "i < length (entries s @ [e]) \<and> jName (spec ((entries s @ [e]) ! i)) = name"
        by cases (simp_all add: nth_append e_def)
    qed
    moreover have "set (inflight s) = {i. i < length (entries s @ [e]) \<and> busy ((entries s @ [e]) ! i)}"
      unfolding old(5) by (auto simp: nth_append e_def less_Suc_eq)
    moreover have "distinct (map snd (AList.update (jName j) ?n (jobs s)))"
      using old(2,3) by (intro snd_upd) auto
    ultimately show ?thesis
      unfolding s' sched_ok_def signalWake_def using old(1,4) by (simp add: distinct_update)
  next
    case False
    then have "fst (Schedule now j s) = s" by (auto simp: Schedule_def Let_def)
    with assms show ?thesis by simp
  qed
qed

lemma Unschedule_ok: "sched_ok s \<Longrightarrow> sched_ok (fst (Unschedule name s))"
proof -
  assume s: "sched_ok s"
  have "distinct (map snd (AList.delete name xs))" if "distinct (map snd xs)" for xs :: "(string \<times> nat) list"
    using that by (simp add: AList.delete_eq distinct_map_filter)
  with s show ?thesis
    using set_delete_subset [of name "jobs s"]
    by (auto simp: Unschedule_def signalWake_def sched_ok_def distinct_delete split: option.split)
qed

text \<open>The launching loop on distinct idle entries.\<close>

definition launched :: "time \<Rightarrow> job_entry \<Rightarrow> job_entry" where
  "launched now e = advanceNext now (e\<lparr>busy := True\<rparr>)"

lemma launched_simps [simp]:
  "busy (launched now e)" "spec (launched now e) = spec e"
  "nextDue (launched now e) = (if Interval (spec e) > 0 then now + Interval (spec e) else 0)"
  by (simp_all add: launched_def advanceNext_def time_Add_def)

lemma launch_exact:
  assumes "distinct is" "\<forall>i\<in>set is. i < length (entries s) \<and> \<not> busy (entries s ! i)"
  shows "launch now is s =
    (s\<lparr>entries := map (\<lambda>i. if i \<in> set is then launched now (entries s ! i) else entries s ! i) [0..<length (entries s)],
       inflight := rev is @ inflight s\<rparr>, length is)"
  using assms
proof (induction "is" arbitrary: s)
  case Nil
  then show ?case by (simp add: map_nth)
next
  case (Cons i "is")
  let ?s = "s\<lparr>entries := (entries s)[i := launched now (entries s ! i)], inflight := i # inflight s\<rparr>"
  have "launch now (i # is) s = (case launch now is ?s of (s', n) \<Rightarrow> (s', n + 1))"
    using Cons.prems by (simp add: launched_def)
  also have "launch now is ?s =
    (?s\<lparr>entries := map (\<lambda>j. if j \<in> set is then launched now (entries ?s ! j) else entries ?s ! j) [0..<length (entries ?s)],
       inflight := rev is @ inflight ?s\<rparr>, length is)"
    using Cons.prems by (intro Cons.IH) (auto simp: nth_list_update)
  also have "map (\<lambda>j. if j \<in> set is then launched now (entries ?s ! j) else entries ?s ! j) [0..<length (entries ?s)] =
      map (\<lambda>j. if j \<in> set (i # is) then launched now (entries s ! j) else entries s ! j) [0..<length (entries s)]"
    using Cons.prems by (auto simp: nth_list_update)
  finally show ?case by simp
qed

lemma due_entries_ok:
  assumes "sched_ok s"
  shows "distinct (due_entries now s) \<and> (\<forall>i\<in>set (due_entries now s). i < length (entries s) \<and> \<not> busy (entries s ! i))"
  using assms by (fastforce simp: due_entries_def sched_ok_def is_due_def)

lemma RunDue_launches:
  assumes "sched_ok s"
  shows "RunDue now s =
    (s\<lparr>entries := map (\<lambda>i. if i \<in> set (due_entries now s) then launched now (entries s ! i) else entries s ! i)
         [0..<length (entries s)],
       inflight := rev (due_entries now s) @ inflight s\<rparr>, length (due_entries now s))"
  unfolding RunDue_def using due_entries_ok [OF assms, of now] by (intro launch_exact) blast+

lemma RunDue_ok:
  assumes "sched_ok s"
  shows "sched_ok (fst (RunDue now s))"
proof -
  let ?due = "due_entries now s"
  have due: "distinct ?due" "\<forall>i\<in>set ?due. i < length (entries s) \<and> \<not> busy (entries s ! i)"
    using due_entries_ok [OF assms] by blast+
  have old: "distinct (inflight s)" "set (inflight s) = {i. i < length (entries s) \<and> busy (entries s ! i)}"
    using assms by (simp_all add: sched_ok_def)
  have "distinct (rev ?due @ inflight s)" using due old by auto
  moreover have "set (rev ?due @ inflight s) =
      {i. i < length (entries s) \<and> busy (if i \<in> set ?due then launched now (entries s ! i) else entries s ! i)}"
    using due(2) old(2) by auto
  moreover have "\<forall>(name, i)\<in>set (jobs s). i < length (entries s) \<and>
      jName (spec (if i \<in> set ?due then launched now (entries s ! i) else entries s ! i)) = name"
    using assms by (auto simp: sched_ok_def)
  ultimately show ?thesis
    unfolding RunDue_launches [OF assms] using assms by (auto simp: sched_ok_def)
qed

lemma end_run_ok:
  assumes "sched_ok s" "i \<in> set (inflight s)"
  shows "sched_ok (end_run i r s)"
proof -
  let ?es = "(entries s)[i := (entries s ! i)\<lparr>busy := False\<rparr>]"
  have old: "distinct (inflight s)" "set (inflight s) = {i. i < length (entries s) \<and> busy (entries s ! i)}"
    "distinct (map fst (jobs s))" "distinct (map snd (jobs s))"
    "\<forall>(name, i)\<in>set (jobs s). i < length (entries s) \<and> jName (spec (entries s ! i)) = name"
    using assms(1) by (simp_all add: sched_ok_def)
  have i: "i < length (entries s)" using assms(2) old(2) by simp
  have same: "jName (spec (?es ! k)) = jName (spec (entries s ! k))" for k
    using i by (cases "k = i") simp_all
  have "set (remove1 i (inflight s)) = {k. k < length ?es \<and> busy (?es ! k)}"
    using old(1,2) i by (auto simp: nth_list_update)
  then show ?thesis
    unfolding sched_ok_def end_run_def using old by (simp add: same distinct_remove1)
qed

interpretation scheduler: invariant_machine "\<lambda>s. s = NewScheduler" sched_step sched_ok
proof
  show "sched_ok s" if "s = NewScheduler" for s
    using that by (simp add: NewScheduler_def sched_ok_def)
  show "sched_ok t" if "sched_ok s" "sched_step s t" for s t
    using that(2)
  proof (cases rule: sched_step.cases)
    case (awake w again)
    then show ?thesis using that(1)
      by (auto simp: Start_wait_def sched_ok_def split: sleep_end.splits if_splits)
  next
    case enter
    then show ?thesis using that(1) by (simp add: Start_enter_def sched_ok_def)
  next
    case stop
    then show ?thesis using that(1) by (simp add: Stop_begin_def sched_ok_def)
  qed (use that(1) Schedule_ok Unschedule_ok RunDue_ok end_run_ok in auto)
qed

text \<open>The earliest due time is at or before every time of the table.\<close>

lemma earliest_due_le:
  "found = Some t \<or> (\<exists>e\<in>set es. nextDue e \<noteq> 0 \<and> nextDue e = t) \<Longrightarrow>
    \<exists>due. earliest_due es found = Some due \<and> due \<le> t"
proof (induction es found arbitrary: t rule: earliest_due.induct)
  case (2 e es found)
  show ?case
  proof (cases "nextDue e = 0")
    case True
    with 2(1) [of t] 2(4) show ?thesis by (auto simp: time_IsZero_def)
  next
    case False
    then have nz: "\<not> time_IsZero (nextDue e)" by (simp add: time_IsZero_def)
    show ?thesis
    proof (cases found)
      case None
      with 2(2) [OF nz None, of t] 2(4) nz show ?thesis by auto
    next
      case (Some u)
      define v where "v = (if nextDue e < u then nextDue e else u)"
      have step: "earliest_due (e # es) found = earliest_due es (Some v)" using nz Some by (simp add: v_def)
      have IH: "\<exists>due. earliest_due es (Some v) = Some due \<and> due \<le> x"
        if "v = x \<or> (\<exists>e\<in>set es. nextDue e \<noteq> 0 \<and> nextDue e = x)" for x
      proof -
        have eq: "(if nextDue e < u then Some (nextDue e) else found) = Some v" by (simp add: v_def Some)
        show ?thesis using 2(3) [OF nz Some, of x] that unfolding eq by simp
      qed
      have "v \<le> u" "v \<le> nextDue e" by (simp_all add: v_def)
      then consider "\<exists>e\<in>set es. nextDue e \<noteq> 0 \<and> nextDue e = t" | "v \<le> t"
        using 2(4) Some by auto
      then show ?thesis
      proof cases
        case 1
        with IH [of t] show ?thesis unfolding step by blast
      next
        case 2
        with IH [of v] show ?thesis unfolding step by fastforce
      qed
    qed
  qed
qed simp

lemma NextDue_le:
  "e \<in> set (table s) \<Longrightarrow> nextDue e \<noteq> 0 \<Longrightarrow> \<exists>due. NextDue s = Some due \<and> due \<le> nextDue e"
  unfolding NextDue_def by (rule earliest_due_le) blast

section \<open>Properties\<close>


definition tick :: job where
  "tick = \<lparr>jName = ''tick'', jFunc = True, Interval = 10, At = 0\<rparr>"

lemma tick_simps: "jName tick = ''tick''" "jFunc tick" "Interval tick = 10" "At tick = 0"
  by (simp_all add: tick_def)

lemma Schedule_tick:
  "\<not> stopped s \<Longrightarrow> fst (Schedule now tick s) =
    s\<lparr>jobs := AList.update ''tick'' (length (entries s)) (jobs s),
      entries := entries s @ [\<lparr>spec = tick, nextDue = now + 10, busy = False\<rparr>], wake := True\<rparr>"
  by (simp add: Schedule_def tick_simps time_IsZero_def time_Add_def signalWake_def)


text \<open>Sleeping. The scheduling loop always sleeps a positive time of at most a minute and never past the time
  at which a job of the table becomes due, but for one microsecond; and it sleeps only that
  microsecond while any job is overdue, also one that is still running and cannot be launched.\<close>

theorem scheduler_sleep:
  "0 < nextSleep now s \<and> nextSleep now s \<le> idleTimeout \<and>
   list_all (\<lambda>e. if nextDue e = 0 then True
     else if nextDue e \<le> now then nextSleep now s = microsecond
     else now + nextSleep now s \<le> nextDue e \<or> nextSleep now s = microsecond) (table s)"
proof -
  have bound: "min_duration < - 1" "idleTimeout < max_duration" "0 < idleTimeout" "microsecond \<le> idleTimeout"
    by (simp_all add: min_duration_def max_duration_def idleTimeout_def)
  have "if nextDue e = 0 then True
     else if nextDue e \<le> now then nextSleep now s = microsecond
     else now + nextSleep now s \<le> nextDue e \<or> nextSleep now s = microsecond" if e: "e \<in> set (table s)" for e
  proof (cases "nextDue e = 0")
    case False
    obtain due where due: "NextDue s = Some due" "due \<le> nextDue e" using NextDue_le [OF e False] by blast
    have sleep: "nextSleep now s = (if due - now \<le> 0 then microsecond else if due - now > idleTimeout then idleTimeout else due - now)"
      using due(1) bound by (simp add: nextSleep_def time_Sub_def Let_def)
    show ?thesis using due(2) unfolding sleep by auto
  qed simp
  moreover have "0 < nextSleep now s \<and> nextSleep now s \<le> idleTimeout"
    using bound by (simp add: nextSleep_def Let_def split: option.split)
  ultimately show ?thesis by (simp add: list_all_iff)
qed

text \<open>The guard is on entries, not on names: a job scheduled again while it runs can run twice at once.\<close>

theorem rescheduling_overlaps:
  "\<exists>s. reach (\<lambda>s. s = NewScheduler) sched_step s \<and>
    map (\<lambda>i. jName (spec (entries s ! i))) (inflight s) = [''tick'', ''tick'']"
proof -
  let ?s1 = "fst (Schedule 5 tick NewScheduler)"
  let ?s2 = "fst (RunDue 15 ?s1)"
  let ?s3 = "fst (Schedule 16 tick ?s2)"
  let ?s4 = "fst (RunDue 30 ?s3)"
  have "reach (\<lambda>s. s = NewScheduler) sched_step ?s4"
    by (rule reach_step, rule reach_step, rule reach_step, rule reach_step, rule reach_start, rule refl)
      (rule sched_step.schedule sched_step.run_due)+
  moreover have "map (\<lambda>i. jName (spec (entries ?s4 ! i))) (inflight ?s4) = [''tick'', ''tick'']"
  proof -
    note due = RunDue_def due_entries_def is_due_def advanceNext_def tick_simps time_IsZero_def time_Add_def
    have s1: "jobs ?s1 = [(''tick'', 0)]" "entries ?s1 = [\<lparr>spec = tick, nextDue = 15, busy = False\<rparr>]"
      "inflight ?s1 = []" "\<not> stopped ?s1"
      by (simp_all add: NewScheduler_def Schedule_tick)
    have s2: "jobs ?s2 = [(''tick'', 0)]" "entries ?s2 = [\<lparr>spec = tick, nextDue = 25, busy = True\<rparr>]"
      "inflight ?s2 = [0]" "\<not> stopped ?s2"
      using s1 by (simp_all add: due)
    have s3: "jobs ?s3 = [(''tick'', 1)]" "inflight ?s3 = [0]"
      "entries ?s3 = [\<lparr>spec = tick, nextDue = 25, busy = True\<rparr>, \<lparr>spec = tick, nextDue = 26, busy = False\<rparr>]"
      using s2(1-3) by (simp_all add: Schedule_tick [OF s2(4)])
    show ?thesis using s3 by (simp add: due)
  qed
  ultimately show ?thesis by (intro exI [of _ ?s4] conjI)
qed

text \<open>A \<^verbatim>\<open>Stop\<close> before \<^verbatim>\<open>Start\<close> finds no loop to cancel, and later ones do nothing: the loop that
  \<^verbatim>\<open>Start\<close> enters afterwards is never cancelled by the scheduler.\<close>

theorem stop_before_start_is_lost:
  fixes t :: scheduler
  defines "s \<equiv> fst (Start_enter (Stop_begin NewScheduler))"
  shows "snd (Start_enter (Stop_begin NewScheduler)) \<and> started s \<and> (sched_step\<^sup>*\<^sup>* s t \<longrightarrow> stopped t \<and> \<not> cancel_called t)"
proof (intro conjI impI)
  show "snd (Start_enter (Stop_begin NewScheduler))" "started s"
    by (simp_all add: s_def Start_enter_def Stop_begin_def NewScheduler_def)
  assume "sched_step\<^sup>*\<^sup>* s t"
  then have "stopped t \<and> \<not> cancel_called t"
  proof (induction rule: rtranclp_induct)
    case base
    then show ?case by (simp add: s_def Start_enter_def Stop_begin_def NewScheduler_def)
  next
    case (step u v)
    have keep: "stopped (fst (launch now is x)) = stopped x \<and> cancel_called (fst (launch now is x)) = cancel_called x" for now "is" x
      by (induction now "is" x rule: launch.induct) (simp_all add: split_beta)
    from step.hyps(2) show ?case
      using step.IH keep
      by (cases rule: sched_step.cases)
        (auto simp: Schedule_def Unschedule_def signalWake_def RunDue_def end_run_def Start_enter_def Start_wait_def
          Stop_begin_def split: option.split sleep_end.splits if_splits)
  qed
  then show "stopped t" "\<not> cancel_called t" by simp_all
qed

end
