(* ===== verification/Logging.thy ===== *)
theory Logging
  imports Go_Strings "HOL-Library.AList"
begin

text \<open>
  Logging (\<^verbatim>\<open>internal/logger/logger.go\<close>): the production logger over \<^verbatim>\<open>log/slog\<close> and the capturing
  double. Of \<^verbatim>\<open>slog\<close> the levels, the handlers and the way arguments become attributes are modelled; what
  a handler writes for a record (its time, its source, the encoding) is not, so the output is the list of
  the records that handlers were given.
\<close>

section \<open>Levels and arguments\<close>

definition LevelDebug :: int where "LevelDebug = - 4"
definition LevelInfo :: int where "LevelInfo = 0"
definition LevelWarn :: int where "LevelWarn = 4"
definition LevelError :: int where "LevelError = 8"

lemmas levels = LevelDebug_def LevelInfo_def LevelWarn_def LevelError_def

text \<open>An argument is a string, an attribute or any other value.\<close>

datatype 'v log_arg = LStr string | LAttr string "'v log_arg" | LOther 'v

text \<open>The four logging methods of the interface, and the contract they have under every implementation:
  a call is seen if its level is enabled, and it does not change what is enabled.\<close>

datatype log_method = Debug | Info | Warn | Error

fun method_level :: "log_method \<Rightarrow> int" where
  "method_level Debug = LevelDebug"
| "method_level Info = LevelInfo"
| "method_level Warn = LevelWarn"
| "method_level Error = LevelError"

type_synonym 'v log_call = "log_method \<times> string \<times> 'v log_arg list"

locale logger =
  fixes log :: "log_method \<Rightarrow> string \<Rightarrow> 'v log_arg list \<Rightarrow> 's \<Rightarrow> 's"
    and enabled :: "int \<Rightarrow> 's \<Rightarrow> bool"
    and seen :: "'s \<Rightarrow> (int \<times> string) list"
  assumes log_seen: "seen (log k m a s) = seen s @ (if enabled (method_level k) s then [(method_level k, m)] else [])"
    and log_enabled: "enabled l (log k m a s) = enabled l s"
begin

lemma log_all:
  "seen (fold (\<lambda>(k, m, a). log k m a) calls s) =
    seen s @ map (\<lambda>(k, m, a). (method_level k, m)) (filter (\<lambda>(k, m, a). enabled (method_level k) s) calls)"
  by (induction calls arbitrary: s) (auto simp: log_seen log_enabled)

end

section \<open>The production logger\<close>

text \<open>What \<^verbatim>\<open>New\<close> hands to \<^verbatim>\<open>log/slog\<close>: the handler, its writer and its options. A format is an
  integer, zero for text and one for JSON.\<close>

definition FormatText :: int where "FormatText = 0"
definition FormatJSON :: int where "FormatJSON = 1"

record 'w log_config =
  cfgWriter :: "'w option"
  cfgFormat :: int
  cfgLevel :: int
  cfgAddSource :: bool

datatype 'w slog_handler =
    TextHandler (handler_writer: 'w) (handler_level: int) (handler_source: bool)
  | JSONHandler (handler_writer: 'w) (handler_level: int) (handler_source: bool)

text \<open>A \<^verbatim>\<open>slog.Logger\<close>: the handler with the attributes it was given by \<^verbatim>\<open>With\<close>, and how \<^verbatim>\<open>slog\<close> reads
  arguments: a string takes the next argument as its value, what has no key gets a mark for one.\<close>

record ('w, 'v) slog_logger =
  slogHandler :: "'w slog_handler"
  slogAttrs :: "(string \<times> 'v log_arg) list"

fun argsToAttrs :: "'v log_arg list \<Rightarrow> (string \<times> 'v log_arg) list" where
  "argsToAttrs [] = []"
| "argsToAttrs [LStr k] = [(''!BADKEY'', LStr k)]"
| "argsToAttrs (LStr k # v # rest) = (k, v) # argsToAttrs rest"
| "argsToAttrs (LAttr k v # rest) = (k, v) # argsToAttrs rest"
| "argsToAttrs (LOther v # rest) = (''!BADKEY'', LOther v) # argsToAttrs rest"

record 'v slog_record =
  eLevel :: int
  eMsg :: string
  eAttrs :: "(string \<times> 'v log_arg) list"

type_synonym ('w, 'v) slog_output = "('w slog_handler \<times> 'v slog_record) list"

definition slog_New :: "'w slog_handler \<Rightarrow> ('w, 'v) slog_logger" where
  "slog_New h = \<lparr>slogHandler = h, slogAttrs = []\<rparr>"

definition slog_Enabled :: "int \<Rightarrow> ('w, 'v) slog_logger \<Rightarrow> bool" where
  "slog_Enabled level l \<longleftrightarrow> level \<ge> handler_level (slogHandler l)"

definition slog_With :: "'v log_arg list \<Rightarrow> ('w, 'v) slog_logger \<Rightarrow> ('w, 'v) slog_logger" where
  "slog_With args l = l\<lparr>slogAttrs := slogAttrs l @ argsToAttrs args\<rparr>"

definition slog_log ::
  "int \<Rightarrow> string \<Rightarrow> 'v log_arg list \<Rightarrow> ('w, 'v) slog_logger \<Rightarrow> ('w, 'v) slog_output \<Rightarrow> ('w, 'v) slog_output" where
  "slog_log level msg args l out =
    (if slog_Enabled level l
     then out @ [(slogHandler l, \<lparr>eLevel = level, eMsg = msg, eAttrs = slogAttrs l @ argsToAttrs args\<rparr>)]
     else out)"

text \<open>The package's own code: the constructors and the methods that forward.\<close>

datatype ('w, 'v) slogLogger = SlogLogger (slogL: "('w, 'v) slog_logger")

definition New_handler :: "'w \<Rightarrow> 'w log_config \<Rightarrow> 'w slog_handler" where
  "New_handler stderr cfg =
    (let w = (case cfgWriter cfg of None \<Rightarrow> stderr | Some w \<Rightarrow> w) in
     if cfgFormat cfg = FormatText then TextHandler w (cfgLevel cfg) (cfgAddSource cfg)
     else JSONHandler w (cfgLevel cfg) (cfgAddSource cfg))"

definition New_logger :: "'w \<Rightarrow> 'w log_config \<Rightarrow> ('w, 'v) slogLogger" where
  "New_logger stderr cfg = SlogLogger (slog_New (New_handler stderr cfg))"

definition FromSlog :: "('w, 'v) slog_logger \<Rightarrow> ('w, 'v) slogLogger" where
  "FromSlog l = SlogLogger l"

definition Discard :: "'w \<Rightarrow> ('w, 'v) slogLogger" where
  "Discard io_Discard = SlogLogger (slog_New (TextHandler io_Discard LevelInfo False))"

type_synonym ('w, 'v) slog_state = "('w, 'v) slogLogger \<times> ('w, 'v) slog_output"

definition slogLogger_Debug :: "string \<Rightarrow> 'v log_arg list \<Rightarrow> ('w, 'v) slog_state \<Rightarrow> ('w, 'v) slog_state" where
  "slogLogger_Debug msg args so = (case so of (s, out) \<Rightarrow> (s, slog_log LevelDebug msg args (slogL s) out))"

definition slogLogger_Info :: "string \<Rightarrow> 'v log_arg list \<Rightarrow> ('w, 'v) slog_state \<Rightarrow> ('w, 'v) slog_state" where
  "slogLogger_Info msg args so = (case so of (s, out) \<Rightarrow> (s, slog_log LevelInfo msg args (slogL s) out))"

definition slogLogger_Warn :: "string \<Rightarrow> 'v log_arg list \<Rightarrow> ('w, 'v) slog_state \<Rightarrow> ('w, 'v) slog_state" where
  "slogLogger_Warn msg args so = (case so of (s, out) \<Rightarrow> (s, slog_log LevelWarn msg args (slogL s) out))"

definition slogLogger_Error :: "string \<Rightarrow> 'v log_arg list \<Rightarrow> ('w, 'v) slog_state \<Rightarrow> ('w, 'v) slog_state" where
  "slogLogger_Error msg args so = (case so of (s, out) \<Rightarrow> (s, slog_log LevelError msg args (slogL s) out))"

definition slogLogger_With :: "'v log_arg list \<Rightarrow> ('w, 'v) slogLogger \<Rightarrow> ('w, 'v) slogLogger" where
  "slogLogger_With args s = SlogLogger (slog_With args (slogL s))"

definition slogLogger_Enabled :: "int \<Rightarrow> ('w, 'v) slogLogger \<Rightarrow> bool" where
  "slogLogger_Enabled level s = slog_Enabled level (slogL s)"

text \<open>The zero configuration writes text.\<close>

lemma zero_config_writes_text:
  "New_handler stderr \<lparr>cfgWriter = None, cfgFormat = 0, cfgLevel = 0, cfgAddSource = False\<rparr> = TextHandler stderr 0 False"
  by (simp add: New_handler_def FormatText_def)

fun slog_call :: "log_method \<Rightarrow> string \<Rightarrow> 'v log_arg list \<Rightarrow> ('w, 'v) slog_state \<Rightarrow> ('w, 'v) slog_state" where
  "slog_call Debug = slogLogger_Debug"
| "slog_call Info = slogLogger_Info"
| "slog_call Warn = slogLogger_Warn"
| "slog_call Error = slogLogger_Error"

lemma slog_call_eq: "slog_call k msg args (s, out) = (s, slog_log (method_level k) msg args (slogL s) out)"
  by (cases k) (simp_all add: slogLogger_Debug_def slogLogger_Info_def slogLogger_Warn_def slogLogger_Error_def)

definition slog_seen :: "('w, 'v) slog_state \<Rightarrow> (int \<times> string) list" where
  "slog_seen so = map (\<lambda>(h, e). (eLevel e, eMsg e)) (snd so)"

interpretation production: logger slog_call "\<lambda>l so. slogLogger_Enabled l (fst so)" slog_seen
  by unfold_locales
    (auto simp: slog_call_eq slog_seen_def slogLogger_Enabled_def slog_log_def split: prod.split)

section \<open>The capturing double\<close>

record 'v log_record =
  lLevel :: int
  lMsg :: string
  lAttrs :: "(string \<times> 'v log_arg) list"

record 'v capture =
  clevel :: int
  cwith :: "'v log_arg list"
  crecords :: "'v log_record list"

definition NewCapture :: "int \<Rightarrow> 'v capture" where
  "NewCapture level = \<lparr>clevel = level, cwith = [], crecords = []\<rparr>"

definition Capture_Enabled :: "int \<Rightarrow> 'v capture \<Rightarrow> bool" where
  "Capture_Enabled level c \<longleftrightarrow> level \<ge> clevel c"

fun attrs_loop :: "'v log_arg list \<Rightarrow> (string \<times> 'v log_arg) list \<Rightarrow> (string \<times> 'v log_arg) list" where
  "attrs_loop (k # v # rest) attrs =
    attrs_loop rest (case k of LStr s \<Rightarrow> AList.update s v attrs | _ \<Rightarrow> attrs)"
| "attrs_loop _ attrs = attrs"

definition Capture_record :: "int \<Rightarrow> string \<Rightarrow> 'v log_arg list \<Rightarrow> 'v capture \<Rightarrow> 'v capture" where
  "Capture_record level msg args c =
    (if level < clevel c then c
     else c\<lparr>crecords := crecords c @ [\<lparr>lLevel = level, lMsg = msg, lAttrs = attrs_loop (cwith c @ args) []\<rparr>]\<rparr>)"

definition Capture_With :: "'v log_arg list \<Rightarrow> 'v capture \<Rightarrow> 'v capture" where
  "Capture_With args c = \<lparr>clevel = clevel c, cwith = cwith c @ args, crecords = []\<rparr>"

definition Records :: "'v capture \<Rightarrow> 'v log_record list" where
  "Records c = crecords c"

definition Capture_Reset :: "'v capture \<Rightarrow> 'v capture" where
  "Capture_Reset c = c\<lparr>crecords := []\<rparr>"

definition HasMessage :: "string \<Rightarrow> 'v capture \<Rightarrow> bool" where
  "HasMessage substr c \<longleftrightarrow> list_ex (\<lambda>r. strings_Contains (lMsg r) substr) (crecords c)"

definition FilterLevel :: "int \<Rightarrow> 'v capture \<Rightarrow> 'v log_record list" where
  "FilterLevel level c = filter (\<lambda>r. lLevel r = level) (crecords c)"

text \<open>The value of a key: that of its last pair, the arguments of the call after those of \<^verbatim>\<open>With\<close>.\<close>

fun pairs :: "'v log_arg list \<Rightarrow> (string \<times> 'v log_arg) list" where
  "pairs (k # v # rest) = (case k of LStr s \<Rightarrow> [(s, v)] | _ \<Rightarrow> []) @ pairs rest"
| "pairs _ = []"

lemma attrs_loop_lookup: "map_of (attrs_loop args attrs) = map_of attrs ++ map_of (rev (pairs args))"
  by (induction args attrs rule: attrs_loop.induct)
    (auto simp: fun_eq_iff update_conv' map_add_def split: log_arg.split option.split)

definition Capture_Debug :: "string \<Rightarrow> 'v log_arg list \<Rightarrow> 'v capture \<Rightarrow> 'v capture" where
  "Capture_Debug msg args c = Capture_record LevelDebug msg args c"

definition Capture_Info :: "string \<Rightarrow> 'v log_arg list \<Rightarrow> 'v capture \<Rightarrow> 'v capture" where
  "Capture_Info msg args c = Capture_record LevelInfo msg args c"

definition Capture_Warn :: "string \<Rightarrow> 'v log_arg list \<Rightarrow> 'v capture \<Rightarrow> 'v capture" where
  "Capture_Warn msg args c = Capture_record LevelWarn msg args c"

definition Capture_Error :: "string \<Rightarrow> 'v log_arg list \<Rightarrow> 'v capture \<Rightarrow> 'v capture" where
  "Capture_Error msg args c = Capture_record LevelError msg args c"

fun capture_call :: "log_method \<Rightarrow> string \<Rightarrow> 'v log_arg list \<Rightarrow> 'v capture \<Rightarrow> 'v capture" where
  "capture_call Debug = Capture_Debug"
| "capture_call Info = Capture_Info"
| "capture_call Warn = Capture_Warn"
| "capture_call Error = Capture_Error"

lemma capture_call_eq: "capture_call k msg args c = Capture_record (method_level k) msg args c"
  by (cases k) (simp_all add: Capture_Debug_def Capture_Info_def Capture_Warn_def Capture_Error_def)

interpretation capture: logger capture_call Capture_Enabled "\<lambda>c. map (\<lambda>r. (lLevel r, lMsg r)) (Records c)"
  by unfold_locales (auto simp: capture_call_eq Capture_record_def Capture_Enabled_def Records_def)

text \<open>A captured log holds exactly the records at or above its level, in the order of the calls, and a
  key has the value it was given last.\<close>

theorem capture_is_exact:
  "map (\<lambda>r. (lLevel r, lMsg r)) (Records (fold (\<lambda>(k, m, a). capture_call k m a) calls c)) =
     map (\<lambda>r. (lLevel r, lMsg r)) (Records c) @
     map (\<lambda>(k, m, a). (method_level k, m)) (filter (\<lambda>(k, m, a). Capture_Enabled (method_level k) c) calls) \<and>
   map_of (lAttrs (last (Records (Capture_record (clevel c) m args c)))) k = map_of (rev (pairs (cwith c @ args))) k"
  by (rule conjI [OF capture.log_all]) (simp add: Records_def Capture_record_def attrs_loop_lookup)

section \<open>The double against the production logger\<close>

text \<open>Arguments as the interface means them: keys and values in turn.\<close>

fun keyed :: "'v log_arg list \<Rightarrow> bool" where
  "keyed [] = True"
| "keyed (LStr k # v # rest) = keyed rest"
| "keyed _ = False"

lemma keyed_attrs: "keyed args \<Longrightarrow> argsToAttrs args = pairs args"
  by (induction args rule: keyed.induct) auto

lemma keyed_append: "keyed xs \<Longrightarrow> pairs (xs @ ys) = pairs xs @ pairs ys"
  by (induction xs rule: keyed.induct) auto

text \<open>A captured record and one that a handler was given say the same: level, message, and for every key
  the value given last.\<close>

definition same_record :: "'v log_record \<Rightarrow> 'v slog_record \<Rightarrow> bool" where
  "same_record r e \<longleftrightarrow> lLevel r = eLevel e \<and> lMsg r = eMsg e \<and> map_of (lAttrs r) = map_of (rev (eAttrs e))"

definition same_logger :: "'v capture \<Rightarrow> ('w, 'v) slog_state \<Rightarrow> bool" where
  "same_logger c so \<longleftrightarrow>
    clevel c = handler_level (slogHandler (slogL (fst so))) \<and> keyed (cwith c) \<and>
    pairs (cwith c) = slogAttrs (slogL (fst so)) \<and> list_all2 same_record (Records c) (map snd (snd so))"

lemma same_log:
  assumes "same_logger c (s, out)" "keyed args"
  shows "same_logger (Capture_record l msg args c) (s, slog_log l msg args (slogL s) out)"
proof -
  have "map_of (attrs_loop (cwith c @ args) []) = map_of (rev (slogAttrs (slogL s) @ argsToAttrs args))"
    using assms by (simp add: same_logger_def attrs_loop_lookup keyed_attrs keyed_append)
  then show ?thesis
    using assms(1)
    by (auto simp: same_logger_def same_record_def Capture_record_def slog_log_def slog_Enabled_def Records_def
        intro: list_all2_appendI)
qed

lemma same_calls:
  assumes "same_logger c (s, out)" "list_all (\<lambda>(k, m, a). keyed a) calls"
  shows "same_logger (fold (\<lambda>(k, m, a). capture_call k m a) calls c) (fold (\<lambda>(k, m, a). slog_call k m a) calls (s, out))"
  using assms
proof (induction calls arbitrary: c out)
  case (Cons x calls)
  obtain k m a where x: "x = (k, m, a)" by (cases x)
  have "same_logger (Capture_record (method_level k) m a c) (s, slog_log (method_level k) m a (slogL s) out)"
    using Cons.prems x by (intro same_log) simp_all
  from Cons.IH [OF this] Cons.prems(2) show ?case by (simp add: x capture_call_eq slog_call_eq)
qed simp

lemma same_with:
  assumes "same_logger c (s, [])" "keyed args" "Records c = []"
  shows "same_logger (Capture_With args c) (slogLogger_With args s, [])"
proof -
  have k: "keyed xs \<Longrightarrow> keyed ys \<Longrightarrow> keyed (xs @ ys)" for xs ys :: "'a log_arg list"
    by (induction xs rule: keyed.induct) auto
  show ?thesis
    using assms k
    by (auto simp: same_logger_def Capture_With_def slogLogger_With_def slog_With_def Records_def keyed_attrs keyed_append)
qed

lemma same_withs:
  assumes "list_all keyed ws" "same_logger c (s, [])" "Records c = []"
  shows "same_logger (fold Capture_With ws c) (fold slogLogger_With ws s, [])"
  using assms
proof (induction ws arbitrary: c s)
  case (Cons w ws)
  have "same_logger (Capture_With w c) (slogLogger_With w s, [])" using Cons.prems by (intro same_with) simp_all
  with Cons show ?case by (simp add: Capture_With_def Records_def)
qed simp

text \<open>(C33) A test that logs to the double sees what production logs: after the same chain of \<^verbatim>\<open>With\<close>, the
  same calls give the same records in the same order, with the same level, message and value of every
  key, provided that every argument list is made of keys and values.\<close>

theorem logger_double_agrees:
  assumes "list_all keyed ws" "list_all (\<lambda>(k, m, a). keyed a) calls"
  shows "list_all2 same_record
    (Records (fold (\<lambda>(k, m, a). capture_call k m a) calls (fold Capture_With ws (NewCapture (cfgLevel cfg)))))
    (map snd (snd (fold (\<lambda>(k, m, a). slog_call k m a) calls (fold slogLogger_With ws (New_logger stderr cfg), []))))"
proof -
  have "same_logger (NewCapture (cfgLevel cfg)) (New_logger stderr cfg, [])"
    by (simp add: same_logger_def NewCapture_def New_logger_def slog_New_def New_handler_def Records_def Let_def)
  from same_calls [OF same_withs [OF assms(1) this] assms(2)] show ?thesis
    by (simp add: same_logger_def NewCapture_def Records_def)
qed

theorem logger_double_agrees_witness:
  "list_all2 same_record
    (Records (capture_call Warn ''slow'' [LStr ''ms'', LOther (7::int)]
      (Capture_With [LStr ''tool'', LStr ''a''] (NewCapture 0))))
    (map snd (snd (slog_call Warn ''slow'' [LStr ''ms'', LOther 7]
      (slogLogger_With [LStr ''tool'', LStr ''a''] (New_logger () \<lparr>cfgWriter = None, cfgFormat = 0, cfgLevel = 0, cfgAddSource = False\<rparr>), []))))"
  using logger_double_agrees [of "[[LStr ''tool'', LStr ''a'']]" "[(Warn, ''slow'', [LStr ''ms'', LOther (7::int)])]"
      "\<lparr>cfgWriter = None, cfgFormat = 0, cfgLevel = 0, cfgAddSource = False\<rparr>" "()"]
  by simp

text \<open>A lone argument is where they differ: \<^verbatim>\<open>slog\<close> keeps it under a mark, the double drops it.\<close>

lemma lone_argument_differs:
  "lAttrs (last (Records (capture_call Error m [LOther v] (NewCapture 0)))) = [] \<and>
   eAttrs (snd (last (snd (slog_call Error m [LOther v] (FromSlog (slog_New (TextHandler w 0 False)), []))))) =
     [(''!BADKEY'', LOther v)]"
  by (simp add: Capture_Error_def slogLogger_Error_def Capture_record_def NewCapture_def Records_def LevelError_def
      FromSlog_def slog_New_def slog_log_def slog_Enabled_def)

end
