(* ===== verification/Scheduler_Run.thy ===== *)
theory Scheduler_Run
  imports Scheduler Limiter Logging
begin

text \<open>
  The scheduler with what its options add (\<^verbatim>\<open>internal/scheduler/scheduler.go\<close>): invocations run
  step by step beside the scheduler, under the semaphore of \<^verbatim>\<open>internal/limiter\<close> if one is given, and report
  their errors to a callback, for instance the logger of \<^verbatim>\<open>internal/logger\<close>. The limiter may be shared:
  permits other code holds are counted in \<open>sothers\<close>. Contexts, and how job functions end, are choices of
  the environment. It is shown to run the job table of \<^verbatim>\<open>Scheduler\<close>.
\<close>

section \<open>State and options\<close>

text \<open>An invocation: launched; in the loop of \<^verbatim>\<open>Acquire\<close> (having slept or not); in its function; about to
  report an error; with its deferred calls to run, the permit's first; with only the busy flag and the
  wait group left. The flag of the later ones tells whether a permit is to be given back.\<close>

datatype invocation = Dormant | Starting | Acquiring bool | Calling | Reporting bool string | Unwinding bool | Clearing

text \<open>\<open>reported\<close> and \<open>outcomes\<close> record what \<^verbatim>\<open>report\<close> was called with and how invocations ended.\<close>

record 'l sched_run =
  sch :: scheduler
  slim :: "semaphore option"
  sonError :: "(string \<Rightarrow> string \<Rightarrow> 'l \<Rightarrow> 'l) option"
  slog :: 'l
  invs :: "nat \<Rightarrow> invocation"
  sothers :: int
  reported :: "(string \<times> string) list"
  outcomes :: "(string \<times> run_end) list"

type_synonym 'l sched_option = "'l sched_run \<Rightarrow> 'l sched_run"

definition WithConcurrencyLimit :: "semaphore option \<Rightarrow> 'l sched_option" where
  "WithConcurrencyLimit l s = s\<lparr>slim := l\<rparr>"

definition WithOnError :: "(string \<Rightarrow> string \<Rightarrow> 'l \<Rightarrow> 'l) option \<Rightarrow> 'l sched_option" where
  "WithOnError fn s = s\<lparr>sonError := fn\<rparr>"

text \<open>A logger is given by its methods; the error is an argument that is no string.\<close>

definition WithLogger :: "(log_method \<Rightarrow> string \<Rightarrow> string log_arg list \<Rightarrow> 'l \<Rightarrow> 'l) option \<Rightarrow> 'l sched_option" where
  "WithLogger lg s =
    (case lg of
       None \<Rightarrow> s
     | Some log \<Rightarrow>
         if sonError s \<noteq> None then s
         else s\<lparr>sonError := Some (\<lambda>name err. log Error ''scheduled job failed''
           [LStr ''job'', LStr name, LStr ''err'', LOther err])\<rparr>)"

definition New_scheduler :: "'l \<Rightarrow> 'l sched_option list \<Rightarrow> 'l sched_run" where
  "New_scheduler log opts =
    fold (\<lambda>opt s. opt s) opts
      \<lparr>sch = NewScheduler, slim = None, sonError = None, slog = log, invs = (\<lambda>_. Dormant), sothers = 0,
        reported = [], outcomes = []\<rparr>"

text \<open>\<^verbatim>\<open>WithOnError\<close> wins over \<^verbatim>\<open>WithLogger\<close>, whichever comes first.\<close>

lemma on_error_wins:
  "sonError (New_scheduler log [WithOnError (Some f), WithLogger lg]) = Some f"
  "sonError (New_scheduler log [WithLogger lg, WithOnError (Some f)]) = Some f"
  by (simp_all add: New_scheduler_def WithOnError_def WithLogger_def split: option.split)

section \<open>An invocation\<close>

definition report :: "string \<Rightarrow> string \<Rightarrow> 'l sched_run \<Rightarrow> 'l sched_run" where
  "report name err s =
    s\<lparr>slog := (case sonError s of None \<Rightarrow> slog s | Some f \<Rightarrow> f name err (slog s)), reported := reported s @ [(name, err)]\<rparr>"

definition job_name :: "nat \<Rightarrow> 'l sched_run \<Rightarrow> string" where
  "job_name i s = jName (spec (entries (sch s) ! i))"

definition set_inv :: "nat \<Rightarrow> invocation \<Rightarrow> 'l sched_run \<Rightarrow> 'l sched_run" where
  "set_inv i p s = s\<lparr>invs := (invs s)(i := p)\<rparr>"

text \<open>How the acquisition or the function ended: an error is reported next, with or without a permit.\<close>

definition conclude :: "nat \<Rightarrow> bool \<Rightarrow> run_end \<Rightarrow> 'l sched_run \<Rightarrow> 'l sched_run" where
  "conclude i permit r s =
    set_inv i (case run_error r of None \<Rightarrow> Unwinding permit | Some e \<Rightarrow> Reporting permit e)
      (s\<lparr>outcomes := outcomes s @ [(job_name i s, r)]\<rparr>)"

text \<open>\<^verbatim>\<open>safeRun\<close>: the function's error, or the panic it recovers from.\<close>

datatype fn_end = Returns "string option" | Panics string

fun safeRun :: "fn_end \<Rightarrow> run_end" where
  "safeRun (Returns e) = Finished e"
| "safeRun (Panics v) = Panicked v"

text \<open>The next step of \<^verbatim>\<open>run\<close>, the context and the end of the function being given: \<open>None\<close> where it sleeps or is
  over, \<open>Inl\<close> for a panic of the limiter.\<close>

definition run_next :: "string option \<Rightarrow> fn_end \<Rightarrow> nat \<Rightarrow> 'l sched_run \<Rightarrow> 'l sched_run result option" where
  "run_next ctxErr fn i s =
    (case invs s i of
       Dormant \<Rightarrow> None
     | Starting \<Rightarrow>
         (case slim s of
            None \<Rightarrow> Some (Inr (set_inv i Calling s))
          | Some l \<Rightarrow>
              (case acquire_entry l ctxErr 1 of
                 Return None \<Rightarrow> Some (Inr (set_inv i Calling s))
               | Return (Some e) \<Rightarrow> Some (Inr (conclude i False (NoPermit e) s))
               | Enter \<Rightarrow> Some (Inr (set_inv i (Acquiring False) s))))
     | Acquiring waited \<Rightarrow>
         (case slim s of
            None \<Rightarrow> None
          | Some l \<Rightarrow>
              if fits l 1 then Some (Inr (set_inv i Calling (s\<lparr>slim := Some (grant 1 waited l)\<rparr>)))
              else (case ctxErr of
                      Some e \<Rightarrow> Some (Inr (conclude i False (NoPermit e) s))
                    | None \<Rightarrow> if waited then None else Some (Inr (set_inv i (Acquiring True) s))))
     | Calling \<Rightarrow> Some (Inr (conclude i (slim s \<noteq> None) (safeRun fn) s))
     | Reporting permit e \<Rightarrow> Some (Inr (set_inv i (Unwinding permit) (report (job_name i s) e s)))
     | Unwinding permit \<Rightarrow>
         (case slim s of
            Some l \<Rightarrow>
              if permit then Some (map_sum id (\<lambda>l'. set_inv i Clearing (s\<lparr>slim := Some l'\<rparr>)) (Release l))
              else Some (Inr (set_inv i Clearing s))
          | None \<Rightarrow> Some (Inr (set_inv i Clearing s)))
     | Clearing \<Rightarrow> Some (Inr (set_inv i Dormant (s\<lparr>sch := end_run i (Finished None) (sch s)\<rparr>))))"

text \<open>\<^verbatim>\<open>RunDue\<close> starts a goroutine for every entry it launches.\<close>

definition RunDue_spawn :: "time \<Rightarrow> 'l sched_run \<Rightarrow> 'l sched_run" where
  "RunDue_spawn now s =
    s\<lparr>sch := fst (RunDue now (sch s)),
      invs := (\<lambda>i. if i \<in> set (due_entries now (sch s)) then Starting else invs s i)\<rparr>"

section \<open>The system\<close>

inductive invocation_step :: "'l sched_run \<Rightarrow> 'l sched_run \<Rightarrow> bool" where
  invoke: "run_next ctxErr fn i s = Some (Inr s') \<Longrightarrow> invocation_step s s'"

inductive run_step :: "'l sched_run \<Rightarrow> 'l sched_run \<Rightarrow> bool" where
  invocation: "invocation_step s s' \<Longrightarrow> run_step s s'"
| schedule: "run_step s (s\<lparr>sch := fst (Schedule now j (sch s))\<rparr>)"
| unschedule: "run_step s (s\<lparr>sch := fst (Unschedule name (sch s))\<rparr>)"
| spawn: "run_step s (RunDue_spawn now s)"
| enter: "run_step s (s\<lparr>sch := fst (Start_enter (sch s))\<rparr>)"
| awake: "Start_wait w (sch s) = Some (t, again) \<Longrightarrow> run_step s (s\<lparr>sch := t\<rparr>)"
| stop: "run_step s (s\<lparr>sch := Stop_begin (sch s)\<rparr>)"
| other_acquire: "slim s = Some l \<Longrightarrow> TryAcquire l = (l', True) \<Longrightarrow>
    run_step s (s\<lparr>slim := Some l', sothers := sothers s + 1\<rparr>)"
| other_release: "slim s = Some l \<Longrightarrow> 0 < sothers s \<Longrightarrow> Release l = Inr l' \<Longrightarrow>
    run_step s (s\<lparr>slim := Some l', sothers := sothers s - 1\<rparr>)"

text \<open>A scheduler is set up with any callback and with no limiter or one that others may use already.\<close>

definition run_start :: "'l \<Rightarrow> 'l sched_run \<Rightarrow> bool" where
  "run_start log s \<longleftrightarrow>
    sch s = NewScheduler \<and> invs s = (\<lambda>_. Dormant) \<and> slog s = log \<and> reported s = [] \<and> outcomes s = [] \<and> 0 \<le> sothers s \<and>
    (case slim s of None \<Rightarrow> True
     | Some l \<Rightarrow> 1 \<le> capacity l \<and> inFlight l = sothers s \<and> inFlight l \<le> capacity l)"

inductive_cases invocation_stepE: "invocation_step s s'"

lemma New_scheduler_start:
  "run_start log (New_scheduler log [WithLogger lg])"
  "NewSemaphore n = Inr l \<Longrightarrow> run_start log (New_scheduler log [WithConcurrencyLimit (Some l), WithLogger lg])"
  by (auto simp: run_start_def New_scheduler_def WithConcurrencyLimit_def WithLogger_def NewSemaphore_def
      split: option.split if_splits)

section \<open>It runs the job table\<close>

lemma sched_step_spec:
  assumes "sched_step s t" "sched_ok s" "i < length (entries s)"
  shows "i < length (entries t) \<and> spec (entries t ! i) = spec (entries s ! i)"
  using assms(1)
proof (cases rule: sched_step.cases)
  case (run_due now)
  then show ?thesis using assms(3) by (simp add: RunDue_launches [OF assms(2)])
next
  case (finish j r)
  then show ?thesis using assms(3) by (cases "i = j") (simp_all add: end_run_def)
next
  case (awake w again)
  then show ?thesis using assms(3) by (auto simp: Start_wait_def split: sleep_end.splits if_splits)
qed (use assms(3) in \<open>auto simp: Schedule_def Unschedule_def signalWake_def Start_enter_def Stop_begin_def Let_def nth_append
      split: option.split\<close>)

text \<open>Of an invocation's steps only its last one touches the table.\<close>

lemma report_simps [simp]:
  "sch (report n e s) = sch s" "invs (report n e s) = invs s" "slim (report n e s) = slim s" "sothers (report n e s) = sothers s"
  "sonError (report n e s) = sonError s" "outcomes (report n e s) = outcomes s" "reported (report n e s) = reported s @ [(n, e)]"
  by (simp_all add: report_def)

lemma set_inv_simps [simp]:
  "sch (set_inv i p s) = sch s" "invs (set_inv i p s) = (invs s)(i := p)" "slim (set_inv i p s) = slim s"
  "sothers (set_inv i p s) = sothers s" "sonError (set_inv i p s) = sonError s" "outcomes (set_inv i p s) = outcomes s"
  "reported (set_inv i p s) = reported s" "slog (set_inv i p s) = slog s"
  by (simp_all add: set_inv_def)

text \<open>The effect of one step on every field: the invocation's phase, what becomes of the limiter, of the
  report and of the outcomes.\<close>

definition after_error :: "bool \<Rightarrow> run_end \<Rightarrow> invocation" where
  "after_error permit r = (case run_error r of None \<Rightarrow> Unwinding permit | Some e \<Rightarrow> Reporting permit e)"

lemma conclude_simps [simp]:
  "sch (conclude i b r s) = sch s" "invs (conclude i b r s) = (invs s)(i := after_error b r)" "slim (conclude i b r s) = slim s"
  "sothers (conclude i b r s) = sothers s" "sonError (conclude i b r s) = sonError s" "slog (conclude i b r s) = slog s"
  "outcomes (conclude i b r s) = outcomes s @ [(job_name i s, r)]" "reported (conclude i b r s) = reported s"
  by (simp_all add: conclude_def after_error_def)

fun has_permit :: "invocation \<Rightarrow> bool" where
  "has_permit Calling = True"
| "has_permit (Reporting p e) = p"
| "has_permit (Unwinding p) = p"
| "has_permit _ = False"

fun pending :: "string \<Rightarrow> invocation \<Rightarrow> (string \<times> string) multiset" where
  "pending name (Reporting p e) = {#(name, e)#}"
| "pending name _ = {#}"

lemma after_error_simps [simp]:
  "has_permit (after_error b r) = b" "after_error b r \<noteq> Dormant" "after_error b r \<noteq> Acquiring w"
  "pending n (after_error b r) = (case run_error r of None \<Rightarrow> {#} | Some e \<Rightarrow> {#(n, e)#})"
  by (simp_all add: after_error_def split: option.split)

definition permits_of :: "'l sched_run \<Rightarrow> int" where
  "permits_of s = (\<Sum>i\<in>set (inflight (sch s)). of_bool (has_permit (invs s i)))"

definition pending_of :: "'l sched_run \<Rightarrow> (string \<times> string) multiset" where
  "pending_of s = (\<Sum>i\<in>set (inflight (sch s)). pending (job_name i s) (invs s i))"

definition failed :: "(string \<times> run_end) list \<Rightarrow> (string \<times> string) list" where
  "failed os = List.map_filter (\<lambda>(n, r). map_option (Pair n) (run_error r)) os"

lemma failed_append [simp]:
  "failed (os @ [(n, r)]) = failed os @ (case run_error r of None \<Rightarrow> [] | Some e \<Rightarrow> [(n, e)])"
  by (auto simp: failed_def map_filter_def split: option.split)

text \<open>The invariant. What runs is what the table says is running, the permits add up, an error is reported
  once or about to be, and the callback has seen what was reported, in that order.\<close>

definition table_ok :: "'l sched_run \<Rightarrow> bool" where
  "table_ok s \<longleftrightarrow> sched_ok (sch s) \<and> (\<forall>i. invs s i = Dormant \<longleftrightarrow> i \<notin> set (inflight (sch s)))"

definition limit_ok :: "'l sched_run \<Rightarrow> bool" where
  "limit_ok s \<longleftrightarrow> 0 \<le> sothers s \<and>
    (case slim s of
       None \<Rightarrow> \<forall>i w. invs s i \<noteq> Acquiring w
     | Some l \<Rightarrow> inFlight l = sothers s + permits_of s \<and> inFlight l \<le> capacity l \<and> 1 \<le> capacity l)"

definition reports_ok :: "'l \<Rightarrow> 'l sched_run \<Rightarrow> bool" where
  "reports_ok log s \<longleftrightarrow>
    mset (reported s) + pending_of s = mset (failed (outcomes s)) \<and>
    slog s = (case sonError s of None \<Rightarrow> log | Some f \<Rightarrow> fold (\<lambda>(n, e). f n e) (reported s) log)"

text \<open>One step of an invocation, as an update of the table, the phase and the sums.\<close>

lemma permits_move:
  assumes "i \<in> set (inflight (sch s))" "sch t = sch s" "invs t = (invs s)(i := p)"
  shows "permits_of t = permits_of s - of_bool (has_permit (invs s i)) + of_bool (has_permit p)"
  using sum_fun_move [OF finite_set assms(1), of "\<lambda>_ q. of_bool (has_permit q) :: int" "invs s" p] assms(2,3)
  by (simp add: permits_of_def)

lemma pending_move:
  assumes "i \<in> set (inflight (sch s))" "sch t = sch s" "invs t = (invs s)(i := p)"
  shows "pending_of t + pending (job_name i s) (invs s i) = pending_of s + pending (job_name i s) p"
  using sum_fun_move [OF finite_set assms(1), of "\<lambda>j. pending (job_name j s)" "invs s" p] assms(2,3)
  by (simp add: pending_of_def job_name_def)

lemma sums_fields [simp]:
  "permits_of (s\<lparr>slim := l\<rparr>) = permits_of s" "permits_of (s\<lparr>outcomes := os\<rparr>) = permits_of s"
  "permits_of (report n e s) = permits_of s"
  "pending_of (s\<lparr>slim := l\<rparr>) = pending_of s" "pending_of (s\<lparr>outcomes := os\<rparr>) = pending_of s"
  "pending_of (report n e s) = pending_of s"
  by (simp_all add: permits_of_def pending_of_def job_name_def)

lemma permits_set_inv:
  "i \<in> set (inflight (sch s)) \<Longrightarrow>
    permits_of (set_inv i p s) = permits_of s - of_bool (has_permit (invs s i)) + of_bool (has_permit p)"
  by (rule permits_move) simp_all

lemma permits_conclude:
  "i \<in> set (inflight (sch s)) \<Longrightarrow>
    permits_of (conclude i b r s) = permits_of s - of_bool (has_permit (invs s i)) + of_bool b"
  by (subst permits_move [where p = "after_error b r"]) simp_all

lemma job_name_sch: "sch t = sch s \<Longrightarrow> job_name i t = job_name i s"
  by (simp add: job_name_def)

lemma map_sum_Inr: "map_sum id f r = Inr x \<longleftrightarrow> (\<exists>y. r = Inr y \<and> x = f y)"
  by (cases r) auto

text \<open>A step either moves the invocation on and leaves the table alone, or ends it.\<close>

lemma run_next_cases:
  assumes "run_next ctxErr fn i s = Some (Inr s')"
  obtains (move) p where "invs s i \<noteq> Dormant" "invs s i \<noteq> Clearing" "p \<noteq> Dormant" "sch s' = sch s"
      "invs s' = (invs s)(i := p)" "sothers s' = sothers s" "sonError s' = sonError s"
  | (ended) "invs s i = Clearing" "s' = set_inv i Dormant (s\<lparr>sch := end_run i (Finished None) (sch s)\<rparr>)"
proof (cases "invs s i = Clearing")
  case True
  then show ?thesis using assms ended by (simp add: run_next_def)
next
  case False
  then have "invs s' i \<noteq> Dormant \<and> sch s' = sch s \<and> invs s' = (invs s)(i := invs s' i) \<and>
      sothers s' = sothers s \<and> sonError s' = sonError s"
    using assms
    by (cases "invs s i")
      (auto simp: run_next_def map_sum_Inr split: option.splits entry_check.splits if_splits)
  moreover have "invs s i \<noteq> Dormant" using assms by (auto simp: run_next_def)
  ultimately show ?thesis using False move by blast
qed

lemma table_ok_runs: "table_ok s \<Longrightarrow> invs s i \<noteq> Dormant \<longleftrightarrow> i \<in> set (inflight (sch s))"
  by (simp add: table_ok_def)

lemma table_ok_move: "table_ok s \<Longrightarrow> invs s i \<noteq> Dormant \<Longrightarrow> p \<noteq> Dormant \<Longrightarrow> sch s' = sch s \<Longrightarrow> invs s' = (invs s)(i := p) \<Longrightarrow> table_ok s'"
  by (auto simp: table_ok_def)

lemma end_inflight: "sched_ok s \<Longrightarrow> set (inflight (end_run i r s)) = set (inflight s) - {i}"
  by (simp add: end_run_def sched_ok_def)

lemma ended_steps:
  assumes "table_ok s" "invs s i = Clearing"
  shows "sched_step (sch s) (end_run i r (sch s))" "i \<in> set (inflight (sch s))" "sched_ok (end_run i r (sch s))"
proof -
  show i: "i \<in> set (inflight (sch s))" using table_ok_runs [OF assms(1), of i] assms(2) by simp
  then show "sched_step (sch s) (end_run i r (sch s))" by (rule finish)
  show "sched_ok (end_run i r (sch s))" using assms(1) i by (intro end_run_ok) (simp_all add: table_ok_def)
qed

lemma table_ok_invoke:
  assumes "table_ok s" "run_next ctxErr fn i s = Some (Inr s')"
  shows "table_ok s' \<and> (sch s' = sch s \<or> sched_step (sch s) (sch s'))"
  using assms(2)
proof (cases rule: run_next_cases)
  case (move p)
  then show ?thesis using table_ok_move [OF assms(1)] by blast
next
  case ended
  have "sched_ok (sch s)" using assms(1) by (simp add: table_ok_def)
  with assms(1) ended_steps [OF assms(1) ended(1)] show ?thesis
    unfolding ended(2) by (auto simp: table_ok_def end_inflight)
qed

lemma spawn_steps: "sched_step (sch s) (sch (RunDue_spawn now s))"
  unfolding RunDue_spawn_def by (simp add: run_due)

lemma table_ok_spawn:
  assumes "table_ok s"
  shows "table_ok (RunDue_spawn now s)"
proof -
  have ok: "sched_ok (sch s)" using assms by (simp add: table_ok_def)
  have "set (inflight (sch (RunDue_spawn now s))) = set (due_entries now (sch s)) \<union> set (inflight (sch s))"
    by (simp add: RunDue_spawn_def RunDue_launches [OF ok])
  then show ?thesis
    using assms scheduler.inv_step [OF ok spawn_steps] by (auto simp: table_ok_def RunDue_spawn_def)
qed

text \<open>The steps that only touch the table, keep what runs, and are steps of the table.\<close>

inductive table_step :: "scheduler \<Rightarrow> scheduler \<Rightarrow> bool" where
  table_step: "sched_step s t \<Longrightarrow> inflight t = inflight s \<Longrightarrow> table_step s t"

lemma run_step_cases:
  assumes "run_step s t"
  obtains (invoked) ctxErr fn i where "run_next ctxErr fn i s = Some (Inr t)"
  | (spawned) now where "t = RunDue_spawn now s"
  | (tabled) u where "t = s\<lparr>sch := u\<rparr>" "table_step (sch s) u"
  | (acquired) l l' where "slim s = Some l" "TryAcquire l = (l', True)" "t = s\<lparr>slim := Some l', sothers := sothers s + 1\<rparr>"
  | (released) l l' where "slim s = Some l" "0 < sothers s" "Release l = Inr l'" "t = s\<lparr>slim := Some l', sothers := sothers s - 1\<rparr>"
  using assms
proof (cases rule: run_step.cases)
  case invocation
  then show ?thesis using invoked by (auto elim: invocation_stepE)
next
  case (schedule now j)
  have "table_step (sch s) (fst (Schedule now j (sch s)))"
    by (rule table_step [OF sched_step.schedule]) (simp add: Schedule_def signalWake_def Let_def)
  with schedule show ?thesis using tabled by blast
next
  case (unschedule name)
  have "table_step (sch s) (fst (Unschedule name (sch s)))"
    by (rule table_step [OF sched_step.unschedule]) (simp add: Unschedule_def signalWake_def split: option.split)
  with unschedule show ?thesis using tabled by blast
next
  case enter
  have "table_step (sch s) (fst (Start_enter (sch s)))"
    by (rule table_step [OF sched_step.enter]) (simp add: Start_enter_def)
  with enter show ?thesis using tabled by blast
next
  case (awake w u again)
  have "table_step (sch s) u"
    by (rule table_step [OF sched_step.awake [OF awake(2)]])
      (use awake(2) in \<open>auto simp: Start_wait_def split: sleep_end.splits if_splits\<close>)
  with awake show ?thesis using tabled by blast
next
  case stop
  have "table_step (sch s) (Stop_begin (sch s))" by (rule table_step [OF sched_step.stop]) (simp add: Stop_begin_def)
  with stop show ?thesis using tabled by blast
qed (use spawned acquired released in blast)+

lemma table_ok_step:
  assumes "table_ok s" "run_step s t"
  shows "table_ok t \<and> (sch t = sch s \<or> sched_step (sch s) (sch t))"
  using assms(2)
proof (cases rule: run_step_cases)
  case invoked
  then show ?thesis using table_ok_invoke [OF assms(1)] by blast
next
  case spawned
  then show ?thesis using table_ok_spawn [OF assms(1)] spawn_steps by blast
next
  case (tabled u)
  then show ?thesis using assms(1) scheduler.inv_step by (auto simp: table_ok_def elim!: table_step.cases)
qed (use assms(1) in \<open>auto simp: table_ok_def\<close>)

section \<open>Permits and reports\<close>

text \<open>What an invocation that ends or starts adds to a sum over those that run.\<close>

lemma ended_sum:
  fixes h :: "nat \<Rightarrow> invocation \<Rightarrow> 'm::comm_monoid_add"
  assumes "table_ok s" "invs s i = Clearing" "h i Clearing = 0"
    and "s' = set_inv i Dormant (s\<lparr>sch := end_run i (Finished None) (sch s)\<rparr>)"
  shows "(\<Sum>j\<in>set (inflight (sch s')). h j (invs s' j)) = (\<Sum>j\<in>set (inflight (sch s)). h j (invs s j))"
proof -
  have "sched_ok (sch s)" using assms(1) by (simp add: table_ok_def)
  then have "set (inflight (sch s')) = set (inflight (sch s)) - {i}" by (simp add: assms(4) end_inflight)
  moreover have "(\<Sum>j\<in>set (inflight (sch s)) - {i}. h j (invs s' j)) = (\<Sum>j\<in>set (inflight (sch s)) - {i}. h j (invs s j))"
    by (rule sum.cong) (auto simp: assms(4))
  ultimately show ?thesis
    using sum.remove [OF finite_set ended_steps(2) [OF assms(1,2)], of "\<lambda>j. h j (invs s j)"] assms(2,3) by simp
qed

lemma spawned_sum:
  fixes h :: "nat \<Rightarrow> invocation \<Rightarrow> 'm::comm_monoid_add"
  assumes "table_ok s" "\<And>j. h j Starting = 0"
  shows "(\<Sum>j\<in>set (inflight (sch (RunDue_spawn now s))). h j (invs (RunDue_spawn now s) j)) =
    (\<Sum>j\<in>set (inflight (sch s)). h j (invs s j))"
proof -
  have ok: "sched_ok (sch s)" using assms(1) by (simp add: table_ok_def)
  let ?due = "set (due_entries now (sch s))" and ?old = "set (inflight (sch s))" and ?f = "invs (RunDue_spawn now s)"
  have disj: "?due \<inter> ?old = {}" using due_entries_ok [OF ok, of now] ok by (auto simp: sched_ok_def)
  have "(\<Sum>j\<in>?due. h j (?f j)) = 0" by (rule sum.neutral) (simp add: RunDue_spawn_def assms(2))
  moreover have "(\<Sum>j\<in>?old. h j (?f j)) = (\<Sum>j\<in>?old. h j (invs s j))"
    using disj by (intro sum.cong) (auto simp: RunDue_spawn_def)
  moreover have "set (inflight (sch (RunDue_spawn now s))) = ?due \<union> ?old"
    by (simp add: RunDue_spawn_def RunDue_launches [OF ok])
  ultimately show ?thesis using disj by (simp add: sum.union_disjoint)
qed

lemma limit_ok_invoke:
  assumes "table_ok s" "limit_ok s" "run_next ctxErr fn i s = Some (Inr s')"
  shows "limit_ok s'"
proof -
  have i: "i \<in> set (inflight (sch s))"
    using table_ok_runs [OF assms(1), of i] assms(3) by (auto simp: run_next_def)
  note sums = i permits_set_inv permits_conclude
  show ?thesis
  proof (cases "invs s i")
    case Clearing
    then have "permits_of s' = permits_of s"
      unfolding permits_of_def using assms(3) by (intro ended_sum [OF assms(1) Clearing]) (simp_all add: run_next_def)
    then show ?thesis using assms(2,3) Clearing by (auto simp: run_next_def limit_ok_def split: option.splits if_splits)
  next
    case (Acquiring w)
    then show ?thesis
      using assms(2,3)
      by (auto simp: run_next_def limit_ok_def sums fits_def grant_def split: option.splits if_splits)
  next
    case (Unwinding p)
    then show ?thesis
      using assms(2,3)
      by (auto simp: run_next_def limit_ok_def sums map_sum_Inr Release_def ReleaseN_def split: option.splits if_splits)
  qed (use assms(2,3) in \<open>auto simp: run_next_def limit_ok_def sums acquire_entry_def split: option.splits if_splits\<close>)
qed

lemma limit_ok_step:
  assumes "table_ok s" "limit_ok s" "run_step s t"
  shows "limit_ok t"
  using assms(3)
proof (cases rule: run_step_cases)
  case invoked
  then show ?thesis using limit_ok_invoke [OF assms(1,2)] by blast
next
  case (spawned now)
  have "permits_of t = permits_of s"
    unfolding permits_of_def spawned by (rule spawned_sum [OF assms(1)]) simp
  then show ?thesis using assms(2) by (auto simp: limit_ok_def spawned RunDue_spawn_def split: option.splits)
next
  case (tabled u)
  then show ?thesis using assms(2) by (auto simp: limit_ok_def permits_of_def elim!: table_step.cases split: option.splits)
qed (use assms(2) in \<open>auto simp: limit_ok_def permits_of_def TryAcquire_def TryAcquireN_def Release_def ReleaseN_def
    split: if_splits\<close>)

text \<open>The name of an invocation's job does not change, so that what is pending is kept by the table's steps.\<close>

lemma job_name_step:
  assumes "table_ok s" "sch t = sch s \<or> sched_step (sch s) (sch t)" "i \<in> set (inflight (sch s))"
  shows "job_name i t = job_name i s"
proof -
  have "sched_ok (sch s)" using assms(1) by (simp add: table_ok_def)
  moreover from this have "i < length (entries (sch s))" using assms(3) by (auto simp: sched_ok_def)
  ultimately show ?thesis using assms(2) sched_step_spec by (auto simp: job_name_def)
qed

lemma pending_kept:
  assumes "table_ok s" "sch t = sch s \<or> sched_step (sch s) (sch t)"
    and "(\<Sum>j\<in>set (inflight (sch t)). pending (job_name j t) (invs t j)) =
      (\<Sum>j\<in>set (inflight (sch s)). pending (job_name j t) (invs s j))"
  shows "pending_of t = pending_of s"
  unfolding pending_of_def assms(3) using job_name_step [OF assms(1,2)] by (intro sum.cong) auto

lemma reports_keep:
  "reports_ok log s \<Longrightarrow> pending_of t = pending_of s \<Longrightarrow> reported t = reported s \<Longrightarrow> outcomes t = outcomes s \<Longrightarrow>
    slog t = slog s \<Longrightarrow> sonError t = sonError s \<Longrightarrow> reports_ok log t"
  by (simp add: reports_ok_def split: option.splits)

lemma reports_ok_invoke:
  assumes "table_ok s" "reports_ok log s" "run_next ctxErr fn i s = Some (Inr s')"
  shows "reports_ok log s'"
proof -
  have i: "i \<in> set (inflight (sch s))"
    using table_ok_runs [OF assms(1), of i] assms(3) by (auto simp: run_next_def)
  note sums = pending_move [OF i, where t = s']
  show ?thesis
  proof (cases "invs s i = Clearing")
    case True
    have s': "s' = set_inv i Dormant (s\<lparr>sch := end_run i (Finished None) (sch s)\<rparr>)"
      using assms(3) True by (simp add: run_next_def)
    have "pending_of s' = pending_of s"
      using table_ok_invoke [OF assms(1,3)]
      by (intro pending_kept [OF assms(1)] ended_sum [OF assms(1) True _ s']) simp_all
    then show ?thesis using reports_keep [OF assms(2)] by (simp add: s')
  next
    case False
    then have log: "slog s' = (case sonError s' of None \<Rightarrow> log | Some f \<Rightarrow> fold (\<lambda>(n, e). f n e) (reported s') log)"
      using assms(2,3)
      by (cases "invs s i")
        (auto simp: run_next_def reports_ok_def report_def map_sum_Inr split: option.splits entry_check.splits if_splits)
    have acc: "mset (reported s) + pending_of s = mset (failed (outcomes s))" using assms(2) by (simp add: reports_ok_def)
    have "mset (reported s') + pending_of s' = mset (failed (outcomes s'))"
      using assms(3) False
    proof (cases "invs s i")
      case (Reporting p e)
      then have s': "s' = set_inv i (Unwinding p) (report (job_name i s) e s)" using assms(3) by (simp add: run_next_def)
      have "pending_of s' + {#(job_name i s, e)#} = pending_of s" using sums Reporting by (simp add: s')
      moreover have "mset (reported s') + pending_of s' = mset (reported s) + (pending_of s' + {#(job_name i s, e)#})"
        by (simp add: s')
      ultimately show ?thesis using acc by (simp add: s')
    qed (use sums acc in \<open>auto simp: run_next_def map_sum_Inr split: option.splits entry_check.splits if_splits\<close>)
    with log show ?thesis by (simp add: reports_ok_def)
  qed
qed

lemma reports_ok_step:
  assumes "table_ok s" "reports_ok log s" "run_step s t"
  shows "reports_ok log t"
  using assms(3)
proof (cases rule: run_step_cases)
  case invoked
  then show ?thesis using reports_ok_invoke [OF assms(1,2)] by blast
next
  case (spawned now)
  have "pending_of t = pending_of s"
    using table_ok_step [OF assms(1,3)] unfolding spawned
    by (intro pending_kept [OF assms(1)] spawned_sum [OF assms(1)]) simp_all
  then show ?thesis using reports_keep [OF assms(2)] by (simp add: spawned RunDue_spawn_def)
next
  case (tabled u)
  have "pending_of t = pending_of s"
    using table_ok_step [OF assms(1,3)] tabled by (intro pending_kept [OF assms(1)]) (auto elim!: table_step.cases)
  then show ?thesis using reports_keep [OF assms(2)] by (simp add: tabled)
qed (use reports_keep [OF assms(2)] in \<open>simp_all add: pending_of_def job_name_def\<close>)

section \<open>Coming to rest\<close>

fun inv_rank :: "invocation \<Rightarrow> nat" where
  "inv_rank Dormant = 0"
| "inv_rank Starting = 7"
| "inv_rank (Acquiring waited) = (if waited then 5 else 6)"
| "inv_rank Calling = 4"
| "inv_rank (Reporting p e) = 3"
| "inv_rank (Unwinding p) = 2"
| "inv_rank Clearing = 1"

definition run_rank :: "'l sched_run \<Rightarrow> nat" where
  "run_rank s = (\<Sum>i\<in>set (inflight (sch s)). inv_rank (invs s i))"

definition run_rest :: "'l sched_run \<Rightarrow> bool" where
  "run_rest s \<longleftrightarrow> inflight (sch s) = [] \<or> 0 < sothers s"

definition run_ok :: "'l \<Rightarrow> 'l sched_run \<Rightarrow> bool" where
  "run_ok log s \<longleftrightarrow> table_ok s \<and> limit_ok s \<and> reports_ok log s"

lemma run_start_ok: "run_start log s \<Longrightarrow> run_ok log s"
  using scheduler.inv_init
  by (auto simp: run_start_def run_ok_def table_ok_def limit_ok_def reports_ok_def permits_of_def pending_of_def
      failed_def map_filter_def NewScheduler_def split: option.splits)

lemma run_step_ok: "run_ok log s \<Longrightarrow> run_step s t \<Longrightarrow> run_ok log t"
  using table_ok_step limit_ok_step reports_ok_step by (auto simp: run_ok_def)

lemma inv_rank_conclude: "2 \<le> inv_rank (after_error b r)" "inv_rank (after_error b r) \<le> 3"
  by (simp_all add: after_error_def split: option.split)

lemma run_next_rank:
  assumes "run_next ctxErr fn i s = Some (Inr s')" "invs s i \<noteq> Clearing"
  shows "inv_rank (invs s' i) < inv_rank (invs s i)"
  using assms inv_rank_conclude(2) [THEN order_le_less_trans]
  by (cases "invs s i") (auto simp: run_next_def map_sum_Inr split: option.splits entry_check.splits if_splits)

lemma invocation_rank:
  assumes "table_ok s" "invocation_step s s'"
  shows "run_rank s' < run_rank s"
  using assms(2)
proof (rule invocation_stepE)
  fix ctxErr fn i
  assume one: "run_next ctxErr fn i s = Some (Inr s')"
  have i: "i \<in> set (inflight (sch s))"
    using table_ok_runs [OF assms(1), of i] one by (auto simp: run_next_def)
  show ?thesis
    using one
  proof (cases rule: run_next_cases)
    case (move p)
    then show ?thesis
      using sum_fun_move [OF finite_set i, of "\<lambda>_. inv_rank" "invs s" p] run_next_rank [OF one] by (simp add: run_rank_def)
  next
    case ended
    have "sched_ok (sch s)" using assms(1) by (simp add: table_ok_def)
    then have "set (inflight (sch s')) = set (inflight (sch s)) - {i}" by (simp add: ended(2) end_inflight)
    moreover have "(\<Sum>j\<in>set (inflight (sch s)) - {i}. inv_rank (invs s' j)) = (\<Sum>j\<in>set (inflight (sch s)) - {i}. inv_rank (invs s j))"
      by (rule sum.cong) (auto simp: ended(2))
    ultimately show ?thesis
      using sum.remove [OF finite_set i, of "\<lambda>j. inv_rank (invs s j)"] ended(1) by (simp add: run_rank_def)
  qed
qed

lemma permit_counts:
  assumes "i \<in> set (inflight (sch s))" "has_permit (invs s i)"
  shows "1 \<le> permits_of s"
  using sum.remove [OF finite_set assms(1), of "\<lambda>j. of_bool (has_permit (invs s j)) :: int"] assms(2)
    sum_nonneg [of "set (inflight (sch s)) - {i}" "\<lambda>j. of_bool (has_permit (invs s j)) :: int"]
  unfolding permits_of_def by simp

text \<open>Giving a permit back never panics: it is one of those in flight.\<close>

lemma run_next_never_panics:
  assumes "table_ok s" "limit_ok s"
  shows "run_next ctxErr fn i s \<noteq> Some (Inl p)"
proof (cases "invs s i = Unwinding True")
  case True
  have "i \<in> set (inflight (sch s))" using table_ok_runs [OF assms(1), of i] True by simp
  then have "1 \<le> permits_of s" using permit_counts [of i s] True by simp
  then show ?thesis
    using True assms(2) by (auto simp: run_next_def limit_ok_def Release_def ReleaseN_def split: option.splits)
next
  case False
  then show ?thesis
    by (cases "invs s i") (auto simp: run_next_def split: option.splits entry_check.splits)
qed

lemma run_progress:
  assumes "table_ok s" "limit_ok s" "\<not> run_rest s"
  shows "\<exists>t. invocation_step s t"
proof -
  have step: "\<exists>t. invocation_step s t" if "run_next ctxErr fn i s \<noteq> None" for ctxErr fn i
    using that run_next_never_panics [OF assms(1,2), of ctxErr fn i] invoke [of ctxErr fn i s]
    by (cases "run_next ctxErr fn i s"; cases "the (run_next ctxErr fn i s)") auto
  have "inflight (sch s) \<noteq> []" using assms(3) by (simp add: run_rest_def)
  then obtain i where i: "i \<in> set (inflight (sch s))" using list.set_sel(1) by blast
  show ?thesis
  proof (cases "\<exists>j\<in>set (inflight (sch s)). \<forall>w. invs s j \<noteq> Acquiring w")
    case True
    then obtain j where j: "j \<in> set (inflight (sch s))" "\<forall>w. invs s j \<noteq> Acquiring w" by blast
    then have "invs s j \<noteq> Dormant" using table_ok_runs [OF assms(1)] by blast
    with j(2) have "run_next None fn j s \<noteq> None" for fn
      by (cases "invs s j") (auto simp: run_next_def split: option.splits entry_check.splits)
    then show ?thesis by (rule step)
  next
    case False
    then obtain w where w: "invs s i = Acquiring w" using i by blast
    then obtain l where l: "slim s = Some l" using assms(2) by (auto simp: limit_ok_def split: option.splits)
    have "has_permit (invs s j) = False" if "j \<in> set (inflight (sch s))" for j using False that by force
    then have "permits_of s = 0" by (simp add: permits_of_def)
    then have "fits l 1" using l assms(2,3) by (simp add: limit_ok_def run_rest_def fits_def)
    then have "run_next None fn i s \<noteq> None" for fn using w l by (simp add: run_next_def)
    then show ?thesis by (rule step)
  qed
qed

interpretation runner: draining_machine "run_start log" run_step "run_ok log" invocation_step run_rest run_rank for log
proof unfold_locales
  show "run_rank t < run_rank s" if "run_ok log s" "invocation_step s t" for s t
    using that unfolding run_ok_def by (blast intro: invocation_rank)
  show "\<exists>t. invocation_step s t" if "run_ok log s" "\<not> run_rest s" for s
    using that unfolding run_ok_def by (blast intro: run_progress)
qed (blast intro: run_start_ok run_step_ok run_step.invocation)+

section \<open>Properties\<close>

text \<open>Refinement. However invocations, calls, the limiter and contexts interleave, the job table sees a run of
  its own: what the composed scheduler reaches projects to a reachable state of the table, whose
  running entries are exactly the invocations under way.\<close>

theorem scheduler_run_refines:
  assumes "reach (run_start log) run_step s"
  shows "reach (\<lambda>t. t = NewScheduler) sched_step (sch s) \<and>
    {i. invs s i \<noteq> Dormant} = {i. i < length (entries (sch s)) \<and> busy (entries (sch s) ! i)}"
proof
  show "reach (\<lambda>t. t = NewScheduler) sched_step (sch s)"
    using assms
  proof (induction rule: reach.induct)
    case (reach_step s t)
    have "table_ok s" using runner.inv_reach [OF reach_step.hyps(1)] by (simp add: run_ok_def)
    from table_ok_step [OF this reach_step.hyps(2)] reach_step.IH show ?case by (auto intro: reach.reach_step)
  qed (auto simp: run_start_def)
  have "table_ok s" using runner.inv_reach [OF assms] by (simp add: run_ok_def)
  then show "{i. invs s i \<noteq> Dormant} = {i. i < length (entries (sch s)) \<and> busy (entries (sch s) ! i)}"
    by (auto simp: table_ok_def sched_ok_def)
qed

text \<open>A scheduler with one permit and a captured log, whose only job fails.\<close>

definition one_limit :: "string capture sched_run" where
  "one_limit = New_scheduler (NewCapture 0) [WithConcurrencyLimit (Some one_permit), WithLogger (Some capture_call)]"

definition invoke_with :: "fn_end \<Rightarrow> 'l sched_run \<Rightarrow> 'l sched_run" where
  "invoke_with fn s = (case run_next None fn 0 s of Some (Inr t) \<Rightarrow> t)"

definition at_work :: "string capture sched_run" where
  "at_work = invoke_with (Returns None) (invoke_with (Returns None)
    (RunDue_spawn 15 (one_limit\<lparr>sch := fst (Schedule 5 tick (sch one_limit))\<rparr>)))"

definition after_failure :: "string capture sched_run" where
  "after_failure = invoke_with (Returns None) (invoke_with (Returns None) (invoke_with (Returns None)
    (invoke_with (Returns (Some ''boom'')) at_work)))"

lemma at_work_eq: "sch at_work = fst (RunDue 15 (fst (Schedule 5 tick NewScheduler)))"
  "invs at_work = (\<lambda>_. Dormant)(0 := Calling)" "slim at_work = Some (one_permit\<lparr>inFlight := 1, totalAcquired := 1\<rparr>)"
  "sonError at_work = sonError one_limit" "slog at_work = NewCapture 0" "sothers at_work = 0"
  "reported at_work = []" "outcomes at_work = []"
  by (auto simp: at_work_def invoke_with_def one_limit_def New_scheduler_def WithConcurrencyLimit_def WithLogger_def
      RunDue_spawn_def due_entries_def is_due_def run_next_def acquire_entry_def one_permit_def fits_def grant_def
      Schedule_tick NewScheduler_def time_IsZero_def)

lemma invoke_with_step: "run_next None fn 0 s = Some (Inr t) \<Longrightarrow> invoke_with fn s = t \<and> run_step s t"
  by (auto simp: invoke_with_def intro: run_step.invocation invoke)

lemma at_work_reach: "reach (run_start (NewCapture 0)) run_step at_work"
proof -
  let ?r = "RunDue_spawn 15 (one_limit\<lparr>sch := fst (Schedule 5 tick (sch one_limit))\<rparr>)"
  let ?q = "one_limit\<lparr>sch := fst (Schedule 5 tick (sch one_limit))\<rparr>"
  have "reach (run_start (NewCapture 0)) run_step one_limit"
    unfolding one_limit_def by (rule reach_start, rule New_scheduler_start(2) [of 1]) (simp add: NewSemaphore_def one_permit_def)
  then have "reach (run_start (NewCapture 0)) run_step ?q" by (rule reach_step) (rule run_step.schedule)
  then have r: "reach (run_start (NewCapture 0)) run_step ?r" by (rule reach_step) (rule run_step.spawn)
  have l: "slim ?r = Some one_permit" "invs ?r 0 = Starting"
    by (simp_all add: RunDue_spawn_def one_limit_def New_scheduler_def WithConcurrencyLimit_def WithLogger_def
        due_entries_def is_due_def Schedule_tick NewScheduler_def time_IsZero_def)
  have a: "run_next None fn 0 ?r = Some (Inr (set_inv 0 (Acquiring False) ?r))" for fn
    using l by (simp add: run_next_def acquire_entry_def one_permit_def)
  have b: "run_next None fn 0 (set_inv 0 (Acquiring False) ?r) =
      Some (Inr (set_inv 0 Calling ((set_inv 0 (Acquiring False) ?r)\<lparr>slim := Some (grant 1 False one_permit)\<rparr>)))" for fn
    using l by (simp add: run_next_def fits_def one_permit_def)
  note a = invoke_with_step [OF a] and b = invoke_with_step [OF b]
  show ?thesis
    unfolding at_work_def a [THEN conjunct1] b [THEN conjunct1]
    by (rule reach_step [OF reach_step [OF r a [THEN conjunct2]] b [THEN conjunct2]])
qed

theorem scheduler_run_refines_witness:
  "invs at_work 0 = Calling \<and> busy (entries (sch at_work) ! 0)"
proof -
  have "invs at_work 0 = Calling" by (simp add: at_work_eq(2))
  moreover from this have "0 \<in> {i. invs at_work i \<noteq> Dormant}" by simp
  ultimately show ?thesis unfolding scheduler_run_refines [OF at_work_reach, THEN conjunct2] by simp
qed

text \<open>The concurrency limit. With a limiter, no more functions run at a time than it has permits, whoever else
  uses it: the permits in flight are those of others and one for each invocation that runs its function
  or has not given its permit back. Giving one back never panics, and the capacity never changes.\<close>

theorem scheduler_bounded:
  assumes "reach (run_start log) run_step s" "slim s = Some l"
  shows "int (card {i. invs s i = Calling}) \<le> capacity l \<and> inFlight l = sothers s + permits_of s \<and>
    (\<forall>ctxErr fn i p. run_next ctxErr fn i s \<noteq> Some (Inl p)) \<and>
    (\<forall>t. run_step s t \<longrightarrow> map_option capacity (slim t) = Some (capacity l))"
proof (intro conjI allI impI)
  have ok: "table_ok s" "limit_ok s" using runner.inv_reach [OF assms(1)] by (simp_all add: run_ok_def)
  show l: "inFlight l = sothers s + permits_of s" using ok(2) assms(2) by (simp add: limit_ok_def)
  show "run_next ctxErr fn i s \<noteq> Some (Inl p)" for ctxErr fn i p using run_next_never_panics [OF ok] .
  have "{i. invs s i = Calling} \<subseteq> set (inflight (sch s)) \<inter> {i. has_permit (invs s i)}"
    using table_ok_runs [OF ok(1)] by force
  then have "int (card {i. invs s i = Calling}) \<le> permits_of s"
    using card_mono [of "set (inflight (sch s)) \<inter> {i. has_permit (invs s i)}"] by (simp add: permits_of_def)
  then show "int (card {i. invs s i = Calling}) \<le> capacity l" using l ok(2) assms(2) by (simp add: limit_ok_def)
  show "map_option capacity (slim t) = Some (capacity l)" if "run_step s t" for t
    using that
  proof (cases rule: run_step_cases)
    case (invoked ctxErr fn i)
    then show ?thesis
      using assms(2)
      by (cases "invs s i") (auto simp: run_next_def grant_def map_sum_Inr Release_def ReleaseN_def acquire_entry_def
          split: option.splits if_splits)
  qed (use assms(2) in \<open>auto simp: RunDue_spawn_def TryAcquire_def TryAcquireN_def Release_def ReleaseN_def split: if_splits\<close>)
qed

theorem scheduler_bounded_witness: "int (card {i. invs at_work i = Calling}) \<le> 1 \<and> permits_of at_work = 1"
  using scheduler_bounded [OF at_work_reach at_work_eq(3)] by (simp add: at_work_eq(6) one_permit_def)

text \<open>What the callback of \<^verbatim>\<open>WithLogger\<close> leaves in a capture.\<close>

definition logs_to_capture :: "string capture sched_run \<Rightarrow> bool" where
  "logs_to_capture s \<longleftrightarrow> sonError s = sonError (New_scheduler (slog s) [WithLogger (Some capture_call)])"

definition failure_record :: "string \<times> string \<Rightarrow> string log_record" where
  "failure_record = (\<lambda>(name, err). \<lparr>lLevel = LevelError, lMsg = ''scheduled job failed'',
     lAttrs = [(''job'', LStr name), (''err'', LOther err)]\<rparr>)"

lemma logs_to_capture_iff:
  "logs_to_capture s \<longleftrightarrow> sonError s = Some (\<lambda>name err. capture_call Error ''scheduled job failed''
     [LStr ''job'', LStr name, LStr ''err'', LOther err])"
  by (simp add: logs_to_capture_def New_scheduler_def WithLogger_def)

lemma capture_failures:
  assumes "level \<le> LevelError"
  shows "Records (fold (\<lambda>(n, e). capture_call Error ''scheduled job failed'' [LStr ''job'', LStr n, LStr ''err'', LOther e]) rs
      \<lparr>clevel = level, cwith = [], crecords = cs\<rparr>) = cs @ map failure_record rs"
  using assms
  by (induction rs arbitrary: cs) (auto simp: Records_def Capture_Error_def Capture_record_def failure_record_def)


lemma after_failure_eq:
  "inflight (sch after_failure) = []" "outcomes after_failure = [(''tick'', Finished (Some ''boom''))]"
  "sonError after_failure = sonError one_limit"
  and after_failure_reach: "reach (run_start (NewCapture 0)) run_step after_failure"
proof -
  have run: "inflight (sch at_work) = [0]" "job_name 0 at_work = ''tick''"
    by (simp_all add: at_work_eq(1) RunDue_def due_entries_def is_due_def advanceNext_def job_name_def Schedule_tick
        NewScheduler_def time_IsZero_def tick_simps)
  define a where "a = conclude 0 True (Finished (Some ''boom'')) at_work"
  define b where "b = set_inv 0 (Unwinding True) (report (job_name 0 a) ''boom'' a)"
  define c where "c = set_inv 0 Clearing (b\<lparr>slim := Some (one_permit\<lparr>totalAcquired := 1\<rparr>)\<rparr>)"
  define d where "d = set_inv 0 Dormant (c\<lparr>sch := end_run 0 (Finished None) (sch c)\<rparr>)"
  have "run_next None (Returns (Some ''boom'')) 0 at_work = Some (Inr a)"
    by (simp add: a_def run_next_def at_work_eq)
  note a = invoke_with_step [OF this]
  have inv: "invs a 0 = Reporting True ''boom''" by (simp add: a_def after_error_def run_error_def)
  then have "run_next None (Returns None) 0 a = Some (Inr b)" by (simp add: b_def run_next_def)
  note b = invoke_with_step [OF this]
  have "invs b 0 = Unwinding True" "slim b = slim at_work" by (simp_all add: b_def a_def)
  then have "run_next None (Returns None) 0 b = Some (Inr c)"
    by (simp add: c_def run_next_def at_work_eq(3) Release_def ReleaseN_def one_permit_def)
  note c = invoke_with_step [OF this]
  have "invs c 0 = Clearing" by (simp add: c_def)
  then have "run_next None (Returns None) 0 c = Some (Inr d)" by (simp add: d_def run_next_def)
  note d = invoke_with_step [OF this]
  have eq: "after_failure = d" unfolding after_failure_def using a b c d by simp
  have "sch c = sch at_work" "outcomes d = outcomes a" "sonError d = sonError at_work"
    by (simp_all add: a_def b_def c_def d_def)
  then show "inflight (sch after_failure) = []" "outcomes after_failure = [(''tick'', Finished (Some ''boom''))]"
    "sonError after_failure = sonError one_limit"
    unfolding eq using run(1) by (simp_all add: d_def a_def end_run_def run(2) at_work_eq(4,8))
  have "reach (run_start (NewCapture 0)) run_step a" using at_work_reach a by (blast intro: reach_step)
  then have "reach (run_start (NewCapture 0)) run_step b" using b by (blast intro: reach_step)
  then have "reach (run_start (NewCapture 0)) run_step c" using c by (blast intro: reach_step)
  then show "reach (run_start (NewCapture 0)) run_step after_failure" unfolding eq using d by (blast intro: reach_step)
qed




end
