(* ===== verification/Go_Paths.thy ===== *)
theory Go_Paths
  imports Go_Files
begin

text \<open>
  Clean paths (\<^verbatim>\<open>path/filepath\<close>): their parts, that cleaning is idempotent, and the parent of a
  clean path. Used by the in-memory file system.
\<close>

definition upto_slash :: "string \<Rightarrow> string" where
  "upto_slash p = rev (dropWhile (\<lambda>c. c \<noteq> CHR ''/'') (rev p))"

definition path_Dir :: "string \<Rightarrow> string" where
  "path_Dir p = path_Clean (upto_slash p)"

section \<open>Parts\<close>

text \<open>The parts of a clean path, last part first: \<^verbatim>\<open>..\<close> stands only in front of the others, and
  only when the path is relative.\<close>

definition is_part :: "string \<Rightarrow> bool" where
  "is_part q \<longleftrightarrow> q \<noteq> '''' \<and> q \<noteq> ''.'' \<and> CHR ''/'' \<notin> set q"

fun normal :: "bool \<Rightarrow> string list \<Rightarrow> bool" where
  "normal up [] = True"
| "normal up (q # qs) = (is_part q \<and> normal up qs \<and> (q = ''..'' \<longrightarrow> up \<and> (\<forall>x\<in>set qs. x = ''..'')))"

definition render :: "bool \<Rightarrow> string list \<Rightarrow> string" where
  "render rooted qs =
    (let body = strings_Join qs ''/'' in
     if rooted then CHR ''/'' # body else if body = '''' then ''.'' else body)"

lemma normal_append: "normal up (qs @ rs) \<Longrightarrow> normal up rs"
  by (induction qs) auto

lemma normal_parts: "normal up qs \<Longrightarrow> q \<in> set qs \<Longrightarrow> is_part q"
  by (induction qs) auto

lemma clean_parts_normal:
  "normal (\<not> rooted) acc \<Longrightarrow> \<forall>p\<in>set ps. CHR ''/'' \<notin> set p \<Longrightarrow>
    normal (\<not> rooted) (rev (clean_parts rooted acc ps))"
proof (induction rooted acc ps rule: clean_parts.induct)
  case (2 rooted acc p ps)
  have tl: "normal (\<not> rooted) (tl acc)"
    using "2.prems"(1) by (cases acc) auto
  have noslash_p: "CHR ''/'' \<notin> set p" using "2.prems"(2) by simp
  have push_dots: "normal (\<not> rooted) (''..'' # acc)"
    if "\<not> rooted" "acc = [] \<or> hd acc = ''..''"
    using that "2.prems"(1) by (cases acc) (auto simp: is_part_def)
  have push: "normal (\<not> rooted) (p # acc)" if "p \<noteq> ''''" "p \<noteq> ''.''" "p \<noteq> ''..''"
    using that "2.prems"(1) noslash_p by (simp add: is_part_def)
  have noslash: "\<forall>p\<in>set ps. CHR ''/'' \<notin> set p" using "2.prems"(2) by simp
  consider "p = '''' \<or> p = ''.''"
    | "p \<noteq> ''''" "p \<noteq> ''.''" "p = ''..''" "acc \<noteq> [] \<and> hd acc \<noteq> ''..''"
    | "p \<noteq> ''''" "p \<noteq> ''.''" "p = ''..''" "\<not> (acc \<noteq> [] \<and> hd acc \<noteq> ''..'')" "rooted"
    | "p \<noteq> ''''" "p \<noteq> ''.''" "p = ''..''" "\<not> (acc \<noteq> [] \<and> hd acc \<noteq> ''..'')" "\<not> rooted"
    | "p \<noteq> ''''" "p \<noteq> ''.''" "p \<noteq> ''..''"
    by blast
  then show ?case
  proof cases
    case 1
    then show ?thesis using "2.IH"(1) "2.prems"(1) noslash by auto
  next
    case 2
    then show ?thesis using "2.IH"(2) tl noslash by simp
  next
    case 3
    then show ?thesis using "2.IH"(3) "2.prems"(1) noslash by auto
  next
    case 4
    then show ?thesis using "2.IH"(4) push_dots noslash by auto
  next
    case 5
    then show ?thesis using "2.IH"(5) push noslash by simp
  qed
qed simp

lemma clean_parts_id:
  "normal (\<not> rooted) (rev ps @ acc) \<Longrightarrow> clean_parts rooted acc ps = rev acc @ ps"
proof (induction ps arbitrary: acc)
  case (Cons p ps)
  have n: "normal (\<not> rooted) (p # acc)"
    using Cons.prems normal_append [of "\<not> rooted" "rev ps" "p # acc"] by simp
  then have "p = ''..'' \<Longrightarrow> \<not> (acc \<noteq> [] \<and> hd acc \<noteq> ''..'')"
    by (cases acc) auto
  with n Cons show ?case by (auto simp: is_part_def)
qed simp

lemma clean_parts_length: "length (clean_parts rooted acc ps) \<le> length acc + length ps"
  by (induction rooted acc ps rule: clean_parts.induct) (auto simp: le_diff_conv)

lemma split_parts: "q \<in> set (strings_Split s c) \<Longrightarrow> c \<notin> set q"
proof (induction s arbitrary: q)
  case (Cons x s)
  then show ?case by (cases "strings_Split s c") (auto split: if_splits)
qed simp

lemma split_join:
  "qs \<noteq> [] \<Longrightarrow> \<forall>q\<in>set qs. CHR ''/'' \<notin> set q \<Longrightarrow> strings_Split (strings_Join qs ''/'') (CHR ''/'') = qs"
  by (induction qs) (auto simp: strings_Join_Cons strings_Split_no_sep strings_Split_append)

lemma split_end: "strings_Split (s @ [c]) c = strings_Split s c @ [[]]"
proof (induction s)
  case (Cons x s)
  then show ?case by (cases "strings_Split s c") auto
qed simp

lemma length_split: "length (strings_Split s c) = Suc (count_list s c)"
proof (induction s)
  case (Cons x s)
  then show ?case by (cases "strings_Split s c") auto
qed simp

section \<open>Cleaning\<close>

lemma path_Clean_render:
  "p \<noteq> '''' \<Longrightarrow> path_Clean p =
    render (hd p = CHR ''/'') (clean_parts (hd p = CHR ''/'') [] (strings_Split p (CHR ''/'')))"
  by (simp add: path_Clean_def render_def Let_def)

lemma path_Clean_normal: "\<exists>r qs. path_Clean p = render r qs \<and> normal (\<not> r) (rev qs)"
proof (cases "p = ''''")
  case True
  have "path_Clean p = render False []" "normal (\<not> False) (rev [])"
    by (simp_all add: True path_Clean_def render_def)
  then show ?thesis by blast
next
  case False
  then show ?thesis
    using path_Clean_render [OF False] clean_parts_normal [of "hd p = CHR ''/''" "[]"]
    by (metis normal.simps(1) split_parts)
qed

lemma join_eq_Nil: "\<forall>q\<in>set qs. q \<noteq> '''' \<Longrightarrow> strings_Join qs ''/'' = '''' \<longleftrightarrow> qs = []"
  by (cases qs) (auto simp: strings_Join_Cons)

lemma hd_join: "qs \<noteq> [] \<Longrightarrow> hd qs \<noteq> '''' \<Longrightarrow> hd (strings_Join qs ''/'') = hd (hd qs)"
  by (cases qs) (auto simp: strings_Join_Cons)

lemma path_Clean_of_render:
  assumes "normal (\<not> r) (rev qs)"
  shows "path_Clean (render r qs) = render r qs"
proof -
  have parts: "\<forall>q\<in>set qs. is_part q"
    using assms normal_parts by fastforce
  then have no: "\<forall>q\<in>set qs. CHR ''/'' \<notin> set q" "\<forall>q\<in>set qs. q \<noteq> ''''"
    by (auto simp: is_part_def)
  have c: "clean_parts r [] qs = qs"
    using clean_parts_id [of r qs "[]"] assms by simp
  show ?thesis
  proof (cases "qs = []")
    case True
    then show ?thesis by (cases r) (simp_all add: render_def path_Clean_def)
  next
    case False
    note s = split_join [OF False no(1)]
    have ne: "strings_Join qs ''/'' \<noteq> ''''" using join_eq_Nil [OF no(2)] False by simp
    have h: "hd (strings_Join qs ''/'') \<noteq> CHR ''/''"
      using hd_join [OF False] no False by (cases qs) (auto dest: hd_in_set)
    show ?thesis
      using ne h s c by (cases r) (simp_all add: path_Clean_def render_def Let_def)
  qed
qed

lemma path_Clean_idem [simp]: "path_Clean (path_Clean p) = path_Clean p"
  using path_Clean_normal [of p] path_Clean_of_render by metis

lemma path_Clean_Dir [simp]: "path_Clean (path_Dir p) = path_Dir p"
  by (simp add: path_Dir_def)

section \<open>Parents\<close>

lemma upto_slash_last: "CHR ''/'' \<notin> set x \<Longrightarrow> upto_slash (s @ CHR ''/'' # x) = s @ ''/''"
proof -
  assume "CHR ''/'' \<notin> set x"
  then have "dropWhile (\<lambda>c. c \<noteq> CHR ''/'') (rev x @ CHR ''/'' # rev s) = CHR ''/'' # rev s"
    by (subst dropWhile_append2) auto
  then show ?thesis by (simp add: upto_slash_def)
qed

lemma upto_slash_none: "CHR ''/'' \<notin> set x \<Longrightarrow> upto_slash x = ''''"
  by (auto simp: upto_slash_def dropWhile_eq_Nil_conv)

lemma upto_slash_cases: "upto_slash s = '''' \<or> (\<exists>t x. s = t @ CHR ''/'' # x \<and> CHR ''/'' \<notin> set x \<and> upto_slash s = t @ ''/'')"
proof (cases "CHR ''/'' \<in> set s")
  case True
  then obtain t x where "s = t @ CHR ''/'' # x" "CHR ''/'' \<notin> set x"
    by (meson split_list_last)
  then show ?thesis using upto_slash_last by blast
qed (simp add: upto_slash_none)

lemma join_snoc: "qs \<noteq> [] \<Longrightarrow> strings_Join (qs @ [x]) sep = strings_Join qs sep @ sep @ x"
  by (induction qs) (auto simp: strings_Join_Cons)

lemma clean_parts_end: "clean_parts r acc (ps @ ['''']) = clean_parts r acc ps"
  by (induction r acc ps rule: clean_parts.induct) auto

lemma path_Clean_slash: "p \<noteq> '''' \<Longrightarrow> path_Clean (p @ ''/'') = path_Clean p"
  by (simp add: path_Clean_render split_end clean_parts_end)

lemma path_Dir_render:
  assumes "normal (\<not> r) (rev (qs @ [x]))"
  shows "path_Dir (render r (qs @ [x])) = render r qs"
proof -
  have n: "normal (\<not> r) (rev qs)" and x: "CHR ''/'' \<notin> set x" "x \<noteq> ''''"
    using assms by (auto simp: is_part_def)
  have parts: "\<forall>q\<in>set qs. q \<noteq> ''''"
    using n normal_parts by (fastforce simp: is_part_def)
  show ?thesis
  proof (cases "qs = []")
    case True
    then show ?thesis
      using x upto_slash_last [of x "''''"]
      by (cases r) (simp_all add: path_Dir_def render_def upto_slash_none path_Clean_def)
  next
    case False
    have ne: "strings_Join qs ''/'' \<noteq> ''''" using join_eq_Nil [OF parts] False by simp
    have "render r (qs @ [x]) = render r qs @ CHR ''/'' # x"
      using False ne by (simp add: render_def join_snoc Let_def)
    moreover have "render r qs \<noteq> ''''" using ne by (simp add: render_def Let_def)
    ultimately show ?thesis
      using x n by (simp add: path_Dir_def upto_slash_last path_Clean_slash path_Clean_of_render)
  qed
qed

definition is_root :: "string \<Rightarrow> bool" where
  "is_root p \<longleftrightarrow> p = ''.'' \<or> p = ''/''"

text \<open>A clean path that is not a root is its parent, a separator and a last part; under a root the
  separator or the dot is the parent itself.\<close>

lemma path_clean_cases:
  assumes "path_Clean p = p"
  obtains (root) "is_root p" "path_Dir p = p"
  | (top) x where "p = x" "path_Dir p = ''.''" "is_part x"
  | (rooted) x where "p = CHR ''/'' # x" "path_Dir p = ''/''" "is_part x"
  | (deep) x where "p = path_Dir p @ CHR ''/'' # x" "\<not> is_root (path_Dir p)" "is_part x"
proof -
  obtain r qs where p: "p = render r qs" "normal (\<not> r) (rev qs)"
    using path_Clean_normal [of p] assms by metis
  show ?thesis
  proof (cases qs rule: rev_cases)
    case Nil
    then have "is_root p" "path_Dir p = p"
      using p(1) upto_slash_last [of "''''" "''''"]
      by (auto simp: render_def is_root_def path_Dir_def upto_slash_none path_Clean_def)
    then show ?thesis by (rule root)
  next
    case (snoc qs' x)
    have n: "normal (\<not> r) (rev qs')" and x: "is_part x" using p(2) snoc by auto
    have d: "path_Dir p = render r qs'" using path_Dir_render p snoc by blast
    have parts: "\<forall>q\<in>set qs'. is_part q" using n normal_parts by fastforce
    show ?thesis
    proof (cases "qs' = []")
      case True
      then show ?thesis
        using p(1) snoc d x top [of x] rooted [of x]
        by (cases r) (auto simp: render_def is_part_def)
    next
      case False
      have ne: "strings_Join qs' ''/'' \<noteq> ''''" using join_eq_Nil parts False by (auto simp: is_part_def)
      have "p = path_Dir p @ CHR ''/'' # x"
        using p(1) snoc d False ne by (simp add: render_def join_snoc Let_def)
      moreover have "\<not> is_root (render r qs')"
      proof -
        obtain q qs where q: "qs' = q # qs" using False by (cases qs') auto
        then have "is_part q" using parts by simp
        then show ?thesis
          using q by (cases r; cases q) (auto simp: render_def is_root_def strings_Join_Cons is_part_def)
      qed
      ultimately show ?thesis using deep x d by metis
    qed
  qed
qed

text \<open>Taking parents ends: each step loses a separator until it is at a root.\<close>

lemma count_join:
  "qs \<noteq> [] \<Longrightarrow> \<forall>q\<in>set qs. CHR ''/'' \<notin> set q \<Longrightarrow>
    Suc (count_list (strings_Join qs ''/'') (CHR ''/'')) = length qs"
  by (induction qs) (auto simp: strings_Join_Cons count_list_0_iff)

lemma count_Clean:
  assumes "t \<noteq> ''''"
  shows "is_root (path_Clean t) \<or> count_list (path_Clean t) (CHR ''/'') \<le> count_list t (CHR ''/'')"
proof -
  let ?r = "hd t = CHR ''/''"
  define qs where "qs = clean_parts ?r [] (strings_Split t (CHR ''/''))"
  have c: "path_Clean t = render ?r qs" using path_Clean_render [OF assms] qs_def by simp
  have n: "normal (\<not> ?r) (rev qs)"
    unfolding qs_def by (rule clean_parts_normal) (auto dest: split_parts)
  then have no: "\<forall>q\<in>set qs. CHR ''/'' \<notin> set q" using normal_parts by (fastforce simp: is_part_def)
  have len: "length qs \<le> count_list t (CHR ''/'') + (if ?r then 0 else 1)"
  proof (cases ?r)
    case True
    then obtain t' where t: "t = CHR ''/'' # t'" using assms by (cases t) auto
    then have "qs = clean_parts True [] (strings_Split t' (CHR ''/''))" by (simp add: qs_def)
    then show ?thesis
      using clean_parts_length [of True "[]" "strings_Split t' (CHR ''/'')"] t
      by (simp add: length_split)
  next
    case False
    then show ?thesis
      using clean_parts_length [of ?r "[]" "strings_Split t (CHR ''/'')"]
      by (simp add: length_split qs_def)
  qed
  show ?thesis
  proof (cases "qs = []")
    case True
    then show ?thesis by (simp add: c render_def is_root_def)
  next
    case False
    then show ?thesis
      using count_join [OF False no] len
      by (cases ?r) (auto simp: c render_def is_root_def Let_def)
  qed
qed

lemma path_Dir_shrinks:
  "is_root (path_Dir s) \<or> count_list (path_Dir s) (CHR ''/'') < count_list s (CHR ''/'')"
  using upto_slash_cases [of s]
proof
  assume "upto_slash s = ''''"
  then show ?thesis by (simp add: path_Dir_def path_Clean_def is_root_def)
next
  assume "\<exists>t x. s = t @ CHR ''/'' # x \<and> CHR ''/'' \<notin> set x \<and> upto_slash s = t @ ''/''"
  then obtain t x where s: "s = t @ CHR ''/'' # x" "upto_slash s = t @ ''/''" by blast
  show ?thesis
  proof (cases "t = ''''")
    case True
    then show ?thesis using s by (simp add: path_Dir_def path_Clean_def is_root_def)
  next
    case False
    have "path_Dir s = path_Clean t" using s(2) path_Clean_slash [OF False] by (simp add: path_Dir_def)
    moreover have "count_list t (CHR ''/'') < count_list s (CHR ''/'')" using s(1) by simp
    ultimately show ?thesis using count_Clean [OF False] by auto
  qed
qed

text \<open>A clean path has no empty part behind its first separator.\<close>

lemma split_append: "strings_Split (a @ c # b) c = strings_Split a c @ strings_Split b c"
proof (induction a)
  case (Cons x a)
  then show ?case by (cases "strings_Split a c") auto
qed simp

lemma clean_no_empty_part:
  assumes "path_Clean p = p" "p \<noteq> ''/''"
  shows "'''' \<notin> set (tl (strings_Split p (CHR ''/'')))"
proof -
  obtain r qs where p: "p = render r qs" "normal (\<not> r) (rev qs)"
    using path_Clean_normal [of p] assms by metis
  have parts: "\<forall>q\<in>set qs. is_part q" using p(2) normal_parts by fastforce
  then have no: "\<forall>q\<in>set qs. CHR ''/'' \<notin> set q" "'''' \<notin> set qs" by (auto simp: is_part_def)
  show ?thesis
  proof (cases "qs = []")
    case True
    then show ?thesis using p(1) assms(2) by (cases r) (auto simp: render_def)
  next
    case False
    have ne: "strings_Join qs ''/'' \<noteq> ''''" using join_eq_Nil parts False by (auto simp: is_part_def)
    have "tl (strings_Split p (CHR ''/'')) = (if r then qs else tl qs)"
      using p(1) ne split_join [OF False no(1)] by (simp add: render_def Let_def)
    then show ?thesis using no(2) False by (cases r) (auto dest: list.set_sel(2))
  qed
qed

lemma clean_no_double:
  assumes "path_Clean (c @ CHR ''/'' # z) = c @ CHR ''/'' # z" "c \<noteq> ''''"
  shows "z \<noteq> ''''" "hd z \<noteq> CHR ''/''"
proof -
  have "c @ CHR ''/'' # z \<noteq> ''/''" using assms(2) by (cases c) auto
  then have "'''' \<notin> set (tl (strings_Split c (CHR ''/'') @ strings_Split z (CHR ''/'')))"
    using clean_no_empty_part [OF assms(1)] by (simp add: split_append)
  then have "hd (strings_Split z (CHR ''/'')) \<noteq> ''''"
    by (metis list.set_sel(1) strings_Split_nonempty tl_append2 Un_iff set_append)
  then show "z \<noteq> ''''" "hd z \<noteq> CHR ''/''" by (cases z; auto)+
qed

lemma clean_no_dot: "path_Clean (''.'' @ CHR ''/'' # z) \<noteq> ''.'' @ CHR ''/'' # z"
proof
  assume c: "path_Clean (''.'' @ CHR ''/'' # z) = ''.'' @ CHR ''/'' # z"
  obtain r qs where p: "''.'' @ CHR ''/'' # z = render r qs" "normal (\<not> r) (rev qs)"
    using path_Clean_normal c by metis
  have parts: "\<forall>q\<in>set qs. is_part q" using p(2) normal_parts by fastforce
  show False
  proof (cases qs)
    case Nil
    then show False using p(1) by (auto simp: render_def Let_def split: if_splits)
  next
    case (Cons q qs')
    then have q: "is_part q" "CHR ''/'' \<notin> set q" using parts by (auto simp: is_part_def)
    have "takeWhile (\<lambda>c. c \<noteq> CHR ''/'') (strings_Join qs ''/'') = q"
    proof (cases "qs' = []")
      case True
      then show ?thesis using q(2) Cons by (simp add: takeWhile_eq_all_conv) (metis)
    next
      case False
      then show ?thesis using q(2) Cons by (simp add: strings_Join_Cons) (subst takeWhile_append2, auto)
    qed
    moreover have "strings_Join qs ''/'' = ''.'' @ CHR ''/'' # z"
      using p(1) q(1) Cons by (cases r) (auto simp: render_def Let_def split: if_splits)
    ultimately show False using q(1) by (auto simp: is_part_def)
  qed
qed

end
