(* ===== verification/Vfs.thy ===== *)
theory Vfs
  imports Go_Paths Go_Time "HOL-Library.AList"
begin

text \<open>
  The in-memory file system (\<^verbatim>\<open>internal/vfs/vfs.go\<close>): a flat map from clean paths to entries.
  Stored entries are replaced and never written to, and their bytes are copied in and out, so
  they are values. The map is a list in the order in which a \<^verbatim>\<open>range\<close> would visit it. Every
  operation runs with the lock held. The clock is the sequence of its readings.
\<close>

section \<open>State\<close>

datatype fs_error = ErrNotExist | IsDirectory | NotDirectory | DirNotEmpty

record path_error =
  Op :: string
  ErrPath :: string
  Err :: fs_error

definition PathError :: "string \<Rightarrow> string \<Rightarrow> fs_error \<Rightarrow> path_error" where
  "PathError op p e = \<lparr>Op = op, ErrPath = p, Err = e\<rparr>"

type_synonym file_mode = "32 word"

definition ModeDir :: file_mode where "ModeDir = push_bit 31 1"

record mem_entry =
  edata :: string
  perm :: file_mode
  dir :: bool
  modTime :: time

type_synonym files = "(string \<times> mem_entry) list"

record mem =
  mfiles :: files
  mnow :: "(nat \<Rightarrow> time) option"
  readings :: nat

definition NewMem :: "(nat \<Rightarrow> time) \<Rightarrow> mem" where
  "NewMem timeNow =
    \<lparr>mfiles = [(''.'', \<lparr>edata = '''', perm = 493, dir = True, modTime = 0\<rparr>)], mnow = Some timeNow, readings = 0\<rparr>"

definition SetClock :: "(nat \<Rightarrow> time) option \<Rightarrow> mem \<Rightarrow> mem" where
  "SetClock now m = m\<lparr>mnow := now, readings := 0\<rparr>"

definition clock :: "mem \<Rightarrow> mem \<times> time" where
  "clock m = (case mnow m of None \<Rightarrow> (m, 0) | Some now \<Rightarrow> (m\<lparr>readings := Suc (readings m)\<rparr>, now (readings m)))"

section \<open>Operations\<close>

definition ReadFile :: "mem \<Rightarrow> string \<Rightarrow> path_error + string" where
  "ReadFile m path =
    (let clean = path_Clean path in
     case map_of (mfiles m) clean of
       None \<Rightarrow> Inl (PathError ''open'' path ErrNotExist)
     | Some e \<Rightarrow> if dir e then Inl (PathError ''read'' path IsDirectory) else Inr (edata e))"

definition is_dir :: "mem \<Rightarrow> string \<Rightarrow> bool" where
  "is_dir m p \<longleftrightarrow> (case map_of (mfiles m) p of Some e \<Rightarrow> dir e | None \<Rightarrow> False)"

definition put :: "string \<Rightarrow> (time \<Rightarrow> mem_entry) \<Rightarrow> mem \<Rightarrow> mem" where
  "put p e m = (let (m', t) = clock m in m'\<lparr>mfiles := AList.update p (e t) (mfiles m')\<rparr>)"

definition WriteFile :: "mem \<Rightarrow> string \<Rightarrow> string \<Rightarrow> file_mode \<Rightarrow> mem \<times> path_error option" where
  "WriteFile m path bytes p =
    (let clean = path_Clean path; parent = path_Dir clean in
     if is_root clean then (m, Some (PathError ''write'' path IsDirectory))
     else if is_dir m clean then (m, Some (PathError ''write'' path IsDirectory))
     else if \<not> is_root parent \<and> \<not> is_dir m parent then (m, Some (PathError ''open'' path ErrNotExist))
     else (put clean (\<lambda>t. \<lparr>edata = bytes, perm = p, dir = False, modTime = t\<rparr>) m, None))"

record mem_info =
  iname :: string
  ientry :: mem_entry

definition info_Name :: "mem_info \<Rightarrow> string" where "info_Name i = iname i"
definition info_Sys :: "mem_info \<Rightarrow> unit option" where "info_Sys i = None"
definition info_Size :: "mem_info \<Rightarrow> nat" where "info_Size i = length (edata (ientry i))"
definition info_Mode :: "mem_info \<Rightarrow> file_mode" where "info_Mode i = perm (ientry i)"
definition info_ModTime :: "mem_info \<Rightarrow> time" where "info_ModTime i = modTime (ientry i)"
definition info_IsDir :: "mem_info \<Rightarrow> bool" where "info_IsDir i = dir (ientry i)"

definition Stat :: "mem \<Rightarrow> string \<Rightarrow> path_error + mem_info" where
  "Stat m path =
    (let clean = path_Clean path in
     case map_of (mfiles m) clean of
       None \<Rightarrow> Inl (PathError ''stat'' path ErrNotExist)
     | Some e \<Rightarrow> Inr \<lparr>iname = path_Base clean, ientry = e\<rparr>)"

function mkdirAllLocked :: "mem \<Rightarrow> string \<Rightarrow> file_mode \<Rightarrow> mem \<times> path_error option" where
  "mkdirAllLocked m clean p =
    (if is_root clean \<or> clean = '''' then (m, None)
     else
       (case map_of (mfiles m) clean of
          Some e \<Rightarrow> if dir e then (m, None) else (m, Some (PathError ''mkdir'' clean NotDirectory))
        | None \<Rightarrow>
            (case mkdirAllLocked m (path_Dir clean) p of
               (m', Some err) \<Rightarrow> (m', Some err)
             | (m', None) \<Rightarrow> (put clean (\<lambda>t. \<lparr>edata = '''', perm = p, dir = True, modTime = t\<rparr>) m', None))))"
  by pat_completeness auto
termination
proof (relation "measure (\<lambda>(m, s, p). if is_root s then 0 else Suc (count_list s (CHR ''/'')))")
  fix m :: mem and clean :: string and p :: file_mode
  assume "\<not> (is_root clean \<or> clean = '''')"
  then show "((m, path_Dir clean, p), m, clean, p) \<in> measure (\<lambda>(m, s, p). if is_root s then 0 else Suc (count_list s (CHR ''/'')))"
    using path_Dir_shrinks [of clean] by auto
qed simp

declare mkdirAllLocked.simps [simp del]

definition MkdirAll :: "mem \<Rightarrow> string \<Rightarrow> file_mode \<Rightarrow> mem \<times> path_error option" where
  "MkdirAll m path p = mkdirAllLocked m (path_Clean path) p"

definition has_child :: "mem \<Rightarrow> string \<Rightarrow> bool" where
  "has_child m clean \<longleftrightarrow> (\<exists>p\<in>set (map fst (mfiles m)). p \<noteq> clean \<and> strings_HasPrefix p (clean @ ''/''))"

definition Remove :: "mem \<Rightarrow> string \<Rightarrow> mem \<times> path_error option" where
  "Remove m path =
    (let clean = path_Clean path in
     case map_of (mfiles m) clean of
       None \<Rightarrow> (m, Some (PathError ''remove'' path ErrNotExist))
     | Some e \<Rightarrow>
         if dir e \<and> has_child m clean then (m, Some (PathError ''remove'' path DirNotEmpty))
         else (m\<lparr>mfiles := AList.delete clean (mfiles m)\<rparr>, None))"

definition assertReadDirTarget :: "mem \<Rightarrow> string \<Rightarrow> string \<Rightarrow> path_error option" where
  "assertReadDirTarget m path clean =
    (if clean = ''.'' then None
     else
       (case map_of (mfiles m) clean of
          None \<Rightarrow> Some (PathError ''open'' path ErrNotExist)
        | Some e \<Rightarrow> if dir e then None else Some (PathError ''fdopendir'' path NotDirectory)))"

definition relativeChild :: "string \<Rightarrow> string \<Rightarrow> string option" where
  "relativeChild p pre =
    (if \<not> strings_HasPrefix p pre then None
     else
       (let rel = drop (length pre) p;
            rel = (case strings_Index rel ''/'' of Some i \<Rightarrow> take i rel | None \<Rightarrow> rel)
        in if rel = '''' then None else Some rel))"

record dir_entry =
  dname :: string
  dentry :: mem_entry

definition entry_Name :: "dir_entry \<Rightarrow> string" where "entry_Name d = dname d"
definition dirent_IsDir :: "dir_entry \<Rightarrow> bool" where "dirent_IsDir d = dir (dentry d)"

definition entry_Type :: "dir_entry \<Rightarrow> file_mode" where
  "entry_Type d = (if dir (dentry d) then ModeDir else 0)"

definition entry_Info :: "dir_entry \<Rightarrow> mem_info" where
  "entry_Info d = \<lparr>iname = dname d, ientry = dentry d\<rparr>"

fun readdir_loop :: "string \<Rightarrow> string \<Rightarrow> string list \<Rightarrow> dir_entry list \<Rightarrow> files \<Rightarrow> dir_entry list" where
  "readdir_loop clean pre seen entries [] = entries"
| "readdir_loop clean pre seen entries ((p, e) # fs) =
    (if p = clean then readdir_loop clean pre seen entries fs
     else
       (case relativeChild p pre of
          None \<Rightarrow> readdir_loop clean pre seen entries fs
        | Some rel \<Rightarrow>
            if rel \<in> set seen then readdir_loop clean pre seen entries fs
            else readdir_loop clean pre (rel # seen) (entries @ [\<lparr>dname = rel, dentry = e\<rparr>]) fs))"

definition ReadDir :: "mem \<Rightarrow> string \<Rightarrow> path_error + dir_entry list" where
  "ReadDir m path =
    (let clean = path_Clean path in
     case assertReadDirTarget m path clean of
       Some err \<Rightarrow> Inl err
     | None \<Rightarrow>
         Inr (sort_key dname
           (readdir_loop clean (if clean = ''.'' then '''' else clean @ ''/'') [] [] (mfiles m))))"

section \<open>The interface and its implementations\<close>

text \<open>\<^verbatim>\<open>FS\<close> over a state: what code that takes a file system calls. The functions of the package \<^verbatim>\<open>os\<close> are a
  parameter, a record of the same shape, to which the methods of \<^verbatim>\<open>OS\<close> delegate.\<close>

record ('s, 'e, 'i, 'd) FS =
  fsReadFile :: "'s \<Rightarrow> string \<Rightarrow> 'e + string"
  fsWriteFile :: "'s \<Rightarrow> string \<Rightarrow> string \<Rightarrow> file_mode \<Rightarrow> 's \<times> 'e option"
  fsStat :: "'s \<Rightarrow> string \<Rightarrow> 'e + 'i"
  fsMkdirAll :: "'s \<Rightarrow> string \<Rightarrow> file_mode \<Rightarrow> 's \<times> 'e option"
  fsRemove :: "'s \<Rightarrow> string \<Rightarrow> 's \<times> 'e option"
  fsReadDir :: "'s \<Rightarrow> string \<Rightarrow> 'e + 'd list"

definition OS_ReadFile :: "('s, 'e, 'i, 'd) FS \<Rightarrow> 's \<Rightarrow> string \<Rightarrow> 'e + string" where
  "OS_ReadFile os s path = fsReadFile os s path"

definition OS_WriteFile :: "('s, 'e, 'i, 'd) FS \<Rightarrow> 's \<Rightarrow> string \<Rightarrow> string \<Rightarrow> file_mode \<Rightarrow> 's \<times> 'e option" where
  "OS_WriteFile os s path bytes p = fsWriteFile os s path bytes p"

definition OS_Stat :: "('s, 'e, 'i, 'd) FS \<Rightarrow> 's \<Rightarrow> string \<Rightarrow> 'e + 'i" where
  "OS_Stat os s path = fsStat os s path"

definition OS_MkdirAll :: "('s, 'e, 'i, 'd) FS \<Rightarrow> 's \<Rightarrow> string \<Rightarrow> file_mode \<Rightarrow> 's \<times> 'e option" where
  "OS_MkdirAll os s path p = fsMkdirAll os s path p"

definition OS_Remove :: "('s, 'e, 'i, 'd) FS \<Rightarrow> 's \<Rightarrow> string \<Rightarrow> 's \<times> 'e option" where
  "OS_Remove os s path = fsRemove os s path"

definition OS_ReadDir :: "('s, 'e, 'i, 'd) FS \<Rightarrow> 's \<Rightarrow> string \<Rightarrow> 'e + 'd list" where
  "OS_ReadDir os s path = fsReadDir os s path"

definition Default_FS :: "('s, 'e, 'i, 'd) FS \<Rightarrow> ('s, 'e, 'i, 'd) FS" where
  "Default_FS os =
    \<lparr>fsReadFile = OS_ReadFile os, fsWriteFile = OS_WriteFile os, fsStat = OS_Stat os, fsMkdirAll = OS_MkdirAll os,
     fsRemove = OS_Remove os, fsReadDir = OS_ReadDir os\<rparr>"

definition Mem_FS :: "(mem, path_error, mem_info, dir_entry) FS" where
  "Mem_FS =
    \<lparr>fsReadFile = ReadFile, fsWriteFile = WriteFile, fsStat = Stat, fsMkdirAll = MkdirAll, fsRemove = Remove, fsReadDir = ReadDir\<rparr>"

text \<open>The production implementation adds nothing to the package \<^verbatim>\<open>os\<close>.\<close>

lemma Default_FS_is_os: "Default_FS os = os"
  by (cases os) (simp add: Default_FS_def OS_ReadFile_def OS_WriteFile_def OS_Stat_def OS_MkdirAll_def OS_Remove_def
      OS_ReadDir_def fun_eq_iff)

text \<open>What a client may rely on when it writes and reads: a write that succeeds is read back under every name of its
  file and nothing else changes, a write that fails changes nothing.\<close>

locale file_store =
  fixes get_file :: "'s \<Rightarrow> string \<Rightarrow> 'e + string"
    and put_file :: "'s \<Rightarrow> string \<Rightarrow> string \<Rightarrow> 's \<times> 'e option"
    and same_file :: "string \<Rightarrow> string \<Rightarrow> bool"
  assumes read_written: "put_file s p d = (s', None) \<Longrightarrow> same_file p q \<Longrightarrow> get_file s' q = Inr d"
    and read_other: "put_file s p d = (s', None) \<Longrightarrow> \<not> same_file p q \<Longrightarrow> get_file s' q = get_file s q"
    and write_failed: "put_file s p d = (s', Some e) \<Longrightarrow> s' = s"
begin

fun run_writes :: "(string \<times> string) list \<Rightarrow> 's \<Rightarrow> 's \<times> (string \<times> string) list" where
  "run_writes [] s = (s, [])"
| "run_writes ((p, d) # ws) s =
    (case put_file s p d of
       (s', None) \<Rightarrow> (case run_writes ws s' of (t, succeeded) \<Rightarrow> (t, (p, d) # succeeded))
     | (s', Some e) \<Rightarrow> run_writes ws s')"

lemma last_write_wins:
  "get_file (fst (run_writes ws s)) q =
    (case find (\<lambda>(p, d). same_file p q) (rev (snd (run_writes ws s))) of Some (p, d) \<Rightarrow> Inr d | None \<Rightarrow> get_file s q)"
proof (induction ws s rule: run_writes.induct)
  case (2 p d ws s)
  have find_append: "find P (xs @ [x]) = (case find P xs of None \<Rightarrow> if P x then Some x else None | Some y \<Rightarrow> Some y)" for P xs x
    by (induction xs) auto
  obtain s' r where w: "put_file s p d = (s', r)" by fastforce
  show ?case
  proof (cases r)
    case None
    then show ?thesis
      using 2(1) [of s' r] w read_written [of s p d s' q] read_other [of s p d s' q]
      by (auto simp: find_append split: prod.split option.split)
  next
    case (Some e)
    then have "s' = s" using w write_failed [of s p d s' e] by simp
    then show ?thesis using 2(2) [of s' r e] w Some by (simp split: option.split)
  qed
qed simp

end

section \<open>The tree invariant\<close>

definition keys :: "mem \<Rightarrow> string set" where
  "keys m = set (map fst (mfiles m))"

definition mem_inv :: "mem \<Rightarrow> bool" where
  "mem_inv m \<longleftrightarrow> distinct (map fst (mfiles m)) \<and>
    (\<forall>p\<in>keys m. path_Clean p = p \<and> p \<noteq> ''/'' \<and> (is_root (path_Dir p) \<or> is_dir m (path_Dir p)))"

lemma keys_iff: "p \<in> keys m \<longleftrightarrow> map_of (mfiles m) p \<noteq> None"
  by (auto simp: keys_def map_of_eq_None_iff)

lemma is_dir_key: "is_dir m p \<Longrightarrow> p \<in> keys m"
  by (auto simp: is_dir_def keys_iff split: option.splits)

lemma mfiles_put: "\<exists>t. mfiles (put p e m) = AList.update p (e t) (mfiles m)"
  by (auto simp: put_def clock_def split: option.splits)

lemma map_of_put: "\<exists>t. map_of (mfiles (put p e m)) = (map_of (mfiles m))(p \<mapsto> e t)"
  using mfiles_put [of p e m] by (auto simp: update_conv')

lemma keys_put [simp]: "keys (put p e m) = insert p (keys m)"
  using map_of_put [of p e m] by (auto simp: keys_iff split: if_splits)

lemma is_dir_put: "is_dir (put p e m) q \<longleftrightarrow> (if q = p then \<exists>t. map_of (mfiles (put p e m)) p = Some (e t) \<and> dir (e t) else is_dir m q)"
  using map_of_put [of p e m] by (auto simp: is_dir_def)

lemma put_inv:
  assumes inv: "mem_inv m" and p: "path_Clean p = p" "p \<noteq> ''/''"
    and parent: "is_root (path_Dir p) \<or> is_dir m (path_Dir p)"
    and kept: "is_dir m p \<Longrightarrow> \<forall>t. dir (e t)"
  shows "mem_inv (put p e m)"
proof -
  obtain t where t: "map_of (mfiles (put p e m)) = (map_of (mfiles m))(p \<mapsto> e t)"
    using map_of_put by blast
  have mono: "is_dir (put p e m) q" if "is_dir m q" for q
    using that kept by (auto simp: is_dir_def t)
  have d: "distinct (map fst (mfiles (put p e m)))"
    using mfiles_put [of p e m] inv by (auto simp: mem_inv_def distinct_update)
  show ?thesis
    using inv p parent mono d by (auto simp: mem_inv_def)
qed

lemma NewMem_inv [step_inv]: "mem_inv (NewMem f)"
  by (simp add: NewMem_def mem_inv_def keys_def is_root_def path_Clean_def path_Dir_def upto_slash_def)

lemma SetClock_inv [step_inv]: "mem_inv m \<Longrightarrow> mem_inv (SetClock c m)"
  by (simp add: mem_inv_def SetClock_def keys_def is_dir_def)

lemma WriteFile_inv [step_inv]: "mem_inv m \<Longrightarrow> mem_inv (fst (WriteFile m path bytes p))"
  by (auto simp: WriteFile_def Let_def is_root_def intro!: put_inv)

lemma mkdir_root: "is_root s \<or> s = '''' \<Longrightarrow> mkdirAllLocked m s p = (m, None)"
  by (subst mkdirAllLocked.simps) simp

lemma mkdir_found:
  "\<not> (is_root s \<or> s = '''') \<Longrightarrow> map_of (mfiles m) s = Some e \<Longrightarrow> mkdirAllLocked m s p =
    (if dir e then (m, None) else (m, Some (PathError ''mkdir'' s NotDirectory)))"
  by (subst mkdirAllLocked.simps) simp

lemma mkdir_missing:
  "\<not> (is_root s \<or> s = '''') \<Longrightarrow> map_of (mfiles m) s = None \<Longrightarrow> mkdirAllLocked m s p =
    (case mkdirAllLocked m (path_Dir s) p of
       (m', Some err) \<Rightarrow> (m', Some err)
     | (m', None) \<Rightarrow> (put s (\<lambda>t. \<lparr>edata = '''', perm = p, dir = True, modTime = t\<rparr>) m', None))"
  by (subst mkdirAllLocked.simps) simp

text \<open>Making directories: a failure leaves the files alone; a success has the path as a directory
  and keeps every entry there was.\<close>

lemma mkdir_exact:
  "mkdirAllLocked m s p = (m', r) \<Longrightarrow>
    (case r of
       Some err \<Rightarrow> m' = m \<and> Op err = ''mkdir'' \<and> Err err = NotDirectory \<and>
          ErrPath err \<in> keys m \<and> \<not> is_dir m (ErrPath err)
     | None \<Rightarrow> (is_root s \<or> s = '''' \<or> is_dir m' s) \<and> map_of (mfiles m) \<subseteq>\<^sub>m map_of (mfiles m') \<and>
          (\<forall>q\<in>keys m' - keys m. is_dir m' q))"
proof (induction m s p arbitrary: m' r rule: mkdirAllLocked.induct)
  case (1 m s p)
  show ?case
  proof (cases "is_root s \<or> s = ''''")
    case True
    with "1.prems" show ?thesis by (auto simp: mkdir_root)
  next
    case False
    show ?thesis
    proof (cases "map_of (mfiles m) s")
      case (Some e)
      with False "1.prems" show ?thesis
        by (auto simp: mkdir_found is_dir_def PathError_def keys_iff split: if_splits)
    next
      case None
      obtain n e where rec: "mkdirAllLocked m (path_Dir s) p = (n, e)" by fastforce
      note IH = "1.IH" [OF False None rec]
      show ?thesis
      proof (cases e)
        case (Some err)
        then show ?thesis
          using "1.prems" False None rec IH by (auto simp: mkdir_missing)
      next
        case None': None
        define d where "d = (\<lambda>t. \<lparr>edata = '''', perm = p, dir = True, modTime = t\<rparr>)"
        have m': "m' = put s d n" "r = None"
          using "1.prems" False None rec None' by (simp_all add: mkdir_missing d_def)
        obtain t where t: "map_of (mfiles m') = (map_of (mfiles n))(s \<mapsto> d t)"
          using map_of_put m'(1) by blast
        show ?thesis
          using IH None' None m'(2) t
          by (auto simp: is_dir_def d_def map_le_def keys_iff split: option.splits if_splits)
      qed
    qed
  qed
qed

lemma mkdir_inv:
  "mem_inv m \<Longrightarrow> path_Clean s = s \<Longrightarrow> mem_inv (fst (mkdirAllLocked m s p))"
proof (induction m s p rule: mkdirAllLocked.induct)
  case (1 m s p)
  show ?case
  proof (cases "is_root s \<or> s = '''' \<or> map_of (mfiles m) s \<noteq> None")
    case True
    with "1.prems" show ?thesis
      by (cases "is_root s \<or> s = ''''"; cases "map_of (mfiles m) s") (auto simp: mkdir_root mkdir_found)
  next
    case False
    obtain n e where rec: "mkdirAllLocked m (path_Dir s) p = (n, e)" by fastforce
    have n: "mem_inv n" using "1.IH" False "1.prems"(1) rec by simp
    show ?thesis
    proof (cases e)
      case (Some err)
      then show ?thesis using False rec n by (simp add: mkdir_missing)
    next
      case None
      have "is_root (path_Dir s) \<or> path_Dir s = '''' \<or> is_dir n (path_Dir s)"
        using mkdir_exact [OF rec] None by simp
      moreover have "path_Dir s \<noteq> ''''"
        using path_Clean_Dir [of s] by (auto simp: path_Clean_def)
      ultimately have "mem_inv (put s (\<lambda>t. \<lparr>edata = '''', perm = p, dir = True, modTime = t\<rparr>) n)"
        using n "1.prems"(2) False by (intro put_inv) (auto simp: is_root_def)
      then show ?thesis using False rec None by (simp add: mkdir_missing)
    qed
  qed
qed

lemma MkdirAll_inv [step_inv]: "mem_inv m \<Longrightarrow> mem_inv (fst (MkdirAll m path p))"
  by (simp add: MkdirAll_def mkdir_inv)

lemma child_prefix:
  assumes "path_Clean p = p" "\<not> is_root (path_Dir p)"
  shows "p \<noteq> path_Dir p" "prefix (path_Dir p @ ''/'') p"
proof -
  obtain x where p: "p = path_Dir p @ CHR ''/'' # x"
    using path_clean_cases [OF assms(1)] assms(2) by (metis is_root_def)
  then show "p \<noteq> path_Dir p" by (metis append_self_conv list.distinct(1))
  show "prefix (path_Dir p @ ''/'') p"
    using p by (metis append.assoc append_Cons append_Nil prefixI)
qed

lemma Remove_inv [step_inv]: "mem_inv m \<Longrightarrow> mem_inv (fst (Remove m path))"
proof -
  assume inv: "mem_inv m"
  let ?c = "path_Clean path"
  let ?m = "m\<lparr>mfiles := AList.delete ?c (mfiles m)\<rparr>"
  have "mem_inv ?m" if "\<not> (is_dir m ?c \<and> has_child m ?c)"
  proof -
    have "is_root (path_Dir p) \<or> is_dir ?m (path_Dir p)" if p: "p \<in> keys ?m" for p
    proof (cases "is_root (path_Dir p)")
      case False
      have pm: "p \<in> keys m" "p \<noteq> ?c" using p by (auto simp: keys_iff delete_conv' split: if_splits)
      then have d: "is_dir m (path_Dir p)" and cl: "path_Clean p = p"
        using inv False by (auto simp: mem_inv_def)
      have "path_Dir p \<noteq> ?c"
        using \<open>\<not> (is_dir m ?c \<and> has_child m ?c)\<close> d pm child_prefix [OF cl False]
        by (auto simp: has_child_def keys_def)
      with d show ?thesis by (simp add: is_dir_def delete_conv')
    qed simp
    moreover have "keys ?m \<subseteq> keys m" by (auto simp: keys_iff delete_conv' split: if_splits)
    moreover have "distinct (map fst (mfiles ?m))"
      using inv by (simp add: mem_inv_def distinct_delete)
    ultimately show ?thesis using inv by (auto simp: mem_inv_def)
  qed
  then show ?thesis using inv by (auto simp: Remove_def Let_def is_dir_def split: option.splits)
qed

section \<open>Listing a directory\<close>

lemma Index_slash:
  "strings_Index s [c] = (if c \<in> set s then Some (length (takeWhile (\<lambda>x. x \<noteq> c) s)) else None)"
  by (induction s) auto

lemma takeWhile_no_sep: "c \<notin> set x \<Longrightarrow> takeWhile (\<lambda>d. d \<noteq> c) x = x"
  by (induction x) auto

lemma takeWhile_sep: "c \<notin> set x \<Longrightarrow> takeWhile (\<lambda>d. d \<noteq> c) (x @ c # y) = x"
  by (induction x) auto

lemma relativeChild_eq:
  "relativeChild p pre =
    (let x = takeWhile (\<lambda>c. c \<noteq> CHR ''/'') (drop (length pre) p) in
     if prefix pre p \<and> x \<noteq> '''' then Some x else None)"
proof -
  have "(case strings_Index s ''/'' of Some i \<Rightarrow> take i s | None \<Rightarrow> s) = takeWhile (\<lambda>c. c \<noteq> CHR ''/'') s" for s
    by (cases "CHR ''/'' \<in> set s") (simp_all add: Index_slash takeWhile_eq_take [symmetric] takeWhile_no_sep)
  then show ?thesis unfolding relativeChild_def Let_def by auto
qed

lemma relativeChild_append: "relativeChild (pre @ z) pre = relativeChild z ''''"
  by (simp add: relativeChild_eq)

lemma relativeChild_part: "is_part x \<Longrightarrow> relativeChild x '''' = Some x"
  by (simp add: relativeChild_eq is_part_def Let_def takeWhile_no_sep)

lemma relativeChild_deep: "relativeChild (d @ CHR ''/'' # x) '''' = relativeChild d ''''"
  by (cases "CHR ''/'' \<in> set d") (simp_all add: relativeChild_eq takeWhile_no_sep takeWhile_sep Let_def)

definition dir_prefix :: "string \<Rightarrow> string" where
  "dir_prefix clean = (if clean = ''.'' then '''' else clean @ ''/'')"

lemma readdir_loop_names:
  "distinct (map dname es) \<Longrightarrow> set (map dname es) = set seen \<Longrightarrow>
    distinct (map dname (readdir_loop c pre seen es fs)) \<and>
    set (map dname (readdir_loop c pre seen es fs)) =
      set seen \<union> {x. \<exists>p\<in>set (map fst fs). p \<noteq> c \<and> relativeChild p pre = Some x}"
proof (induction c pre seen es fs rule: readdir_loop.induct)
  case (2 c pre seen es p e fs)
  show ?case
  proof (cases "p = c \<or> relativeChild p pre = None")
    case True
    then have "readdir_loop c pre seen es ((p, e) # fs) = readdir_loop c pre seen es fs" by auto
    moreover have "{x. \<exists>q\<in>set (map fst ((p, e) # fs)). q \<noteq> c \<and> relativeChild q pre = Some x} =
        {x. \<exists>q\<in>set (map fst fs). q \<noteq> c \<and> relativeChild q pre = Some x}"
      using True by auto
    moreover have "distinct (map dname (readdir_loop c pre seen es fs)) \<and>
        set (map dname (readdir_loop c pre seen es fs)) =
          set seen \<union> {x. \<exists>q\<in>set (map fst fs). q \<noteq> c \<and> relativeChild q pre = Some x}"
      using True
    proof (cases "p = c")
      case True
      then show ?thesis by (rule "2.IH"(1) [OF _ "2.prems"])
    next
      case False
      with True have "relativeChild p pre = None" by simp
      with False show ?thesis by (rule "2.IH"(2) [OF _ _ "2.prems"])
    qed
    ultimately show ?thesis by (simp only:)
  next
    case False
    then obtain rel where rel: "p \<noteq> c" "relativeChild p pre = Some rel" by auto
    show ?thesis
    proof (cases "rel \<in> set seen")
      case True
      then show ?thesis using "2.IH"(3) "2.prems" rel by auto
    next
      case False
      moreover have "distinct (map dname (es @ [\<lparr>dname = rel, dentry = e\<rparr>]))"
        using False "2.prems" by auto
      ultimately show ?thesis using "2.IH"(4) [OF rel] "2.prems" rel by auto
    qed
  qed
qed auto

lemma prefix_parent:
  assumes "prefix (c @ ''/'') (d @ CHR ''/'' # x)" "CHR ''/'' \<notin> set x" "d \<noteq> c"
  shows "prefix (c @ ''/'') d"
proof -
  obtain z where z: "c @ CHR ''/'' # z = d @ CHR ''/'' # x" using assms(1) by (auto simp: prefix_def)
  then consider us where "c = d @ us" "us @ CHR ''/'' # z = CHR ''/'' # x"
    | us where "d = c @ us" "CHR ''/'' # z = us @ CHR ''/'' # x"
    by (auto simp: append_eq_append_conv2)
  then show ?thesis
  proof cases
    case 1
    then show ?thesis using assms(2,3) by (cases us) auto
  next
    case 2
    then show ?thesis using assms(3) by (cases us) auto
  qed
qed

lemma descendant_child:
  assumes inv: "mem_inv m" and c: "path_Clean c = c"
  shows "p \<in> keys m \<Longrightarrow> p \<noteq> c \<Longrightarrow> relativeChild p (dir_prefix c) = Some x \<Longrightarrow>
    is_part x \<and> dir_prefix c @ x \<in> keys m"
proof (induction p rule: measure_induct_rule [of length])
  case (less p)
  have cl: "path_Clean p = p" "p \<noteq> ''/''" using inv less.prems(1) by (auto simp: mem_inv_def)
  have pre: "prefix (dir_prefix c) p" using less.prems(3) by (auto simp: relativeChild_eq Let_def split: if_splits)
  have cne: "c \<noteq> ''''" using c by (auto simp: path_Clean_def)
  show ?case
    using cl(1)
  proof (cases rule: path_clean_cases)
    case root
    then have "p = ''.''" using cl(2) by (auto simp: is_root_def)
    then show ?thesis using pre less.prems(2) by (auto simp: dir_prefix_def prefix_Cons split: if_splits)
  next
    case (top y)
    then show ?thesis
      using pre less.prems relativeChild_part [of y]
      by (auto simp: dir_prefix_def is_part_def prefix_def split: if_splits)
  next
    case (rooted y)
    then show ?thesis
      using pre less.prems(3) cne
      by (cases c) (auto simp: dir_prefix_def is_part_def prefix_def relativeChild_eq split: if_splits)
  next
    case (deep y)
    let ?d = "path_Dir p"
    have d: "?d \<in> keys m" using inv less.prems(1) deep(2) by (auto simp: mem_inv_def dest: is_dir_key)
    show ?thesis
    proof (cases "?d = c")
      case True
      then have dp: "dir_prefix c = c @ ''/''" using deep(2) by (auto simp: dir_prefix_def is_root_def)
      then have p: "p = dir_prefix c @ y" using deep(1) True by simp
      then have "relativeChild p (dir_prefix c) = Some y"
        using relativeChild_append relativeChild_part [OF deep(3)] by metis
      then show ?thesis using p less.prems(1,3) deep(3) by simp
    next
      case False
      have pd: "prefix (dir_prefix c) ?d"
        using pre prefix_parent [of c ?d y] deep(1,3) False
        by (metis dir_prefix_def is_part_def Nil_prefix)
      then obtain z where z: "?d = dir_prefix c @ z" by (auto simp: prefix_def)
      have "relativeChild p (dir_prefix c) = relativeChild (z @ CHR ''/'' # y) ''''"
        using deep(1) z by (metis append.assoc relativeChild_append)
      also have "\<dots> = relativeChild ?d (dir_prefix c)"
        using z by (simp add: relativeChild_append relativeChild_deep)
      finally have "relativeChild ?d (dir_prefix c) = Some x" using less.prems(3) by simp
      moreover have "length ?d < length p"
        using arg_cong [OF deep(1), of length] by simp
      ultimately show ?thesis using less.IH d False by blast
    qed
  qed
qed

lemma child_names:
  assumes "mem_inv m" "path_Clean c = c"
  shows "{x. \<exists>p\<in>keys m. p \<noteq> c \<and> relativeChild p (dir_prefix c) = Some x} =
    {x. is_part x \<and> dir_prefix c @ x \<in> keys m}"
proof -
  have "dir_prefix c @ x \<noteq> c" if "is_part x" for x
    using that by (auto simp: dir_prefix_def is_part_def)
  moreover have "relativeChild (dir_prefix c @ x) (dir_prefix c) = Some x" if "is_part x" for x
    using that by (simp add: relativeChild_append relativeChild_part)
  ultimately show ?thesis using descendant_child [OF assms] by blast
qed

section \<open>The file system as a machine\<close>

inductive mem_step :: "mem \<Rightarrow> mem \<Rightarrow> bool" where
  step_set: "mem_step m (SetClock c m)"
| step_write: "WriteFile m path bytes p = (m', r) \<Longrightarrow> mem_step m m'"
| step_mkdir: "MkdirAll m path p = (m', r) \<Longrightarrow> mem_step m m'"
| step_remove: "Remove m path = (m', r) \<Longrightarrow> mem_step m m'"

lemma mem_step_inv: "mem_step m m' \<Longrightarrow> mem_inv m \<Longrightarrow> mem_inv m'"
  by (erule mem_step.cases) (metis SetClock_inv WriteFile_inv MkdirAll_inv Remove_inv fst_conv)+

interpretation vfs: invariant_machine "\<lambda>m. m = NewMem f" mem_step mem_inv for f
proof unfold_locales
  show "mem_inv m" if "m = NewMem f" for m using that NewMem_inv by simp
  show "mem_inv t" if "mem_inv s" "mem_step s t" for s t using that mem_step_inv by blast
qed

lemma ReadDir_names:
  assumes "mem_inv m" "ReadDir m path = Inr es"
  shows "sorted (map dname es) \<and> distinct (map dname es) \<and>
    set (map dname es) = {x. is_part x \<and> dir_prefix (path_Clean path) @ x \<in> keys m}"
proof -
  let ?c = "path_Clean path"
  let ?l = "readdir_loop ?c (dir_prefix ?c) [] [] (mfiles m)"
  have es: "es = sort_key dname ?l"
    using assms(2) by (auto simp: ReadDir_def dir_prefix_def Let_def split: option.splits)
  have names: "distinct (map dname ?l)"
    "set (map dname ?l) = {x. \<exists>p\<in>keys m. p \<noteq> ?c \<and> relativeChild p (dir_prefix ?c) = Some x}"
    using readdir_loop_names [of "[]" "[]" ?c "dir_prefix ?c" "mfiles m"] by (auto simp: keys_def)
  have "mset (map dname es) = mset (map dname ?l)" using es by (simp add: mset_map)
  then have "distinct (map dname es)" "set (map dname es) = set (map dname ?l)"
    using names(1) by (metis mset_eq_imp_distinct_iff, metis mset_eq_setD)
  then show ?thesis using es names(2) child_names [OF assms(1), of ?c] by simp
qed

lemma has_child_iff:
  assumes "mem_inv m" "path_Clean c = c" "c \<noteq> ''.''"
  shows "has_child m c \<longleftrightarrow> (\<exists>x. is_part x \<and> dir_prefix c @ x \<in> keys m)"
proof
  assume "has_child m c"
  then obtain p where p: "p \<in> keys m" "p \<noteq> c" "prefix (c @ ''/'') p"
    by (auto simp: has_child_def keys_def)
  then obtain z where z: "p = dir_prefix c @ z" using assms(3) by (auto simp: dir_prefix_def prefix_def)
  show "\<exists>x. is_part x \<and> dir_prefix c @ x \<in> keys m"
  proof (cases "relativeChild p (dir_prefix c)")
    case (Some x)
    then show ?thesis using descendant_child [OF assms(1,2) p(1,2)] by blast
  next
    case None
    then have "z = '''' \<or> hd z = CHR ''/''"
      using z by (cases z) (auto simp: relativeChild_eq Let_def split: if_splits)
    moreover have cl: "path_Clean p = p" using assms(1) p(1) by (simp add: mem_inv_def)
    moreover have "p = c @ CHR ''/'' # z" using z assms(3) by (simp add: dir_prefix_def)
    moreover have "c \<noteq> ''''" using assms(2) by (auto simp: path_Clean_def)
    ultimately have False
      using clean_no_double [of c z] by auto
    then show ?thesis ..
  qed
next
  assume "\<exists>x. is_part x \<and> dir_prefix c @ x \<in> keys m"
  then obtain x where "is_part x" "c @ ''/'' @ x \<in> keys m" using assms(3) by (auto simp: dir_prefix_def)
  then show "has_child m c" by (force simp: has_child_def keys_def)
qed

section \<open>Properties\<close>

lemma mkdir_reach: "reach (\<lambda>m. m = NewMem f) mem_step (fst (MkdirAll (NewMem f) path p))"
proof -
  have "reach (\<lambda>m. m = NewMem f) mem_step (NewMem f)" by (rule reach_start) (rule refl)
  then show ?thesis by (rule reach_step) (rule step_mkdir [OF prod.collapse [symmetric]])
qed

text \<open>(C27) Whatever operations ran, in whatever order, the map is a tree: every stored path is
  clean, and the parent of every stored path that is not at the top is stored as a directory. In
  particular \<^verbatim>\<open>WriteFile\<close> never replaces a directory and \<^verbatim>\<open>Remove\<close> never orphans an entry.\<close>

theorem vfs_tree:
  assumes "reach (\<lambda>m. m = NewMem f) mem_step m"
  shows "(\<forall>p\<in>keys m. path_Clean p = p \<and> (is_root (path_Dir p) \<or> is_dir m (path_Dir p))) \<and>
    distinct (map fst (mfiles m))"
  using vfs.inv_reach [OF assms] by (simp add: mem_inv_def)

theorem vfs_tree_witness:
  "path_Dir ''a/b'' = ''a'' \<and> is_dir (fst (MkdirAll (NewMem (\<lambda>n. int n)) ''./a//b'' 493)) ''a''"
proof -
  let ?m = "fst (MkdirAll (NewMem (\<lambda>n. int n)) ''./a//b'' 493)"
  have r: "reach (\<lambda>m. m = NewMem (\<lambda>n. int n)) mem_step ?m"
    by (rule mkdir_reach)
  have k: "''a/b'' \<in> set (map fst (mfiles ?m))" by code_simp
  have d: "path_Dir ''a/b'' = ''a''" by code_simp
  have "is_root ''a'' = False" by code_simp
  then show ?thesis
    using vfs_tree [OF r, THEN conjunct1, rule_format, OF k [folded keys_def]] d by simp
qed

lemma write_read:
  assumes "WriteFile m path bytes p = (m', None)"
  shows "(path_Clean q = path_Clean path \<longrightarrow>
      ReadFile m' q = Inr bytes \<and> (\<exists>i. Stat m' q = Inr i \<and> info_Size i = length bytes \<and> info_Mode i = p \<and> \<not> info_IsDir i)) \<and>
    (path_Clean q \<noteq> path_Clean path \<longrightarrow> ReadFile m' q = ReadFile m q \<and> Stat m' q = Stat m q)"
proof -
  obtain t where "map_of (mfiles m') = (map_of (mfiles m))
      (path_Clean path \<mapsto> \<lparr>edata = bytes, perm = p, dir = False, modTime = t\<rparr>)"
    using assms map_of_put by (force simp: WriteFile_def Let_def split: if_splits)
  then show ?thesis
    by (auto simp: ReadFile_def Stat_def Let_def info_Size_def info_Mode_def info_IsDir_def)
qed

text \<open>A successful write is read back byte for byte through every spelling of the path, carries
  the permissions it was given, and changes what no other path reads.\<close>

theorem vfs_write_read:
  assumes "WriteFile m path bytes p = (m', None)"
  shows "(path_Clean q = path_Clean path \<longrightarrow>
      ReadFile m' q = Inr bytes \<and> (\<exists>i. Stat m' q = Inr i \<and> info_Size i = length bytes \<and> info_Mode i = p \<and> \<not> info_IsDir i)) \<and>
    (path_Clean q \<noteq> path_Clean path \<longrightarrow> ReadFile m' q = ReadFile m q \<and> Stat m' q = Stat m q)"
  using assms by (rule write_read)

interpretation mem_store: file_store ReadFile "\<lambda>m p d. WriteFile m p d fp" "\<lambda>p q. path_Clean q = path_Clean p" for fp
proof
  fix m m' :: mem and p q d :: string and e :: path_error
  show "ReadFile m' q = Inr d" if "WriteFile m p d fp = (m', None)" "path_Clean q = path_Clean p"
    using write_read [OF that(1), of q] that(2) by blast
  show "ReadFile m' q = ReadFile m q" if "WriteFile m p d fp = (m', None)" "path_Clean q \<noteq> path_Clean p"
    using write_read [OF that(1), of q] that(2) by blast
  show "m' = m" if "WriteFile m p d fp = (m', Some e)"
    using that by (auto simp: WriteFile_def Let_def split: if_splits)
qed

text \<open>Over any sequence of writes, of which some fail, a file reads as the last one that succeeded under
  any of its names left it, and otherwise as before.\<close>

theorem vfs_last_write:
  "ReadFile (fst (mem_store.run_writes fp ws m)) q =
    (case find (\<lambda>(p, d). path_Clean q = path_Clean p) (rev (snd (mem_store.run_writes fp ws m))) of
       Some (p, d) \<Rightarrow> Inr d | None \<Rightarrow> ReadFile m q)"
  by (rule mem_store.last_write_wins)

theorem vfs_write_read_witness:
  "ReadFile (fst (WriteFile (NewMem (\<lambda>n. int n)) ''x/../f'' ''hi'' 420)) ''./f'' = Inr ''hi''"
proof -
  have w: "WriteFile (NewMem (\<lambda>n. int n)) ''x/../f'' ''hi'' 420 =
      (fst (WriteFile (NewMem (\<lambda>n. int n)) ''x/../f'' ''hi'' 420), None)"
    by (rule prod_eqI; simp; code_simp)
  have "path_Clean ''./f'' = path_Clean ''x/../f''" by code_simp
  then show ?thesis using vfs_write_read [OF w, of "''./f''"] by blast
qed

text \<open>A listing is exact: its names are the parts that complete the directory's path to a
  stored path, in strictly increasing order. \<^verbatim>\<open>Remove\<close> of a directory other than the root succeeds
  exactly when its listing is empty.\<close>

theorem vfs_listing:
  assumes "reach (\<lambda>m. m = NewMem f) mem_step m" "path_Clean d = d" "d \<noteq> ''.''" "is_dir m d"
  shows "\<exists>es. ReadDir m d = Inr es \<and> sorted (map dname es) \<and> distinct (map dname es) \<and>
    set (map dname es) = {x. is_part x \<and> d @ ''/'' @ x \<in> keys m} \<and>
    (snd (Remove m d) = None \<longleftrightarrow> es = [])"
proof -
  have inv: "mem_inv m" by (rule vfs.inv_reach [OF assms(1)])
  have pre: "dir_prefix d = d @ ''/''" using assms(3) by (simp add: dir_prefix_def)
  obtain e where e: "map_of (mfiles m) d = Some e" "dir e"
    using assms(4) by (auto simp: is_dir_def split: option.splits)
  then obtain es where es: "ReadDir m d = Inr es"
    using assms(2,3) by (simp add: ReadDir_def assertReadDirTarget_def Let_def)
  have names: "sorted (map dname es)" "distinct (map dname es)"
    "set (map dname es) = {x. is_part x \<and> d @ ''/'' @ x \<in> keys m}"
    using ReadDir_names [OF inv es] assms(2) pre by simp_all
  have "snd (Remove m d) = None \<longleftrightarrow> \<not> has_child m d"
    using assms(2) e by (simp add: Remove_def Let_def)
  moreover have "has_child m d \<longleftrightarrow> set (map dname es) \<noteq> {}"
    using has_child_iff [OF inv assms(2,3)] names(3) pre by auto
  ultimately show ?thesis using es names by auto
qed

theorem vfs_listing_witness:
  "\<exists>es. ReadDir (fst (MkdirAll (NewMem (\<lambda>n. int n)) ''a/b'' 493)) ''a'' = Inr es \<and>
    set (map dname es) = {x. is_part x \<and> ''a/'' @ x \<in> keys (fst (MkdirAll (NewMem (\<lambda>n. int n)) ''a/b'' 493))}"
proof -
  let ?m = "fst (MkdirAll (NewMem (\<lambda>n. int n)) ''a/b'' 493)"
  have r: "reach (\<lambda>m. m = NewMem (\<lambda>n. int n)) mem_step ?m"
    by (rule mkdir_reach)
  have c: "path_Clean ''a'' = ''a''" "''a'' \<noteq> ''.''" "is_dir ?m ''a''" by code_simp+
  show ?thesis using vfs_listing [OF r c] by auto
qed

text \<open>\<^verbatim>\<open>MkdirAll\<close> is all or nothing: it fails only on a path element that is a file, changing
  nothing; a success keeps every entry, and what it adds are directories.\<close>

theorem MkdirAll_atomic:
  "case MkdirAll m path p of
     (m', Some err) \<Rightarrow> m' = m \<and> Err err = NotDirectory \<and> ErrPath err \<in> keys m \<and> \<not> is_dir m (ErrPath err)
   | (m', None) \<Rightarrow> (is_root (path_Clean path) \<or> is_dir m' (path_Clean path)) \<and>
       map_of (mfiles m) \<subseteq>\<^sub>m map_of (mfiles m') \<and> (\<forall>q\<in>keys m' - keys m. is_dir m' q)"
proof -
  obtain m' r where r: "mkdirAllLocked m (path_Clean path) p = (m', r)" by fastforce
  have "path_Clean path \<noteq> ''''" using path_Clean_idem [of path] by (auto simp: path_Clean_def)
  then show ?thesis using mkdir_exact [OF r] r by (auto simp: MkdirAll_def split: option.splits)
qed

text \<open>The root is the exception: its prefix \<^verbatim>\<open>./\<close> starts no stored path, so \<^verbatim>\<open>Remove\<close> takes it
  away whatever it holds, and \<^verbatim>\<open>Stat\<close> of it fails from then on.\<close>

theorem Remove_root:
  assumes "mem_inv m" "''.'' \<in> keys m"
  shows "snd (Remove m ''.'') = None \<and> Stat (fst (Remove m ''.'')) ''.'' = Inl (PathError ''stat'' ''.'' ErrNotExist)"
proof -
  have dot: "path_Clean ''.'' = ''.''" by code_simp
  have "\<not> has_child m ''.''"
  proof
    assume "has_child m ''.''"
    then obtain q where "q \<in> keys m" "prefix (''.'' @ ''/'') q" by (auto simp: has_child_def keys_def)
    then obtain z where z: "''.'' @ CHR ''/'' # z \<in> keys m" by (auto simp: prefix_def)
    then have cl: "path_Clean (''.'' @ CHR ''/'' # z) = ''.'' @ CHR ''/'' # z"
      using assms(1) unfolding mem_inv_def by blast
    then show False using clean_no_dot by blast
  qed
  then show ?thesis
    using assms(2) dot by (auto simp: Remove_def Stat_def Let_def keys_iff delete_conv')
qed

text \<open>The entry of a name can be a descendant's: with the directory \<^verbatim>\<open>a\<close> and the file
  \<^verbatim>\<open>a/b\<close>, whether the listing says that \<^verbatim>\<open>a\<close> is a directory depends on which of the two the map's
  iteration reaches first.\<close>

theorem ReadDir_wrong_entry:
  fixes d f :: mem_entry
  assumes "dir d" "\<not> dir f"
  shows "map_sum id (map (dir \<circ> dentry)) (ReadDir \<lparr>mfiles = [(''a'', d), (''a/b'', f)], mnow = None, readings = 0\<rparr> ''.'') = Inr [True] \<and>
    map_sum id (map (dir \<circ> dentry)) (ReadDir \<lparr>mfiles = [(''a/b'', f), (''a'', d)], mnow = None, readings = 0\<rparr> ''.'') = Inr [False]"
proof -
  have c: "path_Clean ''.'' = ''.''" "relativeChild ''a'' '''' = Some ''a''" "relativeChild ''a/b'' '''' = Some ''a''"
    by code_simp+
  show ?thesis using assms by (simp add: ReadDir_def assertReadDirTarget_def Let_def c)
qed

text \<open>The root of absolute paths is no entry: \<^verbatim>\<open>MkdirAll\<close> takes it for present and stores nothing, while listing it and
  asking for it fail, whatever lies below it.\<close>

theorem slash_is_missing:
  assumes "reach (\<lambda>m. m = NewMem f) mem_step m"
  shows "MkdirAll m ''/'' p = (m, None) \<and> ReadDir m ''/'' = Inl (PathError ''open'' ''/'' ErrNotExist) \<and>
    Stat m ''/'' = Inl (PathError ''stat'' ''/'' ErrNotExist)"
proof -
  have "mem_inv m" by (rule vfs.inv_reach [OF assms])
  then have "map_of (mfiles m) ''/'' = None" by (auto simp: mem_inv_def keys_def map_of_eq_None_iff)
  moreover have "path_Clean ''/'' = ''/''" by code_simp
  ultimately show ?thesis
    by (simp add: MkdirAll_def mkdir_root is_root_def ReadDir_def assertReadDirTarget_def Stat_def)
qed

theorem slash_is_missing_witness:
  "ReadDir (fst (MkdirAll (NewMem (\<lambda>n. int n)) ''/a'' 493)) ''/'' = Inl (PathError ''open'' ''/'' ErrNotExist)"
  using slash_is_missing [OF mkdir_reach] by blast

end
