(* ===== verification/Eventbus.thy ===== *)
theory Eventbus
  imports Prelude "HOL-Library.AList" "HOL-Library.Word"
begin

text \<open>
  The event bus (\<^verbatim>\<open>internal/eventbus/eventbus.go\<close>). The synchronous bus is a map of handlers by
  subscription number; \<^verbatim>\<open>Publish\<close> takes its lock twice, so it is given as its two sections.
  The asynchronous bus is in \<^verbatim>\<open>Eventbus_Async\<close>.
\<close>

section \<open>Sorting the ids\<close>

text \<open>The inner loop of the insertion sort: position \<open>j\<close> moves down while its predecessor is
  larger.\<close>

fun sort_inner :: "64 word list \<Rightarrow> nat \<Rightarrow> 64 word list" where
  "sort_inner ids 0 = ids"
| "sort_inner ids (Suc j) =
    (if ids ! j > ids ! Suc j then sort_inner (ids[Suc j := ids ! j, j := ids ! Suc j]) j else ids)"

definition sortIDs :: "64 word list \<Rightarrow> 64 word list" where
  "sortIDs ids = foldl sort_inner ids [1..<length ids]"

lemma insort_snoc:
  fixes x z :: "'a::linorder"
  assumes "sorted (zs @ [z])"
  shows "insort x (zs @ [z]) = (if z > x then insort x zs @ [z] else zs @ [z, x])"
proof -
  have s: "sorted zs" using assms by (simp add: sorted_append)
  have "sort (x # zs @ [z]) = (if z > x then insort x zs @ [z] else zs @ [z, x])"
    using assms s by (intro properties_for_sort) (auto simp: sorted_append sorted_insort set_insort_key)
  then show ?thesis using assms by (simp add: sorted_sort_id)
qed

lemma sort_inner_insort:
  "sorted ys \<Longrightarrow> sort_inner (ys @ x # rest) (length ys) = insort x ys @ rest"
proof (induction ys arbitrary: rest rule: rev_induct)
  case (snoc z zs)
  have s: "sorted zs" using snoc.prems by (simp add: sorted_append)
  have swap: "(zs @ z # x # rest)[Suc (length zs) := z, length zs := x] = zs @ x # z # rest"
    by (simp add: list_update_append)
  show ?case
    using snoc.IH [OF s, of "z # rest"] swap insort_snoc [OF snoc.prems, of x]
    by (auto simp: nth_append)
qed simp

lemma sort_prefix:
  "i \<le> length ids \<Longrightarrow> foldl sort_inner ids [1..<i] = sort (take i ids) @ drop i ids"
proof (induction i)
  case (Suc i)
  show ?case
  proof (cases "i = 0")
    case True
    then show ?thesis using Suc.prems by (cases ids) auto
  next
    case False
    then have "foldl sort_inner ids [1..<Suc i] = sort_inner (foldl sort_inner ids [1..<i]) i" by simp
    also have "\<dots> = sort_inner (sort (take i ids) @ ids ! i # drop (Suc i) ids) (length (sort (take i ids)))"
      using Suc by (simp add: Cons_nth_drop_Suc)
    also have "\<dots> = insort (ids ! i) (sort (take i ids)) @ drop (Suc i) ids"
      by (rule sort_inner_insort) simp
    also have "insort (ids ! i) (sort (take i ids)) = sort (take (Suc i) ids)"
    proof (rule properties_for_sort [symmetric])
      show "mset (insort (ids ! i) (sort (take i ids))) = mset (take (Suc i) ids)"
        using Suc.prems by (simp add: take_Suc_conv_app_nth)
      show "sorted (insort (ids ! i) (sort (take i ids)))" by (simp add: sorted_insort)
    qed
    finally show ?thesis .
  qed
qed simp

lemma sortIDs_sort: "sortIDs ids = sort ids"
  using sort_prefix [of "length ids" ids] by (simp add: sortIDs_def)

section \<open>The synchronous bus\<close>

record 'h sync =
  nextID :: "64 word"
  handlers :: "(64 word \<times> 'h) list"

text \<open>An unsubscribe function: the id it captured and its \<^verbatim>\<open>sync.Once\<close>.\<close>

record off =
  off_id :: "64 word"
  off_done :: bool

definition NewSync :: "'h sync" where
  "NewSync = \<lparr>nextID = 0, handlers = []\<rparr>"

definition Sync_Subscribe :: "'h sync \<Rightarrow> 'h option \<Rightarrow> 'h sync \<times> off option" where
  "Sync_Subscribe b handler =
    (case handler of
       None \<Rightarrow> (b, None)
     | Some h \<Rightarrow>
         (let id = nextID b in
          (b\<lparr>nextID := id + 1, handlers := AList.update id h (handlers b)\<rparr>, Some \<lparr>off_id = id, off_done = False\<rparr>)))"

definition Sync_off :: "'h sync \<Rightarrow> off \<Rightarrow> 'h sync \<times> off" where
  "Sync_off b off =
    (if off_done off then (b, off)
     else (b\<lparr>handlers := AList.delete (off_id off) (handlers b)\<rparr>, off\<lparr>off_done := True\<rparr>))"

text \<open>The first locked section of \<^verbatim>\<open>Publish\<close> with the sort, and the second one; the handlers then
  run in this order with no lock held.\<close>

definition Publish_ids :: "'h sync \<Rightarrow> 64 word list" where
  "Publish_ids b = sortIDs (map fst (handlers b))"

definition Publish_handlers :: "'h sync \<Rightarrow> 64 word list \<Rightarrow> 'h list" where
  "Publish_handlers b ids = List.map_filter (map_of (handlers b)) ids"

definition Sync_Publish :: "'h sync \<Rightarrow> 'h list" where
  "Sync_Publish b = Publish_handlers b (Publish_ids b)"

definition Sync_Subscribers :: "'h sync \<Rightarrow> nat" where
  "Sync_Subscribers b = length (handlers b)"

text \<open>A client: it subscribes and calls the unsubscribe functions it was given, each as often as
  it likes.\<close>

datatype 'h sync_op = OpSubscribe 'h | OpSubscribeNil | OpOff nat

type_synonym 'h client = "'h sync \<times> off list"

fun client_op :: "'h client \<Rightarrow> 'h sync_op \<Rightarrow> 'h client" where
  "client_op (b, offs) (OpSubscribe h) =
    (case Sync_Subscribe b (Some h) of (b', Some off) \<Rightarrow> (b', offs @ [off]) | (b', None) \<Rightarrow> (b', offs))"
| "client_op (b, offs) OpSubscribeNil = (fst (Sync_Subscribe b None), offs)"
| "client_op (b, offs) (OpOff k) =
    (if k < length offs then (case Sync_off b (offs ! k) of (b', off) \<Rightarrow> (b', offs[k := off])) else (b, offs))"

definition client_run :: "'h sync_op list \<Rightarrow> 'h client" where
  "client_run ops = foldl client_op (NewSync, []) ops"

text \<open>The specification: the live subscriptions in the order they were made, each with its
  number.\<close>

fun spec_op :: "nat \<times> (nat \<times> 'h) list \<Rightarrow> 'h sync_op \<Rightarrow> nat \<times> (nat \<times> 'h) list" where
  "spec_op (n, subs) (OpSubscribe h) = (Suc n, subs @ [(n, h)])"
| "spec_op (n, subs) OpSubscribeNil = (n, subs)"
| "spec_op (n, subs) (OpOff k) = (n, filter (\<lambda>(i, h). i \<noteq> k) subs)"

definition spec_run :: "'h sync_op list \<Rightarrow> nat \<times> (nat \<times> 'h) list" where
  "spec_run ops = foldl spec_op (0, []) ops"

definition live :: "'h sync_op list \<Rightarrow> 'h list" where
  "live ops = map snd (snd (spec_run ops))"

fun bus_abs :: "'h client \<Rightarrow> nat \<times> (nat \<times> 'h) list \<Rightarrow> bool" where
  "bus_abs (b, offs) (n, subs) \<longleftrightarrow>
    length offs = n \<and> nextID b = of_nat n \<and> handlers b = map (\<lambda>(i, h). (of_nat i, h)) subs \<and>
    (\<forall>k<n. off_id (offs ! k) = of_nat k \<and> (off_done (offs ! k) \<longrightarrow> k \<notin> fst ` set subs)) \<and>
    sorted_wrt (<) (map fst subs) \<and> (\<forall>i\<in>fst ` set subs. i < n)"

lemma update_fresh: "k \<notin> fst ` set xs \<Longrightarrow> AList.update k v xs = xs @ [(k, v)]"
  by (induction xs) auto

lemma of_nat_64_inj: "i < 2 ^ 64 \<Longrightarrow> j < 2 ^ 64 \<Longrightarrow> (of_nat i :: 64 word) = of_nat j \<longleftrightarrow> i = j"
  by (simp add: word_of_nat_eq_iff take_bit_nat_eq_self)

lemma of_nat_64_less: "i < 2 ^ 64 \<Longrightarrow> j < 2 ^ 64 \<Longrightarrow> (of_nat i :: 64 word) < of_nat j \<longleftrightarrow> i < j"
  by (simp add: word_of_nat_less_iff take_bit_nat_eq_self)

lemma client_op_simulates:
  assumes "bus_abs (b, offs) (n, subs)" "n < 2 ^ 64"
  shows "bus_abs (client_op (b, offs) op) (spec_op (n, subs) op)"
proof (cases op)
  case (OpSubscribe h)
  have fresh: "of_nat n \<notin> fst ` set (map (\<lambda>(i, h). (of_nat i :: 64 word, h)) subs)"
  proof
    assume "of_nat n \<in> fst ` set (map (\<lambda>(i, h). (of_nat i :: 64 word, h)) subs)"
    then obtain i g where i: "(i, g) \<in> set subs" "(of_nat n :: 64 word) = of_nat i" by auto
    then have "i < n" using assms(1) by fastforce
    then show False using of_nat_64_inj [of n i] i(2) assms(2) by linarith
  qed
  show ?thesis
    using assms(1) fresh OpSubscribe
    by (auto simp: Sync_Subscribe_def Let_def update_fresh nth_append sorted_wrt_append less_Suc_eq)
next
  case OpSubscribeNil
  then show ?thesis using assms by (simp add: Sync_Subscribe_def)
next
  case (OpOff k)
  have absent: "filter (\<lambda>(i, h). i \<noteq> k) subs = subs" if "k \<notin> fst ` set subs"
    using that by (force simp: filter_id_conv)
  show ?thesis
  proof (cases "k < n \<and> \<not> off_done (offs ! k)")
    case True
    have i: "i < 2 ^ 64" if "(i, g) \<in> set subs" for i g
    proof -
      have "i < n" using assms(1) that by fastforce
      then show ?thesis using assms(2) by simp
    qed
    have inj: "(of_nat k :: 64 word) = of_nat i \<longleftrightarrow> k = i" if "(i, g) \<in> set subs" for i g
      using i [OF that] True assms(2) by (intro of_nat_64_inj) auto
    have "filter (\<lambda>(j, _). of_nat k \<noteq> j) (map (\<lambda>(i, h). (of_nat i :: 64 word, h)) subs) =
        map (\<lambda>(i, h). (of_nat i, h)) (filter (\<lambda>(i, h). i \<noteq> k) subs)"
      unfolding filter_map comp_def
      using inj by (intro arg_cong [where f = "map _"] filter_cong) auto
    moreover have "sorted_wrt (<) (map fst (filter (\<lambda>(i, h). i \<noteq> k) subs))"
      using assms(1) by (auto simp: sorted_wrt_map intro: sorted_wrt_filter)
    ultimately show ?thesis
      using True assms(1) OpOff
      by (auto simp: Sync_off_def AList.delete_eq nth_list_update)
  next
    case False
    then have "k \<notin> fst ` set subs" using assms(1) by force
    then show ?thesis
      using absent False assms(1) OpOff by (auto simp: Sync_off_def)
  qed
qed

lemma spec_count: "fst (spec_op s op) \<le> Suc (fst s)"
  by (cases "(s, op)" rule: spec_op.cases) auto

lemma client_run_simulates:
  "length ops \<le> 2 ^ 64 \<Longrightarrow> bus_abs (client_run ops) (spec_run ops) \<and> fst (spec_run ops) \<le> length ops"
proof (induction ops rule: rev_induct)
  case Nil
  then show ?case by (simp add: client_run_def spec_run_def NewSync_def)
next
  case (snoc op ops)
  obtain b offs where c: "client_run ops = (b, offs)" by fastforce
  obtain n subs where s: "spec_run ops = (n, subs)" by fastforce
  have ih: "bus_abs (b, offs) (n, subs)" "n \<le> length ops" using snoc c s by simp_all
  then have "n < 2 ^ 64" using snoc.prems by simp
  then have "bus_abs (client_op (b, offs) op) (spec_op (n, subs) op)"
    using ih(1) by (rule client_op_simulates [rotated])
  moreover have "fst (spec_op (n, subs) op) \<le> Suc n" using spec_count [of "(n, subs)" op] by simp
  ultimately show ?case using ih(2) c s by (simp add: client_run_def spec_run_def)
qed

section \<open>Properties of the synchronous bus\<close>

lemma publish_sections:
  "Publish_handlers b' (Publish_ids b) = List.map_filter (map_of (handlers b')) (sort (map fst (handlers b)))"
  by (simp add: Publish_handlers_def Publish_ids_def sortIDs_sort)

lemma map_filter_keys:
  assumes "distinct (map fst xs)"
  shows "List.map_filter (map_of xs) (map fst xs) = map snd xs"
proof -
  have "\<forall>(k, v)\<in>set ys. f k = Some v \<Longrightarrow> List.map_filter f (map fst ys) = map snd ys"
    for f :: "'a \<rightharpoonup> 'b" and ys
    by (induction ys) (auto simp: map_filter_simps)
  then show ?thesis using assms by auto
qed

lemma client_handlers:
  assumes "client_run ops = (b, offs)" "length ops \<le> 2 ^ 64"
  obtains subs where "spec_run ops = (length offs, subs)"
    "handlers b = map (\<lambda>(i, h). (of_nat i, h)) subs" "sorted_wrt (<) (map fst (handlers b))"
proof -
  obtain n subs where s: "spec_run ops = (n, subs)" by fastforce
  have r: "bus_abs (b, offs) (n, subs)" "n \<le> length ops"
    using client_run_simulates [OF assms(2)] assms(1) s by simp_all
  have "sorted_wrt (\<lambda>i j. (of_nat i :: 64 word) < of_nat j) (map fst subs)"
  proof (rule sorted_wrt_mono_rel)
    show "sorted_wrt (<) (map fst subs)" using r(1) by simp
    fix i j
    assume "i \<in> set (map fst subs)" "j \<in> set (map fst subs)" "i < j"
    then have "i < n" "j < n" using r(1) by auto
    with r(2) assms(2) \<open>i < j\<close> show "(of_nat i :: 64 word) < of_nat j" by (simp add: of_nat_64_less)
  qed
  then have "sorted_wrt (<) (map fst (handlers b))"
    using r(1) by (simp add: sorted_wrt_map split_beta)
  then show ?thesis using that r(1) s by simp
qed

text \<open>(C28) A publish calls exactly the live handlers, once each and in the order in which they
  subscribed, in whatever order the map is iterated; the handler count is theirs. Unsubscribing
  twice, or a nil handler, changes nothing. The bound is the number of ids.\<close>

theorem bus_delivers_in_order:
  assumes "client_run ops = (b, offs)" "length ops \<le> 2 ^ 64" "mset hs = mset (handlers b)"
  shows "Sync_Publish (b\<lparr>handlers := hs\<rparr>) = live ops \<and> Sync_Subscribers (b\<lparr>handlers := hs\<rparr>) = length (live ops)"
proof -
  obtain subs where s: "spec_run ops = (length offs, subs)"
    "handlers b = map (\<lambda>(i, h). (of_nat i, h)) subs" "sorted_wrt (<) (map fst (handlers b))"
    by (rule client_handlers [OF assms(1,2)])
  have d: "distinct (map fst (handlers b))" and so: "sorted (map fst (handlers b))"
    using s(3) by (simp_all add: strict_sorted_iff)
  have "mset (map fst hs) = mset (map fst (handlers b))" using assms(3) by (simp add: mset_map)
  then have "sort (map fst hs) = map fst (handlers b)"
    using so by (intro properties_for_sort) simp_all
  moreover have "map_of hs = map_of (handlers b)"
    using map_of_perm [OF d assms(3) [symmetric]] by simp
  ultimately have "Sync_Publish (b\<lparr>handlers := hs\<rparr>) = map snd (handlers b)"
    using map_filter_keys [OF d] by (simp add: Sync_Publish_def publish_sections)
  moreover have "map snd (handlers b) = live ops" using s(1,2) by (simp add: live_def split_beta comp_def)
  moreover have "length hs = length (live ops)"
    using assms(3) s(1,2) by (metis length_map live_def size_mset snd_conv)
  ultimately show ?thesis by (simp add: Sync_Subscribers_def)
qed

theorem bus_delivers_in_order_witness:
  "let b = fst (client_run [OpSubscribe ''a'', OpSubscribe ''b'', OpSubscribeNil, OpOff 0, OpOff 0, OpSubscribe ''c'']) in
    Sync_Publish (b\<lparr>handlers := rev (handlers b)\<rparr>) = [''b'', ''c'']"
proof -
  let ?ops = "[OpSubscribe ''a'', OpSubscribe ''b'', OpSubscribeNil, OpOff 0, OpOff 0, OpSubscribe ''c'']"
  have "live ?ops = [''b'', ''c'']" by (simp add: live_def spec_run_def)
  moreover have "length ?ops \<le> 2 ^ 64" by simp
  ultimately show ?thesis
    using bus_delivers_in_order [of ?ops "fst (client_run ?ops)" "snd (client_run ?ops)"
        "rev (handlers (fst (client_run ?ops)))"]
    by (simp add: Let_def)
qed

lemma set_map_filter_Some: "set (List.map_filter f ks) = {y. \<exists>k\<in>set ks. f k = Some y}"
  by (induction ks) (auto simp: map_filter_simps split: option.splits)

text \<open>With other goroutines between the two sections of a publish, a handler is called exactly when
  it was subscribed at the first and still is at the second: one added in between is not called.\<close>

theorem Publish_in_flight:
  "set (Publish_handlers b' (Publish_ids b)) =
    {h. \<exists>i\<in>fst ` set (handlers b). map_of (handlers b') i = Some h}"
  by (simp add: publish_sections set_map_filter_Some)

end
