(* ===== verification/Eventbus_Async.thy ===== *)
theory Eventbus_Async
  imports Eventbus
begin

text \<open>
  The asynchronous bus (\<^verbatim>\<open>internal/eventbus/eventbus.go\<close>) as a system of goroutines: the
  publishers, the subscribing calls between their check of \<^verbatim>\<open>closed\<close> and their lock, one worker for
  each subscription, and the call of \<^verbatim>\<open>Close\<close>. A step is a locked section, a channel operation or
  an access to an atomic. \<open>accepted\<close>, \<open>handled\<close> and \<open>rejected\<close> record what happened and are read by
  no step. Calls of the handlers are the entries of \<open>handled\<close>.
\<close>

section \<open>State\<close>

datatype worker = NotStarted | Waiting | Draining | Exited

record 'e async_sub =
  sub_id :: "64 word"
  queue :: "'e list"
  stopped :: bool
  worker :: worker
  accepted :: "'e list"
  handled :: "'e list"

text \<open>A call of \<^verbatim>\<open>Publish\<close> past the check of \<^verbatim>\<open>closed\<close>, and past its locked section with the
  subscriptions it still has to send to; a call of \<^verbatim>\<open>Close\<close>.\<close>

datatype 'e publisher = Checked 'e | Sending 'e "nat list"
datatype closer = NoCloser | Won | WaitingAll | Returned

record async_config =
  BufferSize :: int
  DropWhenFull :: bool

record 'e async =
  cfg :: async_config
  anext :: "64 word"
  asubs :: "(64 word \<times> nat) list"
  objs :: "'e async_sub list"
  dropped :: "64 word"
  closed :: bool
  closedWg :: nat
  subscribing :: nat
  publishers :: "'e publisher list"
  closer :: closer
  rejected :: "'e list"

definition NewAsync :: "async_config \<Rightarrow> 'e async" where
  "NewAsync c =
    \<lparr>cfg = (if BufferSize c \<le> 0 then c\<lparr>BufferSize := 16\<rparr> else c), anext = 0, asubs = [], objs = [], dropped = 0,
     closed = False, closedWg = 0, subscribing = 0, publishers = [], closer = NoCloser, rejected = []\<rparr>"

definition on_sub :: "nat \<Rightarrow> ('e async_sub \<Rightarrow> 'e async_sub) \<Rightarrow> 'e async \<Rightarrow> 'e async" where
  "on_sub i f b = b\<lparr>objs := (objs b)[i := f (objs b ! i)]\<rparr>"

definition stop_sub :: "'e async_sub \<Rightarrow> 'e async_sub" where
  "stop_sub s = s\<lparr>stopped := True\<rparr>"

section \<open>Operations\<close>

text \<open>\<^verbatim>\<open>Subscribe\<close>: the check, the locked section, and the start of the worker.\<close>

definition subscribe_check :: "'e async \<Rightarrow> 'e async" where
  "subscribe_check b = (if closed b then b else b\<lparr>subscribing := Suc (subscribing b)\<rparr>)"

definition subscribe_insert :: "'e async \<Rightarrow> 'e async" where
  "subscribe_insert b =
    (let id = anext b in
     b\<lparr>subscribing := subscribing b - 1, anext := id + 1, asubs := AList.update id (length (objs b)) (asubs b),
       objs := objs b @ [\<lparr>sub_id = id, queue = [], stopped = False, worker = NotStarted, accepted = [], handled = []\<rparr>]\<rparr>)"

definition subscribe_start :: "nat \<Rightarrow> 'e async \<Rightarrow> 'e async" where
  "subscribe_start i b = on_sub i (\<lambda>s. s\<lparr>worker := Waiting\<rparr>) (b\<lparr>closedWg := Suc (closedWg b)\<rparr>)"

text \<open>The unsubscribe function of a subscription; a second call finds it gone from the map.\<close>

definition Async_off :: "nat \<Rightarrow> 'e async \<Rightarrow> 'e async" where
  "Async_off i b =
    (let id = sub_id (objs b ! i) in
     if map_of (asubs b) id = Some i then on_sub i stop_sub (b\<lparr>asubs := AList.delete id (asubs b)\<rparr>) else b)"

definition publish_check :: "'e \<Rightarrow> 'e async \<Rightarrow> 'e async" where
  "publish_check e b = (if closed b then b else b\<lparr>publishers := publishers b @ [Checked e]\<rparr>)"

definition publish_snapshot :: "nat \<Rightarrow> 'e \<Rightarrow> nat list \<Rightarrow> 'e async \<Rightarrow> 'e async" where
  "publish_snapshot k e subs b = b\<lparr>publishers := (publishers b)[k := Sending e subs]\<rparr>"

definition enqueue :: "'e \<Rightarrow> 'e async_sub \<Rightarrow> 'e async_sub" where
  "enqueue e s = s\<lparr>queue := queue s @ [e], accepted := accepted s @ [e]\<rparr>"

definition has_room :: "'e async \<Rightarrow> nat \<Rightarrow> bool" where
  "has_room b i \<longleftrightarrow> int (length (queue (objs b ! i))) < BufferSize (cfg b)"

definition next_send :: "nat \<Rightarrow> 'e \<Rightarrow> nat list \<Rightarrow> 'e async \<Rightarrow> 'e async" where
  "next_send k e subs b = b\<lparr>publishers := (publishers b)[k := Sending e subs]\<rparr>"

definition send_ok :: "nat \<Rightarrow> 'e \<Rightarrow> nat \<Rightarrow> nat list \<Rightarrow> 'e async \<Rightarrow> 'e async" where
  "send_ok k e i subs b = next_send k e subs (on_sub i (enqueue e) b)"

definition send_drop :: "nat \<Rightarrow> 'e \<Rightarrow> nat list \<Rightarrow> 'e async \<Rightarrow> 'e async" where
  "send_drop k e subs b = next_send k e subs (b\<lparr>dropped := dropped b + 1, rejected := rejected b @ [e]\<rparr>)"

definition worker_take :: "nat \<Rightarrow> 'e async \<Rightarrow> 'e async" where
  "worker_take i b = on_sub i (\<lambda>s. s\<lparr>queue := tl (queue s), handled := handled s @ [hd (queue s)]\<rparr>) b"

definition worker_drain :: "nat \<Rightarrow> 'e async \<Rightarrow> 'e async" where
  "worker_drain i b = on_sub i (\<lambda>s. s\<lparr>worker := Draining\<rparr>) b"

definition worker_exit :: "nat \<Rightarrow> 'e async \<Rightarrow> 'e async" where
  "worker_exit i b = on_sub i (\<lambda>s. s\<lparr>worker := Exited\<rparr>) (b\<lparr>closedWg := closedWg b - 1\<rparr>)"

definition close_cas :: "'e async \<Rightarrow> 'e async" where
  "close_cas b = b\<lparr>closed := True, closer := Won\<rparr>"

definition close_all :: "'e async \<Rightarrow> 'e async" where
  "close_all b = foldl (\<lambda>b i. on_sub i stop_sub b) (b\<lparr>asubs := [], closer := WaitingAll\<rparr>) (map snd (asubs b))"

definition Async_Subscribers :: "'e async \<Rightarrow> nat" where
  "Async_Subscribers b = length (asubs b)"

definition Async_Stats :: "'e async \<Rightarrow> 64 word" where
  "Async_Stats b = dropped b"

section \<open>The system\<close>

text \<open>The select of \<^verbatim>\<open>runSub\<close> takes any ready case; so does the blocking select of \<^verbatim>\<open>Publish\<close>.\<close>

inductive async_step :: "'e async \<Rightarrow> 'e async \<Rightarrow> bool" where
  as_check: "async_step b (subscribe_check b)"
| as_insert: "0 < subscribing b \<Longrightarrow> async_step b (subscribe_insert b)"
| as_start: "i < length (objs b) \<Longrightarrow> worker (objs b ! i) = NotStarted \<Longrightarrow> async_step b (subscribe_start i b)"
| as_off: "i < length (objs b) \<Longrightarrow> async_step b (Async_off i b)"
| as_publish: "async_step b (publish_check e b)"
| as_snapshot: "k < length (publishers b) \<Longrightarrow> publishers b ! k = Checked e \<Longrightarrow> mset subs = mset (map snd (asubs b)) \<Longrightarrow>
    async_step b (publish_snapshot k e subs b)"
| as_send: "k < length (publishers b) \<Longrightarrow> publishers b ! k = Sending e (i # subs) \<Longrightarrow> has_room b i \<Longrightarrow>
    async_step b (send_ok k e i subs b)"
| as_drop: "k < length (publishers b) \<Longrightarrow> publishers b ! k = Sending e (i # subs) \<Longrightarrow> DropWhenFull (cfg b) \<Longrightarrow>
    \<not> has_room b i \<Longrightarrow> async_step b (send_drop k e subs b)"
| as_gone: "k < length (publishers b) \<Longrightarrow> publishers b ! k = Sending e (i # subs) \<Longrightarrow> \<not> DropWhenFull (cfg b) \<Longrightarrow>
    stopped (objs b ! i) \<Longrightarrow> async_step b (next_send k e subs b)"
| as_take: "i < length (objs b) \<Longrightarrow> worker (objs b ! i) \<in> {Waiting, Draining} \<Longrightarrow> queue (objs b ! i) \<noteq> [] \<Longrightarrow>
    async_step b (worker_take i b)"
| as_drain: "i < length (objs b) \<Longrightarrow> worker (objs b ! i) = Waiting \<Longrightarrow> stopped (objs b ! i) \<Longrightarrow>
    async_step b (worker_drain i b)"
| as_exit: "i < length (objs b) \<Longrightarrow> worker (objs b ! i) = Draining \<Longrightarrow> queue (objs b ! i) = [] \<Longrightarrow>
    async_step b (worker_exit i b)"
| as_cas: "\<not> closed b \<Longrightarrow> async_step b (close_cas b)"
| as_close: "closer b = Won \<Longrightarrow> async_step b (close_all b)"
| as_return: "closer b = WaitingAll \<Longrightarrow> closedWg b = 0 \<Longrightarrow> async_step b (b\<lparr>closer := Returned\<rparr>)"

section \<open>The invariant\<close>

definition running :: "'e async_sub \<Rightarrow> bool" where
  "running s \<longleftrightarrow> worker s = Waiting \<or> worker s = Draining"

definition sub_ok :: "int \<Rightarrow> 'e async_sub \<Rightarrow> bool" where
  "sub_ok cap s \<longleftrightarrow> accepted s = handled s @ queue s \<and> int (length (queue s)) \<le> cap \<and>
    (worker s = Draining \<or> worker s = Exited \<longrightarrow> stopped s)"

definition targets_ok :: "nat \<Rightarrow> 'e publisher \<Rightarrow> bool" where
  "targets_ok n p \<longleftrightarrow> (\<forall>e subs. p = Sending e subs \<longrightarrow> (\<forall>i\<in>set subs. i < n))"

definition async_inv :: "'e async \<Rightarrow> bool" where
  "async_inv b \<longleftrightarrow>
    0 < BufferSize (cfg b) \<and> (\<forall>s\<in>set (objs b). sub_ok (BufferSize (cfg b)) s) \<and>
    closedWg b = length (filter running (objs b)) \<and>
    (\<forall>i\<in>snd ` set (asubs b). i < length (objs b)) \<and>
    (\<forall>p\<in>set (publishers b). targets_ok (length (objs b)) p) \<and>
    dropped b = of_nat (length (rejected b)) \<and> (rejected b \<noteq> [] \<longrightarrow> DropWhenFull (cfg b))"

lemma filter_update_count:
  "i < length xs \<Longrightarrow>
    length (filter P (xs[i := y])) + of_bool (P (xs ! i)) = length (filter P xs) + of_bool (P y)"
proof (induction xs arbitrary: i)
  case (Cons x xs)
  show ?case
  proof (cases i)
    case (Suc j)
    then show ?thesis using Cons.IH [of j] Cons.prems by (cases "P x") auto
  qed auto
qed simp

lemma on_sub_inv:
  assumes "async_inv b" "i < length (objs b)" "sub_ok (BufferSize (cfg b)) (f (objs b ! i))"
    and "n + of_bool (running (objs b ! i)) = closedWg b + of_bool (running (f (objs b ! i)))"
  shows "async_inv (on_sub i f (b\<lparr>closedWg := n\<rparr>))"
  using assms filter_update_count [OF assms(2), of running "f (objs b ! i)"]
  by (auto simp: async_inv_def on_sub_def dest!: set_update_subset_insert [THEN subsetD])

lemma on_sub_same_inv:
  assumes "async_inv b" "i < length (objs b)" "sub_ok (BufferSize (cfg b)) (f (objs b ! i))"
    and "running (f (objs b ! i)) = running (objs b ! i)"
  shows "async_inv (on_sub i f b)"
  using on_sub_inv [of b i f "closedWg b"] assms by simp

lemma obj_ok: "async_inv b \<Longrightarrow> i < length (objs b) \<Longrightarrow> sub_ok (BufferSize (cfg b)) (objs b ! i)"
  by (simp add: async_inv_def)

lemma target_ok:
  "async_inv b \<Longrightarrow> k < length (publishers b) \<Longrightarrow> publishers b ! k = Sending e (i # subs) \<Longrightarrow>
    i < length (objs b) \<and> targets_ok (length (objs b)) (Sending e subs)"
  by (auto simp: async_inv_def targets_ok_def dest!: nth_mem)

lemma next_send_inv:
  assumes "async_inv b" "targets_ok (length (objs b)) (Sending e subs)"
  shows "async_inv (next_send k e subs b)"
  using assms by (auto simp: async_inv_def next_send_def dest!: set_update_subset_insert [THEN subsetD])

lemma stop_sub_ok: "sub_ok n s \<Longrightarrow> sub_ok n (stop_sub s)"
  by (simp add: sub_ok_def stop_sub_def)

lemma running_stop [simp]: "running (stop_sub s) = running s"
  by (simp add: stop_sub_def running_def)

lemma stop_inv: "async_inv b \<Longrightarrow> i < length (objs b) \<Longrightarrow> async_inv (on_sub i stop_sub b)"
  by (rule on_sub_same_inv) (simp_all add: stop_sub_ok obj_ok)

lemma stop_all_inv:
  "async_inv b \<Longrightarrow> \<forall>i\<in>set is. i < length (objs b) \<Longrightarrow> async_inv (foldl (\<lambda>b i. on_sub i stop_sub b) b is)"
proof (induction "is" arbitrary: b)
  case (Cons i "is")
  have "async_inv (on_sub i stop_sub b)" by (rule stop_inv) (use Cons.prems in auto)
  moreover have "length (objs (on_sub i stop_sub b)) = length (objs b)" by (simp add: on_sub_def)
  ultimately show ?case using Cons by simp
qed simp

lemma NewAsync_inv: "async_inv (NewAsync c)"
  by (simp add: NewAsync_def async_inv_def)

lemma async_step_inv: "async_step b b' \<Longrightarrow> async_inv b \<Longrightarrow> async_inv b'"
proof (induction rule: async_step.induct)
  case (as_check b)
  then show ?case by (simp add: subscribe_check_def async_inv_def)
next
  case (as_insert b)
  have "snd ` set (AList.update k v xs) \<subseteq> insert v (snd ` set xs)" for k :: "64 word" and v :: nat and xs
    by (induction xs) auto
  then have "\<forall>i\<in>snd ` set (AList.update (anext b) (length (objs b)) (asubs b)). i < Suc (length (objs b))"
    using as_insert by (fastforce simp: async_inv_def)
  then show ?case
    using as_insert by (auto simp: subscribe_insert_def async_inv_def Let_def sub_ok_def running_def targets_ok_def less_Suc_eq)
next
  case (as_start i b)
  then show ?case
    unfolding subscribe_start_def by (intro on_sub_inv) (use obj_ok [of b i] in \<open>auto simp: running_def sub_ok_def\<close>)
next
  case (as_off i b)
  have "async_inv (b\<lparr>asubs := AList.delete (sub_id (objs b ! i)) (asubs b)\<rparr>)"
    using as_off.prems by (auto simp: async_inv_def AList.delete_eq)
  then show ?case using as_off by (auto simp: Async_off_def Let_def intro!: stop_inv)
next
  case (as_publish b e)
  then show ?case by (auto simp: publish_check_def async_inv_def targets_ok_def)
next
  case (as_snapshot k b e subs)
  have "set subs = snd ` set (asubs b)" using as_snapshot.hyps(3) by (metis list.set_map mset_eq_setD)
  then have "targets_ok (length (objs b)) (Sending e subs)"
    using as_snapshot.prems by (auto simp: async_inv_def targets_ok_def)
  then show ?case
    using next_send_inv [OF as_snapshot.prems] by (simp add: publish_snapshot_def next_send_def)
next
  case (as_send k b e i subs)
  note t = target_ok [OF as_send.prems as_send.hyps(1,2)]
  have "async_inv (on_sub i (enqueue e) b)"
    using t as_send obj_ok [of b i]
    by (intro on_sub_same_inv) (auto simp: sub_ok_def enqueue_def has_room_def running_def)
  then show ?case using t by (simp add: send_ok_def next_send_inv on_sub_def)
next
  case (as_drop k b e i subs)
  note t = target_ok [OF as_drop.prems as_drop.hyps(1,2)]
  have "async_inv (b\<lparr>dropped := dropped b + 1, rejected := rejected b @ [e]\<rparr>)"
    using as_drop by (simp add: async_inv_def)
  then show ?case using t by (simp add: send_drop_def next_send_inv)
next
  case (as_gone k b e i subs)
  then show ?case using target_ok [OF as_gone.prems as_gone.hyps(1,2)] by (simp add: next_send_inv)
next
  case (as_take i b)
  then show ?case
    unfolding worker_take_def
    by (intro on_sub_same_inv) (use obj_ok [of b i] in \<open>auto simp: running_def sub_ok_def neq_Nil_conv\<close>)
next
  case (as_drain i b)
  then show ?case
    unfolding worker_drain_def by (intro on_sub_same_inv) (use obj_ok [of b i] in \<open>auto simp: running_def sub_ok_def\<close>)
next
  case (as_exit i b)
  have "0 < length (filter running (objs b))"
    using as_exit.hyps by (auto simp: filter_empty_conv running_def dest!: nth_mem)
  then show ?case
    using as_exit unfolding worker_exit_def
    by (intro on_sub_inv) (use obj_ok [of b i] in \<open>auto simp: running_def sub_ok_def async_inv_def\<close>)
next
  case (as_cas b)
  then show ?case by (simp add: close_cas_def async_inv_def)
next
  case (as_close b)
  then show ?case unfolding close_all_def by (intro stop_all_inv) (auto simp: async_inv_def)
next
  case (as_return b)
  then show ?case by (simp add: async_inv_def)
qed

interpretation async: invariant_machine "\<lambda>b. b = NewAsync c" async_step async_inv for c
proof unfold_locales
  show "async_inv b" if "b = NewAsync c" for b using that NewAsync_inv by simp
  show "async_inv t" if "async_inv s" "async_step s t" for s t using that async_step_inv by blast
qed

section \<open>Properties\<close>

text \<open>(C29) Under any interleaving of publishers, subscriptions, unsubscriptions, workers and
  \<^verbatim>\<open>Close\<close>: a subscriber's handler is called with the events its queue accepted, in that order
  and each once, so what is accepted and not yet handled is exactly its queue, which never exceeds
  the buffer; a worker exits only after its subscription was stopped; the drop counter counts the
  rejected events (modulo the width of the counter), and none is rejected unless configured; the
  wait group counts the running workers, so \<^verbatim>\<open>Close\<close> returns when none is left.\<close>

theorem async_delivery:
  assumes "reach (\<lambda>b. b = NewAsync c) async_step b" "i < length (objs b)"
  shows "accepted (objs b ! i) = handled (objs b ! i) @ queue (objs b ! i) \<and>
    int (length (queue (objs b ! i))) \<le> BufferSize (cfg b) \<and>
    (worker (objs b ! i) = Exited \<longrightarrow> stopped (objs b ! i)) \<and>
    Async_Stats b = of_nat (length (rejected b)) \<and> (\<not> DropWhenFull (cfg b) \<longrightarrow> rejected b = []) \<and>
    (closedWg b = 0 \<longrightarrow> worker (objs b ! i) = NotStarted \<or> worker (objs b ! i) = Exited)"
proof -
  have inv: "async_inv b" by (rule async.inv_reach [OF assms(1)])
  have "closedWg b = 0 \<Longrightarrow> \<not> running (objs b ! i)"
    using inv assms(2) by (auto simp: async_inv_def filter_empty_conv)
  then show ?thesis
    using inv obj_ok [OF inv assms(2)]
    by (cases "worker (objs b ! i)") (auto simp: async_inv_def sub_ok_def running_def Async_Stats_def)
qed

lemma reach_sub: "reach (\<lambda>b. b = NewAsync c) async_step (subscribe_start 0 (subscribe_insert (subscribe_check (NewAsync c))))"
proof -
  have "reach (\<lambda>b. b = NewAsync c) async_step (NewAsync c)" by (rule reach_start) simp
  then have "reach (\<lambda>b. b = NewAsync c) async_step (subscribe_check (NewAsync c))"
    by (rule reach_step) (rule as_check)
  then have "reach (\<lambda>b. b = NewAsync c) async_step (subscribe_insert (subscribe_check (NewAsync c)))"
    by (rule reach_step) (rule as_insert, simp add: subscribe_check_def NewAsync_def)
  then show ?thesis
    by (rule reach_step) (rule as_start, simp_all add: subscribe_check_def subscribe_insert_def NewAsync_def Let_def)
qed

text \<open>A bus with one worker and a call of \<^verbatim>\<open>Publish\<close> before its send.\<close>

definition sending_bus :: "async_config \<Rightarrow> 'e \<Rightarrow> 'e async" where
  "sending_bus c e =
    \<lparr>cfg = cfg (NewAsync c :: 'e async), anext = 1, asubs = [(0, 0)],
     objs = [\<lparr>sub_id = 0, queue = [], stopped = False, worker = Waiting, accepted = [], handled = []\<rparr>],
     dropped = 0, closed = False, closedWg = 1, subscribing = 0, publishers = [Sending e [0]],
     closer = NoCloser, rejected = []\<rparr>"

lemma reach_sending: "reach (\<lambda>b. b = NewAsync c) async_step (sending_bus c e)"
proof -
  let ?b = "subscribe_start 0 (subscribe_insert (subscribe_check (NewAsync c)))"
  have p: "publishers (publish_check e ?b) = [Checked e]" "asubs (publish_check e ?b) = [(0, 0)]"
    by (simp_all add: publish_check_def subscribe_start_def subscribe_insert_def subscribe_check_def
        NewAsync_def Let_def on_sub_def)
  have "reach (\<lambda>b. b = NewAsync c) async_step (publish_check e ?b)"
    by (rule reach_step [OF reach_sub as_publish])
  then have "reach (\<lambda>b. b = NewAsync c) async_step (publish_snapshot 0 e [0] (publish_check e ?b))"
    by (rule reach_step) (rule as_snapshot, simp_all add: p)
  moreover have "publish_snapshot 0 e [0] (publish_check e ?b) = sending_bus c e"
    by (simp add: publish_snapshot_def publish_check_def subscribe_start_def subscribe_insert_def
        subscribe_check_def NewAsync_def Let_def on_sub_def sending_bus_def)
  ultimately show ?thesis by simp
qed

lemma cfg_NewAsync: "cfg (NewAsync c) = (if BufferSize c \<le> 0 then c\<lparr>BufferSize := 16\<rparr> else c)"
  by (simp add: NewAsync_def)

theorem async_delivery_witness:
  "\<exists>b. reach (\<lambda>b. b = NewAsync \<lparr>BufferSize = 1, DropWhenFull = True\<rparr>) async_step b \<and>
    accepted (objs b ! 0) = handled (objs b ! 0) @ queue (objs b ! 0) \<and> queue (objs b ! 0) = [''event'']"
proof -
  let ?c = "\<lparr>BufferSize = 1, DropWhenFull = True\<rparr>"
  let ?b = "send_ok 0 ''event'' 0 [] (sending_bus ?c ''event'')"
  have r: "reach (\<lambda>b. b = NewAsync ?c) async_step ?b"
    by (rule reach_step [OF reach_sending], rule as_send) (simp_all add: sending_bus_def has_room_def cfg_NewAsync)
  have "queue (objs ?b ! 0) = [''event'']" "0 < length (objs ?b)"
    by (simp_all add: sending_bus_def send_ok_def next_send_def on_sub_def enqueue_def)
  then show ?thesis using async_delivery [OF r, of 0] r by blast
qed

text \<open>What a running worker's queue accepted gets handled: the worker alone, in as many steps as
  the queue is long, calls the handler with all of it in order, whether or not it was stopped.\<close>

lemma take_steps:
  "i < length (objs b) \<Longrightarrow> running (objs b ! i) \<Longrightarrow>
    \<exists>b'. async_step\<^sup>*\<^sup>* b b' \<and> handled (objs b' ! i) = handled (objs b ! i) @ queue (objs b ! i) \<and> queue (objs b' ! i) = []"
proof (induction "queue (objs b ! i)" arbitrary: b)
  case Nil
  then show ?case by (intro exI [of _ b]) simp
next
  case (Cons e q)
  let ?b = "worker_take i b"
  have q: "queue (objs b ! i) = e # q" using Cons.hyps(2) by simp
  have s: "async_step b ?b"
    by (rule as_take) (use Cons.prems q in \<open>auto simp: running_def\<close>)
  have o: "objs ?b ! i = (objs b ! i)\<lparr>queue := q, handled := handled (objs b ! i) @ [e]\<rparr>" "length (objs ?b) = length (objs b)"
    using Cons.prems(1) q by (simp_all add: worker_take_def on_sub_def)
  have "q = queue (objs ?b ! i)" "i < length (objs ?b)" "running (objs ?b ! i)"
    using o Cons.prems by (simp_all add: running_def)
  then obtain b' where b': "async_step\<^sup>*\<^sup>* ?b b'"
    "handled (objs b' ! i) = handled (objs ?b ! i) @ queue (objs ?b ! i)" "queue (objs b' ! i) = []"
    using Cons.hyps(1) by blast
  show ?case
  proof (intro exI conjI)
    show "async_step\<^sup>*\<^sup>* b b'" using s b'(1) by (rule converse_rtranclp_into_rtranclp)
    show "handled (objs b' ! i) = handled (objs b ! i) @ queue (objs b ! i)" using b'(2) o(1) q by simp
    show "queue (objs b' ! i) = []" by (rule b'(3))
  qed
qed

theorem async_handles_accepted:
  assumes "reach (\<lambda>b. b = NewAsync c) async_step b" "i < length (objs b)" "running (objs b ! i)"
  shows "\<exists>b'. async_step\<^sup>*\<^sup>* b b' \<and> handled (objs b' ! i) = accepted (objs b ! i) \<and> queue (objs b' ! i) = []"
  using take_steps [OF assms(2,3)] obj_ok [OF async.inv_reach [OF assms(1)] assms(2)]
  by (auto simp: sub_ok_def)

theorem async_handles_accepted_witness:
  "\<exists>b b'. reach (\<lambda>b. b = NewAsync \<lparr>BufferSize = 0, DropWhenFull = False\<rparr>) async_step b \<and>
    async_step\<^sup>*\<^sup>* b b' \<and> handled (objs b' ! 0) = [''event'']"
proof -
  let ?c = "\<lparr>BufferSize = 0, DropWhenFull = False\<rparr>"
  let ?b = "send_ok 0 ''event'' 0 [] (sending_bus ?c ''event'')"
  have r: "reach (\<lambda>b. b = NewAsync ?c) async_step ?b"
    by (rule reach_step [OF reach_sending], rule as_send) (simp_all add: sending_bus_def has_room_def cfg_NewAsync)
  have "accepted (objs ?b ! 0) = [''event'']" "0 < length (objs ?b)" "running (objs ?b ! 0)"
    by (simp_all add: sending_bus_def send_ok_def next_send_def on_sub_def enqueue_def running_def)
  then show ?thesis using async_handles_accepted [OF r, of 0] r by metis
qed

text \<open>Once the worker has exited nothing takes from the queue any more, but the select of a
  publisher that holds the subscription in its snapshot may still choose the buffered channel over
  the closed stop channel: with \<^verbatim>\<open>Close\<close> already returned, an event is accepted and never
  handled.\<close>

theorem event_after_close_is_lost:
  "\<exists>b. reach (\<lambda>b. b = NewAsync c) async_step b \<and> closer b = Returned \<and>
    worker (objs b ! 0) = Exited \<and> queue (objs b ! 0) = [e]"
proof -
  let ?b = "sending_bus c e"
  let ?b1 = "close_all (close_cas ?b)"
  let ?b2 = "worker_exit 0 (worker_drain 0 ?b1)"
  let ?b3 = "?b2\<lparr>closer := Returned\<rparr>"
  note simps = sending_bus_def close_cas_def close_all_def on_sub_def stop_sub_def worker_drain_def worker_exit_def
  have "reach (\<lambda>b. b = NewAsync c) async_step (close_cas ?b)"
    by (rule reach_step [OF reach_sending], rule as_cas) (simp add: simps)
  then have "reach (\<lambda>b. b = NewAsync c) async_step ?b1"
    by (rule reach_step) (rule as_close, simp add: simps)
  then have "reach (\<lambda>b. b = NewAsync c) async_step (worker_drain 0 ?b1)"
    by (rule reach_step) (rule as_drain, simp_all add: simps)
  then have "reach (\<lambda>b. b = NewAsync c) async_step ?b2"
    by (rule reach_step) (rule as_exit, simp_all add: simps)
  then have "reach (\<lambda>b. b = NewAsync c) async_step ?b3"
    by (rule reach_step) (rule as_return, simp_all add: simps)
  then have "reach (\<lambda>b. b = NewAsync c) async_step (send_ok 0 e 0 [] ?b3)"
    by (rule reach_step) (rule as_send, simp_all add: simps has_room_def cfg_NewAsync)
  then show ?thesis
    by (rule exI [of _ "send_ok 0 e 0 [] ?b3", OF conjI])
      (simp add: simps send_ok_def next_send_def enqueue_def)
qed

end
