(* ===== verification/Shutdown.thy ===== *)
theory Shutdown
  imports Go_Time
begin

text \<open>
  Graceful teardown (\<^verbatim>\<open>internal/shutdown/shutdown.go\<close>). What a hook does, and whether its
  deadline or the caller's context wins the select, are the answers of the environment; the error
  values keep what the messages are made of.
\<close>

section \<open>State\<close>

text \<open>How a hook ends for \<^verbatim>\<open>runHook\<close>: it returns, it panics, or the context is done first.\<close>

datatype hook_outcome = Finishes "string option" | Panics string | Expires string

datatype hook_error = HookErr string | HookPanic string | HookTimeout duration string

datatype shutdown_error = Aborted string string | Failed string hook_error

record 'h registered =
  rname :: string
  rhook :: 'h

text \<open>\<open>onHookError\<close> is \<open>None\<close> for a nil function; \<open>doneClosed\<close> is the channel of \<^verbatim>\<open>Done\<close>.\<close>

record ('h, 'f) coordinator =
  hookTimeout :: duration
  onHookError :: "'f option"
  hooks :: "'h registered list"
  started :: bool
  doneClosed :: bool

definition NewCoordinator :: "'f \<Rightarrow> duration \<Rightarrow> ('h, 'f) coordinator" where
  "NewCoordinator print timeout =
    \<lparr>hookTimeout = timeout, onHookError = Some print, hooks = [], started = False, doneClosed = False\<rparr>"

definition OnHookError :: "'f option \<Rightarrow> ('h, 'f) coordinator \<Rightarrow> ('h, 'f) coordinator" where
  "OnHookError fn c = c\<lparr>onHookError := fn\<rparr>"

text \<open>The function \<^verbatim>\<open>Register\<close> returns is what it captured: the index and the name.\<close>

definition RegisterHook :: "string \<Rightarrow> 'h \<Rightarrow> ('h, 'f) coordinator \<Rightarrow> ('h, 'f) coordinator \<times> nat \<times> string" where
  "RegisterHook name h c =
    (let c' = c\<lparr>hooks := hooks c @ [\<lparr>rname = name, rhook = h\<rparr>]\<rparr> in (c', length (hooks c') - 1, name))"

definition deregister :: "nat \<times> string \<Rightarrow> ('h, 'f) coordinator \<Rightarrow> ('h, 'f) coordinator" where
  "deregister d c =
    (let (idx, name) = d in
     if started c \<or> idx \<ge> length (hooks c) \<or> rname (hooks c ! idx) \<noteq> name then c
     else c\<lparr>hooks := take idx (hooks c) @ drop (idx + 1) (hooks c)\<rparr>)"

definition CoordSize :: "('h, 'f) coordinator \<Rightarrow> nat" where
  "CoordSize c = length (hooks c)"

definition IsShuttingDown :: "('h, 'f) coordinator \<Rightarrow> bool" where
  "IsShuttingDown c = started c"

section \<open>Shutting down\<close>

text \<open>The environment: the caller's \<^verbatim>\<open>ctx.Err()\<close> before the hook at an index, and how the hook at
  an index ends.\<close>

record teardown_env =
  ctx_Err :: "nat \<Rightarrow> string option"
  outcome :: "nat \<Rightarrow> hook_outcome"

definition runHook :: "duration \<Rightarrow> hook_outcome \<Rightarrow> hook_error option" where
  "runHook timeout oc =
    (case oc of
       Finishes e \<Rightarrow> map_option HookErr e
     | Panics v \<Rightarrow> Some (HookPanic v)
     | Expires e \<Rightarrow> Some (HookTimeout timeout e))"

text \<open>What a run does, in order: hooks started and errors handed to the handler. A nil handler
  panics.\<close>

datatype ('h, 'f) teardown_event = RanHook 'h | ToldError 'f string hook_error

datatype teardown_result = Joined "shutdown_error list" | NilHandlerPanic

fun run_hooks :: "teardown_env \<Rightarrow> 'f option \<Rightarrow> duration \<Rightarrow> 'h registered list \<Rightarrow> nat \<Rightarrow>
    ('h, 'f) teardown_event list \<Rightarrow> shutdown_error list \<Rightarrow> ('h, 'f) teardown_event list \<times> teardown_result" where
  "run_hooks env onErr timeout hs 0 tr errs = (tr, Joined errs)"
| "run_hooks env onErr timeout hs (Suc i) tr errs =
    (case ctx_Err env i of
       Some e \<Rightarrow> (tr, Joined (errs @ [Aborted (rname (hs ! i)) e]))
     | None \<Rightarrow>
         (case runHook timeout (outcome env i) of
            None \<Rightarrow> run_hooks env onErr timeout hs i (tr @ [RanHook (rhook (hs ! i))]) errs
          | Some e \<Rightarrow>
              (case onErr of
                 None \<Rightarrow> (tr @ [RanHook (rhook (hs ! i))], NilHandlerPanic)
               | Some f \<Rightarrow>
                   run_hooks env onErr timeout hs i
                     (tr @ [RanHook (rhook (hs ! i)), ToldError f (rname (hs ! i)) e])
                     (errs @ [Failed (rname (hs ! i)) e]))))"

text \<open>The locked section: the first call goes on with a copy of the hooks, any other waits for the
  channel and returns nil. The channel is closed when the run ends, by a panic as well.\<close>

definition Shutdown_begin :: "('h, 'f) coordinator \<Rightarrow> ('h, 'f) coordinator \<times> ('h registered list \<times> 'f option \<times> duration) option" where
  "Shutdown_begin c =
    (if started c then (c, None)
     else (c\<lparr>started := True\<rparr>, Some (hooks c, onHookError c, hookTimeout c)))"

definition Shutdown_end :: "('h, 'f) coordinator \<Rightarrow> ('h, 'f) coordinator" where
  "Shutdown_end c = c\<lparr>doneClosed := True\<rparr>"

definition Shutdown_call :: "teardown_env \<Rightarrow> ('h, 'f) coordinator \<Rightarrow>
    ('h, 'f) coordinator \<times> ('h, 'f) teardown_event list \<times> teardown_result option" where
  "Shutdown_call env c =
    (case Shutdown_begin c of
       (c', None) \<Rightarrow> (c', [], if doneClosed c' then Some (Joined []) else None)
     | (c', Some (hs, onErr, timeout)) \<Rightarrow>
         (let (tr, r) = run_hooks env onErr timeout hs (length hs) [] [] in (Shutdown_end c', tr, Some r)))"

section \<open>The specification\<close>

text \<open>The hooks in the order they are due, each with its index; the context is asked before each.\<close>

definition due :: "'h registered list \<Rightarrow> (nat \<times> 'h registered) list" where
  "due hs = rev (enumerate 0 hs)"

definition executed :: "teardown_env \<Rightarrow> 'h registered list \<Rightarrow> (nat \<times> 'h registered) list" where
  "executed env hs = takeWhile (\<lambda>(i, r). ctx_Err env i = None) (due hs)"

definition failure_of :: "teardown_env \<Rightarrow> duration \<Rightarrow> nat \<times> 'h registered \<Rightarrow> shutdown_error list" where
  "failure_of env timeout ir =
    (case ir of (i, r) \<Rightarrow> (case runHook timeout (outcome env i) of None \<Rightarrow> [] | Some e \<Rightarrow> [Failed (rname r) e]))"

definition abort_of :: "teardown_env \<Rightarrow> 'h registered list \<Rightarrow> shutdown_error list" where
  "abort_of env hs =
    (case dropWhile (\<lambda>(i, r). ctx_Err env i = None) (due hs) of
       [] \<Rightarrow> []
     | (i, r) # _ \<Rightarrow> [Aborted (rname r) (the (ctx_Err env i))])"

fun ran_hooks :: "('h, 'f) teardown_event list \<Rightarrow> 'h list" where
  "ran_hooks [] = []"
| "ran_hooks (RanHook h # tr) = h # ran_hooks tr"
| "ran_hooks (ToldError f n e # tr) = ran_hooks tr"

lemma due_Suc: "i < length hs \<Longrightarrow> due (take (Suc i) hs) = (i, hs ! i) # due (take i hs)"
  by (simp add: due_def take_Suc_conv_app_nth enumerate_append_eq)

lemma ran_append: "ran_hooks (tr @ tr') = ran_hooks tr @ ran_hooks tr'"
  by (induction tr rule: ran_hooks.induct) auto

lemma run_hooks_exact:
  "i \<le> length hs \<Longrightarrow>
    \<exists>tr'. run_hooks env (Some f) t hs i tr errs =
        (tr', Joined (errs @ concat (map (failure_of env t) (executed env (take i hs))) @ abort_of env (take i hs))) \<and>
      ran_hooks tr' = ran_hooks tr @ map (rhook \<circ> snd) (executed env (take i hs))"
proof (induction i arbitrary: tr errs)
  case 0
  then show ?case by (simp add: executed_def abort_of_def due_def)
next
  case (Suc i)
  have d: "due (take (Suc i) hs) = (i, hs ! i) # due (take i hs)" using Suc.prems by (intro due_Suc) simp
  show ?case
  proof (cases "ctx_Err env i")
    case (Some e)
    then show ?thesis by (simp add: d executed_def abort_of_def)
  next
    case None
    have s: "executed env (take (Suc i) hs) = (i, hs ! i) # executed env (take i hs)"
      "abort_of env (take (Suc i) hs) = abort_of env (take i hs)"
      using None by (simp_all add: d executed_def abort_of_def)
    let ?tr = "tr @ RanHook (rhook (hs ! i)) #
      (case runHook t (outcome env i) of None \<Rightarrow> [] | Some e \<Rightarrow> [ToldError f (rname (hs ! i)) e])"
    have "run_hooks env (Some f) t hs (Suc i) tr errs =
        run_hooks env (Some f) t hs i ?tr (errs @ failure_of env t (i, hs ! i))"
      using None by (simp add: failure_of_def split: option.split)
    moreover have "ran_hooks ?tr = ran_hooks tr @ [rhook (hs ! i)]"
      by (simp add: ran_append split: option.split)
    moreover obtain tr' where "run_hooks env (Some f) t hs i ?tr (errs @ failure_of env t (i, hs ! i)) =
        (tr', Joined ((errs @ failure_of env t (i, hs ! i)) @
          concat (map (failure_of env t) (executed env (take i hs))) @ abort_of env (take i hs)))"
      "ran_hooks tr' = ran_hooks ?tr @ map (rhook \<circ> snd) (executed env (take i hs))"
      using Suc by (meson Suc_leD)
    ultimately show ?thesis by (simp add: s)
  qed
qed

lemma due_hooks: "map snd (due hs) = rev hs"
  by (simp add: due_def rev_map [symmetric])

text \<open>(C30) The first \<^verbatim>\<open>Shutdown\<close> runs the hooks in reverse order of registration, each once, up to
  the first at which the caller's context has ended, and returns the errors of the hooks that
  failed, timed out or panicked, in that order, with one more for an aborted run; with a live
  context all hooks run, whatever the others do. Then the channel is closed, and every later call
  runs nothing and returns nil, also after errors.\<close>

theorem shutdown_runs_hooks:
  assumes "\<not> started c" "onHookError c = Some f"
  shows "\<exists>tr. Shutdown_call env c =
      (c\<lparr>started := True, doneClosed := True\<rparr>, tr,
       Some (Joined (concat (map (failure_of env (hookTimeout c)) (executed env (hooks c))) @ abort_of env (hooks c)))) \<and>
    ran_hooks tr = map (rhook \<circ> snd) (executed env (hooks c)) \<and>
    ((\<forall>i. ctx_Err env i = None) \<longrightarrow> ran_hooks tr = rev (map rhook (hooks c)) \<and> abort_of env (hooks c) = []) \<and>
    Shutdown_call env2 (fst (Shutdown_call env c)) = (fst (Shutdown_call env c), [], Some (Joined []))"
proof -
  obtain tr where tr: "run_hooks env (Some f) (hookTimeout c) (hooks c) (length (hooks c)) [] [] =
      (tr, Joined (concat (map (failure_of env (hookTimeout c)) (executed env (hooks c))) @ abort_of env (hooks c)))"
    "ran_hooks tr = map (rhook \<circ> snd) (executed env (hooks c))"
    using run_hooks_exact [of "length (hooks c)" "hooks c" env f "hookTimeout c" "[]" "[]"] by auto
  have call: "Shutdown_call env c = (c\<lparr>started := True, doneClosed := True\<rparr>, tr,
      Some (Joined (concat (map (failure_of env (hookTimeout c)) (executed env (hooks c))) @ abort_of env (hooks c))))"
    using assms tr(1) by (simp add: Shutdown_call_def Shutdown_begin_def Shutdown_end_def)
  have live: "executed env (hooks c) = due (hooks c) \<and> abort_of env (hooks c) = []"
    if live: "\<forall>i. ctx_Err env i = None"
  proof
    have all: "\<forall>ir\<in>set (due (hooks c)). case ir of (i, r) \<Rightarrow> ctx_Err env i = None" using live by auto
    show "executed env (hooks c) = due (hooks c)" unfolding executed_def takeWhile_eq_all_conv by (rule all)
    have "dropWhile (\<lambda>(i, r). ctx_Err env i = None) (due (hooks c)) = []"
      unfolding dropWhile_eq_Nil_conv by (rule all)
    then show "abort_of env (hooks c) = []" by (simp add: abort_of_def del: dropWhile_eq_Nil_conv)
  qed
  have "map (rhook \<circ> snd) (due (hooks c)) = rev (map rhook (hooks c))"
    using due_hooks [of "hooks c"] by (metis map_map rev_map)
  with live tr(2) call show ?thesis
    by (simp add: Shutdown_call_def Shutdown_begin_def)
qed

theorem shutdown_runs_hooks_witness:
  "ran_hooks (fst (snd (Shutdown_call \<lparr>ctx_Err = (\<lambda>i. None), outcome = (\<lambda>i. if i = 1 then Panics ''boom'' else Finishes None)\<rparr>
      (fst (RegisterHook ''http'' (2::nat) (fst (RegisterHook ''db'' 1 (NewCoordinator () 5)))))))) = [2, 1]"
proof -
  let ?c = "fst (RegisterHook ''http'' (2::nat) (fst (RegisterHook ''db'' 1 (NewCoordinator () 5))))"
  let ?env = "\<lparr>ctx_Err = (\<lambda>i. None), outcome = (\<lambda>i. if i = 1 then Panics ''boom'' else Finishes None)\<rparr>"
  have "\<not> started ?c" "onHookError ?c = Some ()" "map rhook (hooks ?c) = [1, 2]"
    by (simp_all add: RegisterHook_def NewCoordinator_def Let_def)
  moreover have "\<exists>tr. fst (snd (Shutdown_call ?env ?c)) = tr \<and> ran_hooks tr = rev (map rhook (hooks ?c))"
    using shutdown_runs_hooks [OF calculation(1,2), of ?env ?env] by (elim exE conjE) simp
  ultimately show ?thesis by simp
qed

section \<open>Any sequence of calls\<close>

datatype ('h, 'f) coord_op =
    DoRegister string 'h
  | DoDeregister nat string
  | DoOnError "'f option"
  | DoShutdown teardown_env

fun apply_op :: "('h, 'f) coordinator \<times> ('h, 'f) teardown_event list \<Rightarrow> ('h, 'f) coord_op \<Rightarrow>
    ('h, 'f) coordinator \<times> ('h, 'f) teardown_event list" where
  "apply_op (c, tr) (DoRegister n h) = (fst (RegisterHook n h c), tr)"
| "apply_op (c, tr) (DoDeregister i n) = (deregister (i, n) c, tr)"
| "apply_op (c, tr) (DoOnError f) = (OnHookError f c, tr)"
| "apply_op (c, tr) (DoShutdown env) = (case Shutdown_call env c of (c', tr', r) \<Rightarrow> (c', tr @ tr'))"

definition coord_run :: "'f \<Rightarrow> duration \<Rightarrow> ('h, 'f) coord_op list \<Rightarrow> ('h, 'f) coordinator \<times> ('h, 'f) teardown_event list" where
  "coord_run print timeout ops = foldl apply_op (NewCoordinator print timeout, []) ops"

fun registrations :: "'h \<Rightarrow> ('h, 'f) coord_op list \<Rightarrow> nat" where
  "registrations h [] = 0"
| "registrations h (DoRegister n h' # ops) = (if h' = h then 1 else 0) + registrations h ops"
| "registrations h (_ # ops) = registrations h ops"

lemma registrations_append: "registrations h (ops @ ops') = registrations h ops + registrations h ops'"
  by (induction h ops rule: registrations.induct) auto

lemma run_hooks_prefix:
  "i \<le> length hs \<Longrightarrow> \<exists>hs'. ran_hooks (fst (run_hooks env onErr t hs i tr errs)) = ran_hooks tr @ hs' \<and>
    prefix hs' (rev (map rhook (take i hs)))"
proof (induction i arbitrary: tr errs)
  case (Suc i)
  have r: "rev (map rhook (take (Suc i) hs)) = rhook (hs ! i) # rev (map rhook (take i hs))"
    using Suc.prems by (simp add: take_Suc_conv_app_nth)
  have IH: "\<exists>hs'. ran_hooks (fst (run_hooks env onErr t hs i tr' errs')) = ran_hooks tr' @ hs' \<and>
      prefix hs' (rev (map rhook (take i hs)))" for tr' errs'
    using Suc by simp
  show ?case
  proof (cases "ctx_Err env i")
    case (Some e)
    then show ?thesis by (intro exI [of _ "[]"]) simp
  next
    case None
    show ?thesis
    proof (cases "\<exists>e. runHook t (outcome env i) = Some e \<and> onErr = None")
      case True
      then show ?thesis using None r by (intro exI [of _ "[rhook (hs ! i)]"]) (auto simp: ran_append)
    next
      case False
      define tr' where "tr' = tr @ RanHook (rhook (hs ! i)) #
        (case runHook t (outcome env i) of None \<Rightarrow> [] | Some e \<Rightarrow> [ToldError (the onErr) (rname (hs ! i)) e])"
      have t: "ran_hooks tr' = ran_hooks tr @ [rhook (hs ! i)]"
        by (simp add: tr'_def ran_append split: option.split)
      have "\<exists>errs'. run_hooks env onErr t hs (Suc i) tr errs = run_hooks env onErr t hs i tr' errs'"
        using None False by (cases onErr) (auto simp: tr'_def split: option.split)
      then obtain errs' where "run_hooks env onErr t hs (Suc i) tr errs = run_hooks env onErr t hs i tr' errs'" ..
      moreover obtain hs' where "ran_hooks (fst (run_hooks env onErr t hs i tr' errs')) = ran_hooks tr' @ hs'"
        "prefix hs' (rev (map rhook (take i hs)))"
        using IH by blast
      ultimately show ?thesis using t r by (intro exI [of _ "rhook (hs ! i) # hs'"]) simp
    qed
  qed
qed simp

text \<open>What the registrations still allow: the runs so far and, before a shutdown, the hooks that
  wait.\<close>

definition spent :: "'h \<Rightarrow> ('h, 'f) coordinator \<times> ('h, 'f) teardown_event list \<Rightarrow> nat" where
  "spent h s = count_list (ran_hooks (snd s)) h + (if started (fst s) then 0 else count_list (map rhook (hooks (fst s))) h)"

lemma count_prefix: "prefix xs ys \<Longrightarrow> count_list xs h \<le> count_list ys h"
  by (auto simp: prefix_def)

lemma count_deregister: "count_list (map f (take i xs @ drop (Suc i) xs)) h \<le> count_list (map f xs) h"
proof -
  have "count_list (map f (drop (Suc i) xs)) h \<le> count_list (map f (drop i xs)) h"
    by (cases "i < length xs") (simp_all flip: Cons_nth_drop_Suc)
  then show ?thesis
    by (metis (no_types, lifting) add_left_mono append_take_drop_id count_list_append map_append)
qed

lemma apply_op_spent: "spent h (apply_op s op) \<le> spent h s + registrations h [op]"
proof (cases "(s, op)" rule: apply_op.cases)
  case (1 c tr n h')
  then show ?thesis by (simp add: spent_def RegisterHook_def Let_def)
next
  case (2 c tr i n)
  then show ?thesis using count_deregister [of rhook i "hooks c" h] by (simp add: spent_def deregister_def)
next
  case (3 c tr f)
  then show ?thesis by (simp add: spent_def OnHookError_def)
next
  case (4 c tr env)
  obtain hs' where "ran_hooks (fst (run_hooks env (onHookError c) (hookTimeout c) (hooks c) (length (hooks c)) [] [])) = hs'"
    "prefix hs' (rev (map rhook (hooks c)))"
    using run_hooks_prefix [of "length (hooks c)" "hooks c" env "onHookError c" "hookTimeout c" "[]" "[]"] by auto
  then have "count_list (ran_hooks (fst (run_hooks env (onHookError c) (hookTimeout c) (hooks c) (length (hooks c)) [] []))) h
      \<le> count_list (map rhook (hooks c)) h"
    using count_prefix by (metis count_list_rev)
  then show ?thesis
    using 4 by (simp add: spent_def Shutdown_call_def Shutdown_begin_def Shutdown_end_def ran_append split_beta)
qed

text \<open>In any sequence of registrations, deregistrations and shutdowns, a hook runs at most as
  often as it was registered, whatever the hooks, the contexts and the error handlers do.\<close>

theorem hooks_run_at_most_once:
  "count_list (ran_hooks (snd (coord_run print timeout ops))) h \<le> registrations h ops"
proof -
  have "spent h (coord_run print timeout ops) \<le> registrations h ops"
  proof (induction ops rule: rev_induct)
    case Nil
    then show ?case by (simp add: coord_run_def spent_def NewCoordinator_def)
  next
    case (snoc op ops)
    then show ?case
      using apply_op_spent [of h "coord_run print timeout ops" op]
      by (simp add: coord_run_def registrations_append)
  qed
  then show ?thesis by (simp add: spent_def)
qed

text \<open>A deregistration shifts the hooks behind it, so the index a later deregister function
  captured can name another hook. Of three hooks, removing the first leaves the second's function
  without effect; with equal names, calling the first's function twice removes two hooks.\<close>

theorem deregister_shift:
  "map rname (hooks (deregister (1, ''b'') (deregister (0, ''a'')
     ((NewCoordinator f t)\<lparr>hooks := [\<lparr>rname = ''a'', rhook = x\<rparr>, \<lparr>rname = ''b'', rhook = y\<rparr>, \<lparr>rname = ''c'', rhook = z\<rparr>]\<rparr>)))) = [''b'', ''c''] \<and>
   hooks (deregister (0, ''a'') (deregister (0, ''a'')
     ((NewCoordinator f t)\<lparr>hooks := [\<lparr>rname = ''a'', rhook = x\<rparr>, \<lparr>rname = ''a'', rhook = y\<rparr>]\<rparr>))) = []"
  by (simp add: deregister_def NewCoordinator_def)

end
