(* ===== verification/Tokens.thy ===== *)
theory Tokens
  imports Intake_Json Go_Time "HOL-Library.Word"
begin

text \<open>
  Signed tokens (\<^verbatim>\<open>internal/tokens/tokens.go\<close>, \<^verbatim>\<open>fake.go\<close>). The MAC (HMAC-SHA256) is a parameter, a
  function of the secret and the bytes, and so is the decoding of the payload into the caller's
  claims; nothing is assumed of either. Base64 and the decoding of the header and of the time
  claims are modelled.
\<close>

section \<open>Base64, URL alphabet, no padding\<close>

definition b64_char :: "nat \<Rightarrow> char" where
  "b64_char n =
    (if n < 26 then char_of (65 + n) else if n < 52 then char_of (71 + n)
     else if n < 62 then char_of (n - 4) else if n = 62 then CHR ''-'' else CHR ''_'')"

definition b64_value :: "char \<Rightarrow> nat option" where
  "b64_value c =
    (let n = byte c in
     if 65 \<le> n \<and> n \<le> 90 then Some (n - 65)
     else if 97 \<le> n \<and> n \<le> 122 then Some (n - 71)
     else if 48 \<le> n \<and> n \<le> 57 then Some (n + 4)
     else if n = 45 then Some 62 else if n = 95 then Some 63 else None)"

fun b64_encode :: "string \<Rightarrow> string" where
  "b64_encode [] = []"
| "b64_encode [a] = [b64_char (byte a div 4), b64_char (byte a mod 4 * 16)]"
| "b64_encode [a, b] =
    [b64_char (byte a div 4), b64_char (byte a mod 4 * 16 + byte b div 16), b64_char (byte b mod 16 * 4)]"
| "b64_encode (a # b # c # s) =
    [b64_char (byte a div 4), b64_char (byte a mod 4 * 16 + byte b div 16),
     b64_char (byte b mod 16 * 4 + byte c div 64), b64_char (byte c mod 64)] @ b64_encode s"

text \<open>The decoder works on groups of four values; the unused bits of a short last group are not looked
  at. It passes over carriage returns and line feeds.\<close>

definition byte3 :: "nat \<Rightarrow> nat \<Rightarrow> nat \<Rightarrow> nat \<Rightarrow> string" where
  "byte3 a b c d =
    [char_of (a * 4 + b div 16), char_of (b mod 16 * 16 + c div 4), char_of (c mod 4 * 64 + d)]"

fun b64_groups :: "nat list \<Rightarrow> string option" where
  "b64_groups [] = Some []"
| "b64_groups [a] = None"
| "b64_groups [a, b] = Some (take 1 (byte3 a b 0 0))"
| "b64_groups [a, b, c] = Some (take 2 (byte3 a b c 0))"
| "b64_groups (a # b # c # d # s) = map_option (\<lambda>t. byte3 a b c d @ t) (b64_groups s)"

fun b64_values :: "string \<Rightarrow> nat list option" where
  "b64_values [] = Some []"
| "b64_values (c # s) =
    (if c = CHR 0x0D \<or> c = CHR 0x0A then b64_values s
     else
       (case b64_value c of
          None \<Rightarrow> None
        | Some n \<Rightarrow> map_option (\<lambda>ns. n # ns) (b64_values s)))"

definition b64_decode :: "string \<Rightarrow> string option" where
  "b64_decode s = Option.bind (b64_values s) b64_groups"

lemma byte_b64_char:
  "n < 64 \<Longrightarrow> byte (b64_char n) =
    (if n < 26 then 65 + n else if n < 52 then 71 + n else if n < 62 then n - 4 else if n = 62 then 45 else 95)"
  by (simp add: b64_char_def byte_char_of)

lemma b64_value_char [simp]: "n < 64 \<Longrightarrow> b64_value (b64_char n) = Some n"
  by (auto simp: b64_value_def byte_b64_char Let_def)

lemma b64_char_visible:
  assumes "n < 64"
  shows "b64_char n \<noteq> CHR 0x0D" "b64_char n \<noteq> CHR 0x0A" "b64_char n \<noteq> CHR ''.''"
  using byte_b64_char [OF assms] assms by (auto intro!: byte_neq split: if_splits)

lemma pack:
  fixes x y k :: nat
  assumes "y < k"
  shows "(x * k + y) div k = x" "(x * k + y) mod k = y"
  using assms by simp_all

lemma b64_arith:
  fixes a b c :: nat
  assumes "a < 256" "b < 256" "c < 256"
  shows "a div 4 * 4 + (a mod 4 * 16 + b div 16) div 16 = a"
    and "(a mod 4 * 16 + b div 16) mod 16 * 16 + (b mod 16 * 4 + c div 64) div 4 = b"
    and "(b mod 16 * 4 + c div 64) mod 4 * 64 + c mod 64 = c"
    and "a div 4 < 64" "a mod 4 * 16 + b div 16 < 64" "b mod 16 * 4 + c div 64 < 64" "c mod 64 < 64"
proof -
  have small: "b div 16 < 16" "c div 64 < 4" using assms by linarith+
  show "a div 4 * 4 + (a mod 4 * 16 + b div 16) div 16 = a"
    using pack(1) [OF small(1)] by simp
  show "(a mod 4 * 16 + b div 16) mod 16 * 16 + (b mod 16 * 4 + c div 64) div 4 = b"
    using pack(2) [OF small(1)] pack(1) [OF small(2)] by simp
  show "(b mod 16 * 4 + c div 64) mod 4 * 64 + c mod 64 = c"
    using pack(2) [OF small(2)] by simp
  have "a mod 4 < 4" "b mod 16 < 16" by simp_all
  then show "a div 4 < 64" "a mod 4 * 16 + b div 16 < 64" "b mod 16 * 4 + c div 64 < 64" "c mod 64 < 64"
    using small assms by linarith+
qed

lemma b64_values_char [simp]: "n < 64 \<Longrightarrow> b64_values (b64_char n # s) = map_option (\<lambda>ns. n # ns) (b64_values s)"
  using b64_char_visible [of n] by simp

declare b64_values.simps(2) [simp del]

lemma byte_high_bits: "byte c div 16 mod 16 = byte c div 16" "byte c div 64 mod 4 = byte c div 64"
proof -
  have "byte c div 16 < 16" "byte c div 64 < 4" using nat_of_char_less_256 [of c] by linarith+
  then show "byte c div 16 mod 16 = byte c div 16" "byte c div 64 mod 4 = byte c div 64" by simp_all
qed

lemma b64_roundtrip: "b64_decode (b64_encode s) = Some s"
proof (induction s rule: b64_encode.induct)
  case (2 a)
  show ?case using b64_arith [of "byte a" 0 0]
    by (simp add: b64_decode_def byte3_def)
next
  case (3 a b)
  show ?case using b64_arith [of "byte a" "byte b" 0]
    by (simp add: b64_decode_def byte3_def)
next
  case (4 a b c s)
  then obtain ns where "b64_values (b64_encode s) = Some ns" "b64_groups ns = Some s"
    by (auto simp: b64_decode_def bind_eq_Some_conv)
  then show ?case using b64_arith [of "byte a" "byte b" "byte c"]
    by (simp add: b64_decode_def byte3_def byte_high_bits)
qed (simp add: b64_decode_def)

section \<open>Time claims\<close>

text \<open>\<^verbatim>\<open>time.Unix\<close> wraps around in the seconds since year 1; \<^verbatim>\<open>Time.Add\<close> saturates there.\<close>

definition time_Unix :: "int \<Rightarrow> time" where
  "time_Unix sec = second * wrap64 (sec + 62135596800)"

definition time_Add_sat :: "time \<Rightarrow> duration \<Rightarrow> time" where
  "time_Add_sat t d =
    (let total = t mod second + d;
         sum = t div second + total div second;
         sec = (if sum > 2 ^ 63 - 1 then 2 ^ 63 - 1 else if sum < - (2 ^ 63) then - (2 ^ 63 - 1) else sum)
     in sec * second + total mod second)"

datatype token_error = ErrMalformed | ErrSignature | ErrAlgorithm string | ErrExpired | ErrNotYetValid

record time_claims =
  ExpiresAt :: int
  NotBefore :: int

definition decode_time_member :: "string \<times> raw \<Rightarrow> time_claims \<Rightarrow> time_claims option" where
  "decode_time_member kv t =
    (if field_name (fst kv) ''exp''
       then map_option (\<lambda>n. t\<lparr>ExpiresAt := n\<rparr>) (decode_int (ExpiresAt t) (snd kv))
     else if field_name (fst kv) ''nbf''
       then map_option (\<lambda>n. t\<lparr>NotBefore := n\<rparr>) (decode_int (NotBefore t) (snd kv))
     else Some t)"

definition decode_times :: "string \<Rightarrow> time_claims option" where
  "decode_times payload =
    (let zero = \<lparr>ExpiresAt = 0, NotBefore = 0\<rparr> in
     case json_parse payload of
       None \<Rightarrow> None
     | Some v \<Rightarrow>
         (case v of
            RawObj kvs \<Rightarrow> opt_fold decode_time_member kvs zero
          | RawNull \<Rightarrow> Some zero
          | _ \<Rightarrow> None))"

record hmac =
  secret :: string
  leeway :: duration

text \<open>The clock is read once; any decoding error leaves the claims unchecked.\<close>

definition checkTimeClaims :: "hmac \<Rightarrow> time \<Rightarrow> string \<Rightarrow> token_error option" where
  "checkTimeClaims h now payload =
    (case decode_times payload of
       None \<Rightarrow> None
     | Some t \<Rightarrow>
         if ExpiresAt t \<noteq> 0 \<and> now > time_Add_sat (time_Unix (ExpiresAt t)) (leeway h) then Some ErrExpired
         else if NotBefore t \<noteq> 0 \<and> now < time_Add_sat (time_Unix (NotBefore t)) (wrap64 (- leeway h))
           then Some ErrNotYetValid
         else None)"

section \<open>Signing and verifying\<close>

definition NewHMAC256 :: "string \<Rightarrow> duration \<Rightarrow> hmac result" where
  "NewHMAC256 key lw =
    (if length key = 0 then Inl ''tokens.NewHMAC256: secret must not be empty''
     else Inr \<lparr>secret = key, leeway = lw\<rparr>)"

definition jwtHeader :: string where
  "jwtHeader = [CHR ''{'', dq] @ ''alg'' @ [dq, CHR '':'', dq] @ ''HS256'' @ [dq, CHR '','', dq] @ ''typ'' @
     [dq, CHR '':'', dq] @ ''JWT'' @ [dq, CHR ''}'']"

text \<open>The arguments of \<^verbatim>\<open>Sign\<close> and \<^verbatim>\<open>Verify\<close> that stand for other code: the MAC, what
  \<^verbatim>\<open>json.Marshal\<close> makes of the claims, and what \<^verbatim>\<open>json.Unmarshal\<close> makes of a payload in the
  caller's destination (\<open>None\<close> for a nil destination).\<close>

definition sign :: "(string \<Rightarrow> string \<Rightarrow> string) \<Rightarrow> hmac \<Rightarrow> string \<Rightarrow> string" where
  "sign mac h input = mac (secret h) input"

definition Sign :: "(string \<Rightarrow> string \<Rightarrow> string) \<Rightarrow> hmac \<Rightarrow> string result \<Rightarrow> string result" where
  "Sign mac h marshaled =
    (case marshaled of
       Inl e \<Rightarrow> Inl (''tokens: marshal claims: '' @ e)
     | Inr payload \<Rightarrow>
         (let signingInput = b64_encode jwtHeader @ ''.'' @ b64_encode payload;
              sig = sign mac h signingInput
          in Inr (signingInput @ ''.'' @ b64_encode sig)))"

definition decode_alg :: "string \<Rightarrow> string option" where
  "decode_alg headerRaw =
    (case json_parse headerRaw of
       None \<Rightarrow> None
     | Some v \<Rightarrow>
         (case v of
            RawObj kvs \<Rightarrow>
              opt_fold (\<lambda>kv alg. if field_name (fst kv) ''alg'' then decode_string alg (snd kv) else Some alg) kvs ''''
          | RawNull \<Rightarrow> Some ''''
          | _ \<Rightarrow> None))"

definition verifyAlgorithm :: "string \<Rightarrow> token_error option" where
  "verifyAlgorithm headerRaw =
    (case decode_alg headerRaw of
       None \<Rightarrow> Some ErrMalformed
     | Some alg \<Rightarrow> if alg \<noteq> ''HS256'' then Some (ErrAlgorithm alg) else None)"

definition Verify :: "(string \<Rightarrow> string \<Rightarrow> string) \<Rightarrow> hmac \<Rightarrow> time \<Rightarrow> (string \<Rightarrow> 'd option) option \<Rightarrow> string \<Rightarrow>
    token_error + 'd option" where
  "Verify mac h now dst token =
    (case strings_Split token (CHR ''.'') of
       [p0, p1, p2] \<Rightarrow>
         (case b64_decode p0 of
            None \<Rightarrow> Inl ErrMalformed
          | Some headerRaw \<Rightarrow>
              (case verifyAlgorithm headerRaw of
                 Some e \<Rightarrow> Inl e
               | None \<Rightarrow>
                   (let expected = sign mac h (p0 @ ''.'' @ p1) in
                    case b64_decode p2 of
                      None \<Rightarrow> Inl ErrMalformed
                    | Some got \<Rightarrow>
                        if expected \<noteq> got then Inl ErrSignature
                        else
                          (case b64_decode p1 of
                             None \<Rightarrow> Inl ErrMalformed
                           | Some payload \<Rightarrow>
                               (case checkTimeClaims h now payload of
                                  Some e \<Rightarrow> Inl e
                                | None \<Rightarrow>
                                    (case dst of
                                       None \<Rightarrow> Inr None
                                     | Some decode \<Rightarrow>
                                         (case decode payload of None \<Rightarrow> Inl ErrMalformed | Some d \<Rightarrow> Inr (Some d))))))))
     | _ \<Rightarrow> Inl ErrMalformed)"

section \<open>The scripted verifier\<close>

record 'c token_fake =
  fclaims :: "'c option"
  ferr :: "string option"
  signed :: "64 word"
  verified :: "64 word"

definition AlwaysValid :: "'c option \<Rightarrow> 'c token_fake" where
  "AlwaysValid c = \<lparr>fclaims = c, ferr = None, signed = 0, verified = 0\<rparr>"

definition AlwaysInvalid :: "string option \<Rightarrow> 'c token_fake" where
  "AlwaysInvalid e = \<lparr>fclaims = None, ferr = e, signed = 0, verified = 0\<rparr>"

definition Fake_Sign :: "'c token_fake \<Rightarrow> 'c token_fake \<times> string result" where
  "Fake_Sign f =
    (let n = signed f + 1 in
     (f\<lparr>signed := n\<rparr>,
      case ferr f of Some e \<Rightarrow> Inl e | None \<Rightarrow> Inr (''fake-token-'' @ int_dec (sint n))))"

definition Fake_Verify :: "('c \<Rightarrow> string result) \<Rightarrow> (string \<Rightarrow> 'd result) option \<Rightarrow> 'c token_fake \<Rightarrow>
    'c token_fake \<times> 'd option result" where
  "Fake_Verify marshal dst f =
    (f\<lparr>verified := verified f + 1\<rparr>,
     case ferr f of
       Some e \<Rightarrow> Inl e
     | None \<Rightarrow>
         (case fclaims f of
            None \<Rightarrow> Inl ''tokens: signature mismatch''
          | Some c \<Rightarrow>
              (case dst of
                 None \<Rightarrow> Inr None
               | Some unmarshal \<Rightarrow>
                   (case marshal c of
                      Inl e \<Rightarrow> Inl (''tokens.Fake: marshal stored claims: '' @ e)
                    | Inr raw \<Rightarrow>
                        (case unmarshal raw of
                           Inl e \<Rightarrow> Inl (''tokens.Fake: unmarshal into dst: '' @ e)
                         | Inr d \<Rightarrow> Inr (Some d))))))"

definition Fake_SignCount :: "'c token_fake \<Rightarrow> 64 word" where "Fake_SignCount f = signed f"
definition Fake_VerifyCount :: "'c token_fake \<Rightarrow> 64 word" where "Fake_VerifyCount f = verified f"
definition Fake_SetError :: "string option \<Rightarrow> 'c token_fake \<Rightarrow> 'c token_fake" where "Fake_SetError e f = f\<lparr>ferr := e\<rparr>"
definition Fake_SetClaims :: "'c option \<Rightarrow> 'c token_fake \<Rightarrow> 'c token_fake" where "Fake_SetClaims c f = f\<lparr>fclaims := c\<rparr>"

lemma Fake_Sign_numbers:
  "n < 2 ^ 63 - 1 \<Longrightarrow> snd (Fake_Sign ((AlwaysValid c)\<lparr>signed := of_nat n\<rparr>)) = Inr (''fake-token-'' @ nat_dec (Suc n))"
proof -
  assume n: "n < 2 ^ 63 - 1"
  have "(of_nat n + 1 :: 64 word) = word_of_int (int (Suc n))" by simp
  then have "sint (of_nat n + 1 :: 64 word) = int (Suc n)"
    using n by (simp only: int_word_sint) simp
  then show ?thesis by (simp add: Fake_Sign_def AlwaysValid_def int_dec_def Let_def nat_add_distrib)
qed

section \<open>Properties\<close>

lemma b64_not_dot [simp]: "n < 64 \<Longrightarrow> b64_char n \<noteq> CHR ''.''" "n < 64 \<Longrightarrow> CHR ''.'' \<noteq> b64_char n"
  using b64_char_visible(3) [of n] by auto

lemma b64_no_dot: "CHR ''.'' \<notin> set (b64_encode s)"
proof (induction s rule: b64_encode.induct)
  case (2 a)
  show ?case using b64_arith [of "byte a" 0 0] by simp
next
  case (3 a b)
  show ?case using b64_arith [of "byte a" "byte b" 0] by simp
next
  case (4 a b c s)
  then show ?case using b64_arith [of "byte a" "byte b" "byte c"] by simp
qed simp

lemma jwtHeader_doc: "jwtHeader = Marshal (DObj [(''alg'', DStr ''HS256''), (''typ'', DStr ''JWT'')])"
  by (simp add: jwtHeader_def enc_string_def runes_ascii is_ascii_def enc_rune_def RuneError_def Let_def)

lemma token_field_names:
  "field_name ''alg'' ''alg''" "\<not> field_name ''typ'' ''alg''" "field_name ''exp'' ''exp''" "\<not> field_name ''nbf'' ''exp''"
  "field_name ''nbf'' ''nbf''"
  by (simp_all add: field_name_ascii is_ascii_def fold_rune_def)

lemma verify_header: "verifyAlgorithm jwtHeader = None"
proof -
  have "utf8_clean ''alg'' = ''alg''" "utf8_clean ''typ'' = ''typ''" "utf8_clean ''HS256'' = ''HS256''" "utf8_clean ''JWT'' = ''JWT''"
    by (rule utf8_clean_ascii; simp add: is_ascii_def)+
  then have "json_parse jwtHeader = Some (RawObj [(''alg'', RawStr ''HS256''), (''typ'', RawStr ''JWT'')])"
    using json_parse_Marshal [of "DObj [(''alg'', DStr ''HS256''), (''typ'', DStr ''JWT'')]"]
    by (simp add: jwtHeader_doc maxNestingDepth_def)
  then show ?thesis
    by (simp add: verifyAlgorithm_def decode_alg_def token_field_names decode_string_def)
qed

lemma token_payload:
  "\<exists>tok. Sign mac h (Inr payload) = Inr tok \<and>
    Verify mac h now dst tok =
      (case checkTimeClaims h now payload of
         Some e \<Rightarrow> Inl e
       | None \<Rightarrow>
           (case dst of
              None \<Rightarrow> Inr None
            | Some decode \<Rightarrow> (case decode payload of None \<Rightarrow> Inl ErrMalformed | Some d \<Rightarrow> Inr (Some d))))"
proof -
  let ?i = "b64_encode jwtHeader @ ''.'' @ b64_encode payload"
  let ?tok = "?i @ ''.'' @ b64_encode (sign mac h ?i)"
  have "strings_Split ?tok (CHR ''.'') = [b64_encode jwtHeader, b64_encode payload, b64_encode (sign mac h ?i)]"
    using b64_no_dot by (simp add: strings_Split_append strings_Split_no_sep)
  then have "Verify mac h now dst ?tok =
      (case checkTimeClaims h now payload of
         Some e \<Rightarrow> Inl e
       | None \<Rightarrow>
           (case dst of
              None \<Rightarrow> Inr None
            | Some decode \<Rightarrow> (case decode payload of None \<Rightarrow> Inl ErrMalformed | Some d \<Rightarrow> Inr (Some d))))"
    by (simp only: Verify_def list.case b64_roundtrip option.case verify_header Let_def) simp
  then show ?thesis by (simp add: Sign_def)
qed

text \<open>A token that was signed verifies with the same secret, for every MAC: \<^verbatim>\<open>Verify\<close> gives what
  the time claims of the payload and the caller's decoder say about the payload that was signed,
  byte for byte.\<close>

theorem token_roundtrip:
  "\<exists>tok. Sign mac h (Inr payload) = Inr tok \<and>
    Verify mac h now dst tok =
      (case checkTimeClaims h now payload of
         Some e \<Rightarrow> Inl e
       | None \<Rightarrow>
           (case dst of
              None \<Rightarrow> Inr None
            | Some decode \<Rightarrow> (case decode payload of None \<Rightarrow> Inl ErrMalformed | Some d \<Rightarrow> Inr (Some d))))"
  by (rule token_payload)

lemma split_three:
  assumes "strings_Split s c = [p0, p1, p2]"
  shows "s = p0 @ [c] @ p1 @ [c] @ p2"
  using strings_Split_Join [of s c] assms by simp

lemma time_Add_sat_exact:
  assumes "0 \<le> s" "s \<le> 2 ^ 62" "- (2 ^ 63) \<le> d" "d < 2 ^ 63"
  shows "time_Add_sat (second * s) d = second * s + d"
proof -
  have "- (2 ^ 63) \<le> s + d div second" "s + d div second \<le> 2 ^ 63 - 1" using assms by simp_all
  then have "time_Add_sat (second * s) d = (s + d div second) * second + d mod second"
    by (simp add: time_Add_sat_def Let_def)
  then show ?thesis by (simp add: algebra_simps)
qed

lemma time_Unix_exact: "0 \<le> n \<Longrightarrow> n \<le> 2 ^ 50 \<Longrightarrow> time_Unix n = second * (n + 62135596800)"
  by (simp add: time_Unix_def wrap64_def)

lemma claim_instant:
  assumes "1 \<le> n" "n \<le> 2 ^ 50" "- (2 ^ 63) \<le> d" "d < 2 ^ 63"
  shows "time_Add_sat (time_Unix n) d = second * (n + 62135596800) + d"
  using assms time_Add_sat_exact [of "n + 62135596800" d] unfolding time_Unix_exact [of n] by (simp add: time_Unix_exact)

lemma wrap64_neg: "0 \<le> d \<Longrightarrow> d < 2 ^ 63 \<Longrightarrow> wrap64 (- d) = - d"
  by (simp add: wrap64_def)

text \<open>(C32) What an accepted token is: three segments whose third decodes to the MAC of the first two
  as they stand, under a header that names HS256 (so neither \<^verbatim>\<open>none\<close> nor another algorithm), over
  a payload whose time claims, when they decode, hold at the verifier's clock up to the leeway.\<close>

theorem verify_sound:
  assumes "Verify mac h now dst tok = Inr r" "0 \<le> leeway h" "leeway h < 2 ^ 63"
  shows "\<exists>p0 p1 p2 header payload. tok = p0 @ ''.'' @ p1 @ ''.'' @ p2 \<and>
    b64_decode p2 = Some (mac (secret h) (p0 @ ''.'' @ p1)) \<and>
    b64_decode p0 = Some header \<and> decode_alg header = Some ''HS256'' \<and> b64_decode p1 = Some payload \<and>
    (\<forall>t. decode_times payload = Some t \<longrightarrow>
      (ExpiresAt t \<in> {1..2 ^ 50} \<longrightarrow> now \<le> second * (ExpiresAt t + 62135596800) + leeway h) \<and>
      (NotBefore t \<in> {1..2 ^ 50} \<longrightarrow> second * (NotBefore t + 62135596800) - leeway h \<le> now))"
proof -
  obtain p0 p1 p2 where p: "strings_Split tok (CHR ''.'') = [p0, p1, p2]"
    using assms(1) by (auto simp: Verify_def split: list.splits)
  obtain header where header: "b64_decode p0 = Some header" "verifyAlgorithm header = None"
    using assms(1) p by (auto simp: Verify_def split: option.splits)
  obtain got where got: "b64_decode p2 = Some got" "got = mac (secret h) (p0 @ ''.'' @ p1)"
    using assms(1) p header by (auto simp: Verify_def sign_def Let_def split: option.splits if_splits)
  obtain payload where payload: "b64_decode p1 = Some payload" "checkTimeClaims h now payload = None"
    using assms(1) p header got by (auto simp: Verify_def sign_def Let_def split: option.splits if_splits)
  have alg: "decode_alg header = Some ''HS256''"
    using header(2) by (auto simp: verifyAlgorithm_def split: option.splits if_splits)
  have times: "(ExpiresAt t \<in> {1..2 ^ 50} \<longrightarrow> now \<le> second * (ExpiresAt t + 62135596800) + leeway h) \<and>
      (NotBefore t \<in> {1..2 ^ 50} \<longrightarrow> second * (NotBefore t + 62135596800) - leeway h \<le> now)"
    if "decode_times payload = Some t" for t
  proof -
    have "ExpiresAt t \<noteq> 0 \<Longrightarrow> now \<le> time_Add_sat (time_Unix (ExpiresAt t)) (leeway h)"
      "NotBefore t \<noteq> 0 \<Longrightarrow> time_Add_sat (time_Unix (NotBefore t)) (wrap64 (- leeway h)) \<le> now"
      using payload(2) that by (auto simp: checkTimeClaims_def split: if_splits)
    then show ?thesis
      using assms(2,3) claim_instant [of "ExpiresAt t" "leeway h"] claim_instant [of "NotBefore t" "- leeway h"]
      by (auto simp: wrap64_neg)
  qed
  have "tok = p0 @ ''.'' @ p1 @ ''.'' @ p2" using split_three [OF p] by simp
  then show ?thesis using got header(1) alg payload(1) times by blast
qed

theorem verify_sound_witness:
  "\<exists>tok. Verify (\<lambda>k m. k) \<lparr>secret = ''key'', leeway = 0\<rparr> 0 (None :: (string \<Rightarrow> string option) option) tok = Inr None \<and>
    (\<exists>p0 p1 p2. tok = p0 @ ''.'' @ p1 @ ''.'' @ p2 \<and> b64_decode p2 = Some ''key'')"
proof -
  let ?h = "\<lparr>secret = ''key'', leeway = 0\<rparr>"
  have "checkTimeClaims ?h 0 ''{}'' = None"
    using json_parse_Marshal [of "DObj []"] by (simp add: checkTimeClaims_def decode_times_def maxNestingDepth_def)
  then obtain tok where v: "Verify (\<lambda>k m. k) ?h 0 (None :: (string \<Rightarrow> string option) option) tok = Inr None"
    using token_payload [of "\<lambda>k m. k" ?h "''{}''" 0 "None :: (string \<Rightarrow> string option) option"] by auto
  show ?thesis using verify_sound [OF v] v by auto
qed

text \<open>A time claim that is not an integer literal, such as the fractional \<^verbatim>\<open>NumericDate\<close> the standard
  allows, makes the whole decoding fail, and then neither claim is enforced. A payload whose expiry
  is a string is accepted at any time.\<close>

theorem odd_expiry_unchecked:
  "decode_int n (RawNum ''1.5'' q) = None \<and>
    checkTimeClaims h now (Marshal (DObj [(''exp'', DStr ''1'')])) = None"
proof -
  have "utf8_clean ''exp'' = ''exp''" by (rule utf8_clean_ascii) (simp add: is_ascii_def)
  then have "decode_times (Marshal (DObj [(''exp'', DStr ''1'')])) = None"
    using json_parse_Marshal [of "DObj [(''exp'', DStr ''1'')]"]
    by (simp add: decode_times_def maxNestingDepth_def decode_time_member_def token_field_names decode_int_def del: Marshal.simps)
  then show ?thesis by (simp add: checkTimeClaims_def decode_int_def is_digit_def)
qed

end
