(* ===== verification/Token_Claims.thy ===== *)
theory Token_Claims
  imports Tokens
begin

text \<open>
  The registered claims and the options of \<^verbatim>\<open>internal/tokens/tokens.go\<close>: \<^verbatim>\<open>StandardClaims\<close> is written and
  read by \<^verbatim>\<open>encoding/json\<close> after its field tags, and a token that carries it is followed from signing to
  the claims its reader gets.
\<close>

section \<open>Options\<close>

record 'c token_config =
  cfgClk :: 'c
  cfgLeeway :: duration

type_synonym 'c token_option = "'c token_config \<Rightarrow> 'c token_config"

definition WithClock :: "'c option \<Rightarrow> 'c token_option" where
  "WithClock clk c = (case clk of None \<Rightarrow> c | Some k \<Rightarrow> c\<lparr>cfgClk := k\<rparr>)"

definition WithLeeway :: "duration \<Rightarrow> 'c token_option" where
  "WithLeeway d c = c\<lparr>cfgLeeway := d\<rparr>"

definition newConfig :: "'c \<Rightarrow> 'c token_option list \<Rightarrow> 'c token_config" where
  "newConfig clockDefault opts = fold (\<lambda>opt c. opt c) opts \<lparr>cfgClk = clockDefault, cfgLeeway = 0\<rparr>"

text \<open>\<^verbatim>\<open>NewHMAC256\<close> with its options: the signer and the clock it reads.\<close>

definition NewHMAC256_opts :: "'c \<Rightarrow> string \<Rightarrow> 'c token_option list \<Rightarrow> (hmac \<times> 'c) result" where
  "NewHMAC256_opts clockDefault key opts =
    (let cfg = newConfig clockDefault opts in map_sum id (\<lambda>h. (h, cfgClk cfg)) (NewHMAC256 key (cfgLeeway cfg)))"

text \<open>The last leeway counts, and a nil clock leaves the clock that was set before.\<close>

lemma options_apply:
  "NewHMAC256_opts dflt (k # ey) [WithClock (Some c), WithLeeway d, WithClock None] = Inr (\<lparr>secret = k # ey, leeway = d\<rparr>, c)"
  by (simp add: NewHMAC256_opts_def newConfig_def WithClock_def WithLeeway_def NewHMAC256_def)

section \<open>Registered claims\<close>

record standard_claims =
  scSubject :: string
  scIssuer :: string
  scAudience :: string
  scJWTID :: string
  scIssuedAt :: int
  scExpiresAt :: int
  scNotBefore :: int

definition zero_claims :: standard_claims where
  "zero_claims = \<lparr>scSubject = '''', scIssuer = '''', scAudience = '''', scJWTID = '''', scIssuedAt = 0, scExpiresAt = 0, scNotBefore = 0\<rparr>"

text \<open>\<^verbatim>\<open>omitempty\<close> leaves out empty strings and zeros.\<close>

definition str_member :: "string \<Rightarrow> string \<Rightarrow> (string \<times> jdoc) list" where
  "str_member k v = (if v = '''' then [] else [(k, DStr v)])"

definition int_member :: "string \<Rightarrow> int \<Rightarrow> (string \<times> jdoc) list" where
  "int_member k v = (if v = 0 then [] else [(k, DInt v)])"

definition claim_members :: "standard_claims \<Rightarrow> (string \<times> jdoc) list" where
  "claim_members c =
    str_member ''sub'' (scSubject c) @ str_member ''iss'' (scIssuer c) @ str_member ''aud'' (scAudience c) @
    str_member ''jti'' (scJWTID c) @ int_member ''iat'' (scIssuedAt c) @ int_member ''exp'' (scExpiresAt c) @
    int_member ''nbf'' (scNotBefore c)"

definition claims_doc :: "standard_claims \<Rightarrow> jdoc" where
  "claims_doc c = DObj (claim_members c)"

definition decode_claim :: "string \<times> raw \<Rightarrow> standard_claims \<Rightarrow> standard_claims option" where
  "decode_claim kv c =
    (if field_name (fst kv) ''sub'' then map_option (\<lambda>s. c\<lparr>scSubject := s\<rparr>) (decode_string (scSubject c) (snd kv))
     else if field_name (fst kv) ''iss'' then map_option (\<lambda>s. c\<lparr>scIssuer := s\<rparr>) (decode_string (scIssuer c) (snd kv))
     else if field_name (fst kv) ''aud'' then map_option (\<lambda>s. c\<lparr>scAudience := s\<rparr>) (decode_string (scAudience c) (snd kv))
     else if field_name (fst kv) ''jti'' then map_option (\<lambda>s. c\<lparr>scJWTID := s\<rparr>) (decode_string (scJWTID c) (snd kv))
     else if field_name (fst kv) ''iat'' then map_option (\<lambda>n. c\<lparr>scIssuedAt := n\<rparr>) (decode_int (scIssuedAt c) (snd kv))
     else if field_name (fst kv) ''exp'' then map_option (\<lambda>n. c\<lparr>scExpiresAt := n\<rparr>) (decode_int (scExpiresAt c) (snd kv))
     else if field_name (fst kv) ''nbf'' then map_option (\<lambda>n. c\<lparr>scNotBefore := n\<rparr>) (decode_int (scNotBefore c) (snd kv))
     else Some c)"

definition decode_claims :: "string \<Rightarrow> standard_claims option" where
  "decode_claims payload =
    (case json_parse payload of
       None \<Rightarrow> None
     | Some v \<Rightarrow>
         (case v of
            RawObj kvs \<Rightarrow> opt_fold decode_claim kvs zero_claims
          | RawNull \<Rightarrow> Some zero_claims
          | _ \<Rightarrow> None))"

text \<open>Claims that JSON can carry: text of valid UTF-8 and integers of 64 bits.\<close>

definition claims_ok :: "standard_claims \<Rightarrow> bool" where
  "claims_ok c \<longleftrightarrow> clean (scSubject c) \<and> clean (scIssuer c) \<and> clean (scAudience c) \<and> clean (scJWTID c) \<and>
    list_all (\<lambda>n. - (2 ^ 63) \<le> n \<and> n < 2 ^ 63) [scIssuedAt c, scExpiresAt c, scNotBefore c]"

section \<open>Reading what was written\<close>

lemma opt_fold_append: "opt_fold f (xs @ ys) s = (case opt_fold f xs s of None \<Rightarrow> None | Some t \<Rightarrow> opt_fold f ys t)"
  by (induction xs arbitrary: s) (simp_all split: option.split)

definition members :: "(string \<times> jdoc) list \<Rightarrow> (string \<times> raw) list" where
  "members kxs = map (\<lambda>(k, x). (utf8_clean k, doc_value x)) kxs"

lemma members_append: "members (xs @ ys) = members xs @ members ys"
  by (simp add: members_def)

lemma claim_texts: "list_all (\<lambda>k. utf8_clean k = k) [''sub'', ''iss'', ''aud'', ''jti'', ''iat'', ''exp'', ''nbf'']"
  by (simp add: utf8_clean_ascii is_ascii_def)

text \<open>Between names of lower-case letters, folding is no difference.\<close>

definition lower :: "string \<Rightarrow> bool" where
  "lower s \<longleftrightarrow> list_all (\<lambda>c. 97 \<le> byte c \<and> byte c \<le> 122) s"

lemma field_name_lower:
  assumes "lower k" "lower f"
  shows "field_name k f \<longleftrightarrow> k = f"
proof -
  have fold: "map (\<lambda>c. fold_rune (byte c)) s = map byte s" if "lower s" for s
    using that by (auto simp: lower_def list_all_iff fold_rune_def)
  have "is_ascii s" if "lower s" for s using that by (auto simp: lower_def list_all_iff is_ascii_def)
  then show ?thesis
    using assms by (simp only: field_name_ascii fold) (simp add: inj_map_eq_map inj_def)
qed

lemma claim_lower: "list_all lower [''sub'', ''iss'', ''aud'', ''jti'', ''iat'', ''exp'', ''nbf'']"
  by (simp add: lower_def)

lemma claim_names:
  "k \<in> set [''sub'', ''iss'', ''aud'', ''jti'', ''iat'', ''exp'', ''nbf''] \<Longrightarrow>
   f \<in> set [''sub'', ''iss'', ''aud'', ''jti'', ''iat'', ''exp'', ''nbf''] \<Longrightarrow> field_name k f \<longleftrightarrow> k = f"
  by (rule field_name_lower) (use claim_lower in \<open>auto simp: list_all_iff\<close>)

lemma decode_str_members:
  assumes "clean v"
  shows "scSubject c = '''' \<Longrightarrow> opt_fold decode_claim (members (str_member ''sub'' v)) c = Some (c\<lparr>scSubject := v\<rparr>)"
    and "scIssuer c = '''' \<Longrightarrow> opt_fold decode_claim (members (str_member ''iss'' v)) c = Some (c\<lparr>scIssuer := v\<rparr>)"
    and "scAudience c = '''' \<Longrightarrow> opt_fold decode_claim (members (str_member ''aud'' v)) c = Some (c\<lparr>scAudience := v\<rparr>)"
    and "scJWTID c = '''' \<Longrightarrow> opt_fold decode_claim (members (str_member ''jti'' v)) c = Some (c\<lparr>scJWTID := v\<rparr>)"
  using assms claim_texts
  by (simp_all add: str_member_def members_def decode_claim_def claim_names decode_string_def clean_def)

lemma decode_int_members:
  assumes "- (2 ^ 63) \<le> n \<and> n < 2 ^ 63"
  shows "scIssuedAt c = 0 \<Longrightarrow> opt_fold decode_claim (members (int_member ''iat'' n)) c = Some (c\<lparr>scIssuedAt := n\<rparr>)"
    and "scExpiresAt c = 0 \<Longrightarrow> opt_fold decode_claim (members (int_member ''exp'' n)) c = Some (c\<lparr>scExpiresAt := n\<rparr>)"
    and "scNotBefore c = 0 \<Longrightarrow> opt_fold decode_claim (members (int_member ''nbf'' n)) c = Some (c\<lparr>scNotBefore := n\<rparr>)"
  using assms claim_texts
  by (simp_all add: int_member_def members_def decode_claim_def claim_names decode_int_doc del: doc_value.simps)

lemma claims_parse: "json_parse (Marshal (claims_doc c)) = Some (RawObj (members (claim_members c)))"
proof -
  have "(k, x) \<in> set (claim_members c) \<Longrightarrow> doc_depth x = 0" for k x
    by (auto simp: claim_members_def str_member_def int_member_def split: if_splits)
  then have "doc_depth (claims_doc c) \<le> maxNestingDepth"
    by (auto simp: claims_doc_def maxNestingDepth_def intro!: Max.boundedI)
  from json_parse_Marshal [OF this] show ?thesis by (simp only: claims_doc_def doc_value.simps members_def)
qed

lemma decode_claims_doc: "claims_ok c \<Longrightarrow> decode_claims (Marshal (claims_doc c)) = Some c"
  unfolding decode_claims_def claims_parse claim_members_def
  by (simp add: members_append opt_fold_append decode_str_members decode_int_members zero_claims_def claims_ok_def)

text \<open>The time claims see only the expiry and the start.\<close>

lemma decode_time_str:
  "opt_fold decode_time_member (members (str_member ''sub'' v)) t = Some t"
  "opt_fold decode_time_member (members (str_member ''iss'' v)) t = Some t"
  "opt_fold decode_time_member (members (str_member ''aud'' v)) t = Some t"
  "opt_fold decode_time_member (members (str_member ''jti'' v)) t = Some t"
  using claim_texts by (simp_all add: str_member_def members_def decode_time_member_def claim_names)

lemma decode_time_int:
  assumes "- (2 ^ 63) \<le> n \<and> n < 2 ^ 63"
  shows "opt_fold decode_time_member (members (int_member ''iat'' n)) t = Some t"
    and "ExpiresAt t = 0 \<Longrightarrow> opt_fold decode_time_member (members (int_member ''exp'' n)) t = Some (t\<lparr>ExpiresAt := n\<rparr>)"
    and "NotBefore t = 0 \<Longrightarrow> opt_fold decode_time_member (members (int_member ''nbf'' n)) t = Some (t\<lparr>NotBefore := n\<rparr>)"
  using assms claim_texts
  by (simp_all add: int_member_def members_def decode_time_member_def claim_names decode_int_doc del: doc_value.simps)

lemma decode_times_doc:
  "claims_ok c \<Longrightarrow> decode_times (Marshal (claims_doc c)) = Some \<lparr>ExpiresAt = scExpiresAt c, NotBefore = scNotBefore c\<rparr>"
  unfolding decode_times_def claims_parse claim_members_def
  by (simp add: members_append opt_fold_append decode_time_str decode_time_int claims_ok_def)

section \<open>Properties\<close>

text \<open>(C31) Standard claims, from signing to reading. For every MAC and secret, claims of valid UTF-8 are signed, and
  verifying the token gives exactly these claims while the clock lies between the start and the expiry, up
  to the leeway; after the expiry it fails as expired, and otherwise before the start as not yet valid.\<close>

theorem standard_claims_roundtrip:
  assumes "claims_ok c" "scExpiresAt c \<in> {0..2 ^ 50}" "scNotBefore c \<in> {0..2 ^ 50}" "0 \<le> leeway h" "leeway h < 2 ^ 63"
  shows "\<exists>tok. Sign mac h (Inr (Marshal (claims_doc c))) = Inr tok \<and>
    Verify mac h now (Some decode_claims) tok =
      (if scExpiresAt c \<noteq> 0 \<and> now > second * (scExpiresAt c + 62135596800) + leeway h then Inl ErrExpired
       else if scNotBefore c \<noteq> 0 \<and> now < second * (scNotBefore c + 62135596800) - leeway h then Inl ErrNotYetValid
       else Inr (Some c))"
proof -
  have exp: "time_Add_sat (time_Unix (scExpiresAt c)) (leeway h) = second * (scExpiresAt c + 62135596800) + leeway h"
    if "scExpiresAt c \<noteq> 0" using assms(2,4,5) that by (intro claim_instant) auto
  have nbf: "time_Add_sat (time_Unix (scNotBefore c)) (wrap64 (- leeway h)) = second * (scNotBefore c + 62135596800) - leeway h"
    if "scNotBefore c \<noteq> 0"
    using assms(3,4,5) that claim_instant [of "scNotBefore c" "- leeway h"] by (simp add: wrap64_neg)
  have late: "scExpiresAt c \<noteq> 0 \<and> now > time_Add_sat (time_Unix (scExpiresAt c)) (leeway h) \<longleftrightarrow>
      scExpiresAt c \<noteq> 0 \<and> now > second * (scExpiresAt c + 62135596800) + leeway h" by (metis exp)
  have early: "scNotBefore c \<noteq> 0 \<and> now < time_Add_sat (time_Unix (scNotBefore c)) (wrap64 (- leeway h)) \<longleftrightarrow>
      scNotBefore c \<noteq> 0 \<and> now < second * (scNotBefore c + 62135596800) - leeway h" by (metis nbf)
  have "checkTimeClaims h now (Marshal (claims_doc c)) =
      (if scExpiresAt c \<noteq> 0 \<and> now > second * (scExpiresAt c + 62135596800) + leeway h then Some ErrExpired
       else if scNotBefore c \<noteq> 0 \<and> now < second * (scNotBefore c + 62135596800) - leeway h then Some ErrNotYetValid
       else None)"
    unfolding checkTimeClaims_def decode_times_doc [OF assms(1)] option.case time_claims.simps late early ..
  then show ?thesis
    using token_payload [of mac h "Marshal (claims_doc c)" now "Some decode_claims"]
    by (simp add: decode_claims_doc [OF assms(1)] split: if_splits)
qed

theorem standard_claims_roundtrip_witness:
  "\<exists>tok. Verify (\<lambda>k m. k) \<lparr>secret = ''key'', leeway = 0\<rparr> (second * 62135596850) (Some decode_claims) tok =
    Inr (Some (zero_claims\<lparr>scSubject := ''u_1'', scExpiresAt := 100\<rparr>))"
proof -
  have "claims_ok (zero_claims\<lparr>scSubject := ''u_1'', scExpiresAt := 100\<rparr>)"
    by (simp add: claims_ok_def zero_claims_def clean_ascii is_ascii_def)
  from standard_claims_roundtrip [OF this, of "\<lparr>secret = ''key'', leeway = 0\<rparr>" "\<lambda>k m. k" "second * 62135596850"]
  show ?thesis by (auto simp: zero_claims_def)
qed

end
