(* ===== verification/Sampling.thy ===== *)
theory Sampling
  imports Go_Float Go_Time "HOL-Library.Word"
begin

text \<open>
  Sampling (\<^verbatim>\<open>internal/random/random.go\<close>). The source of
  random bytes is a parameter: what it gives is an argument of the operation that reads it. The
  generator behind the seeded source, that of \<^verbatim>\<open>math/rand/v2\<close>, is a record of functions.
\<close>

section \<open>Numbers\<close>

text \<open>The top 53 bits of eight big-endian bytes, divided by \<open>2 ^ 53\<close>: exact in \<^verbatim>\<open>float64\<close>.\<close>

definition be_uint64 :: "8 word list \<Rightarrow> 64 word" where
  "be_uint64 bs = foldl (\<lambda>u b. or (push_bit 8 u) (ucast b)) 0 bs"

definition Crypto_Float64 :: "8 word list \<Rightarrow> rat" where
  "Crypto_Float64 bs = of_nat (unat (drop_bit 11 (be_uint64 bs))) / 2 ^ 53"

text \<open>A product of two \<^verbatim>\<open>float64\<close> values is rounded; \<^verbatim>\<open>int\<close> cuts the fraction off.\<close>

definition Crypto_IntN :: "8 word list \<Rightarrow> int \<Rightarrow> int result" where
  "Crypto_IntN bs n =
    (if n \<le> 0 then Inl ''random: IntN requires n > 0''
     else
       (case float64_round (of_int n) of
          None \<Rightarrow> Inl ''overflow''
        | Some fn \<Rightarrow>
            (case float64_round (Crypto_Float64 bs * fn) of
               None \<Rightarrow> Inl ''overflow''
             | Some q \<Rightarrow> Inr \<lfloor>q\<rfloor>)))"

text \<open>\<^verbatim>\<open>IntRange\<close> of both sources, over their \<^verbatim>\<open>IntN\<close>.\<close>

definition IntRange :: "(int \<Rightarrow> int result) \<Rightarrow> int \<Rightarrow> int \<Rightarrow> int result" where
  "IntRange intN lo hi =
    (if hi < lo then Inl ''random: IntRange requires hi >= lo''
     else (case intN (wrap64 (hi - lo + 1)) of Inl e \<Rightarrow> Inl e | Inr k \<Rightarrow> Inr (wrap64 (lo + k))))"

definition Random_Bytes :: "(nat \<Rightarrow> (8 word list) result) \<Rightarrow> int \<Rightarrow> (8 word list) result" where
  "Random_Bytes read n =
    (if n < 0 then Inl ''random: Bytes requires n >= 0''
     else (case read (nat n) of Inl e \<Rightarrow> Inl (''crypto/rand: '' @ e) | Inr b \<Rightarrow> Inr b))"

section \<open>UUIDs\<close>

text \<open>A digit of \<open>hex\<close>, and the loop of \<^verbatim>\<open>formatUUID\<close> with the output written from the front.\<close>

definition hex_digit :: "8 word \<Rightarrow> char" where
  "hex_digit d = ''0123456789abcdef'' ! unat d"

fun format_loop :: "nat \<Rightarrow> 8 word list \<Rightarrow> string" where
  "format_loop i [] = []"
| "format_loop i (x # b) =
    (if i = 4 \<or> i = 6 \<or> i = 8 \<or> i = 10 then ''-'' else '''') @
    [hex_digit (drop_bit 4 x), hex_digit (and x 0x0f)] @ format_loop (Suc i) b"

definition formatUUID :: "8 word list \<Rightarrow> string" where
  "formatUUID b = format_loop 0 b"

definition Random_UUID :: "8 word list \<Rightarrow> string" where
  "Random_UUID b =
    (let b = b[6 := or (and (b ! 6) 0x0f) 0x40];
         b = b[8 := or (and (b ! 8) 0x3f) 0x80]
     in formatUUID b)"

definition Crypto_UUID :: "(nat \<Rightarrow> (8 word list) result) \<Rightarrow> string result" where
  "Crypto_UUID read = (case read 16 of Inl e \<Rightarrow> Inl (''crypto/rand: '' @ e) | Inr b \<Rightarrow> Inr (Random_UUID b))"

section \<open>The seeded source\<close>

text \<open>The methods of \<^verbatim>\<open>rand.Rand\<close> of \<^verbatim>\<open>math/rand/v2\<close> the source calls, over the state of its generator; how the
  PCG generator computes is not modelled.\<close>

record 'g rand =
  rFloat64 :: "'g \<Rightarrow> rat \<times> 'g"
  rIntN :: "int \<Rightarrow> 'g \<Rightarrow> int \<times> 'g"
  rUintN :: "nat \<Rightarrow> 'g \<Rightarrow> nat \<times> 'g"

text \<open>Its documentation: the draws lie in the range asked for.\<close>

definition rand_contract :: "'g rand \<Rightarrow> bool" where
  "rand_contract r \<longleftrightarrow>
    (\<forall>g. 0 \<le> fst (rFloat64 r g) \<and> fst (rFloat64 r g) < 1) \<and>
    (\<forall>n g. 0 < n \<longrightarrow> 0 \<le> fst (rIntN r n g) \<and> fst (rIntN r n g) < n) \<and>
    (\<forall>n g. 0 < n \<longrightarrow> fst (rUintN r n g) < n)"

definition NewSeeded :: "(64 word \<Rightarrow> 64 word \<Rightarrow> 'g) \<Rightarrow> 64 word \<Rightarrow> 'g" where
  "NewSeeded newPCG seed = newPCG seed (xor seed 0x9E3779B97F4A7C15)"

definition Seeded_Float64 :: "'g rand \<Rightarrow> 'g \<Rightarrow> rat \<times> 'g" where
  "Seeded_Float64 r g = rFloat64 r g"

definition Seeded_IntN :: "'g rand \<Rightarrow> int \<Rightarrow> 'g \<Rightarrow> int result \<times> 'g" where
  "Seeded_IntN r n g =
    (if n \<le> 0 then (Inl ''random: IntN requires n > 0'', g) else (case rIntN r n g of (k, g') \<Rightarrow> (Inr k, g')))"

text \<open>\<^verbatim>\<open>IntRange\<close> calls the generator, which panics for what is not positive.\<close>

definition Seeded_IntRange :: "'g rand \<Rightarrow> int \<Rightarrow> int \<Rightarrow> 'g \<Rightarrow> int result \<times> 'g" where
  "Seeded_IntRange r lo hi g =
    (if hi < lo then (Inl ''random: IntRange requires hi >= lo'', g)
     else
       (let n = wrap64 (hi - lo + 1) in
        if n \<le> 0 then (Inl ''invalid argument to IntN'', g)
        else (case rIntN r n g of (k, g') \<Rightarrow> (Inr (wrap64 (lo + k)), g'))))"

fun fill_bytes :: "'g rand \<Rightarrow> nat \<Rightarrow> 'g \<Rightarrow> 8 word list \<times> 'g" where
  "fill_bytes r 0 g = ([], g)"
| "fill_bytes r (Suc i) g =
    (case rUintN r 256 g of (u, g') \<Rightarrow> (case fill_bytes r i g' of (b, g'') \<Rightarrow> (of_nat u # b, g'')))"

definition Seeded_Bytes :: "'g rand \<Rightarrow> int \<Rightarrow> 'g \<Rightarrow> (8 word list) result \<times> 'g" where
  "Seeded_Bytes r n g =
    (if n < 0 then (Inl ''random: Bytes requires n >= 0'', g) else (case fill_bytes r (nat n) g of (b, g') \<Rightarrow> (Inr b, g')))"

definition Seeded_UUID :: "'g rand \<Rightarrow> 'g \<Rightarrow> string \<times> 'g" where
  "Seeded_UUID r g =
    (case fill_bytes r 16 g of
       (b, g') \<Rightarrow>
         (let b = b[6 := or (and (b ! 6) 0x0f) 0x40];
              b = b[8 := or (and (b ! 8) 0x3f) 0x80]
          in (formatUUID b, g')))"

section \<open>Picking and shuffling\<close>

text \<open>A \<^verbatim>\<open>Random\<close> for these is the list of the values its \<^verbatim>\<open>IntN\<close> gives, call by call.\<close>

definition Pick :: "(int \<Rightarrow> int result) \<Rightarrow> 'a list \<Rightarrow> 'a result" where
  "Pick intN items =
    (if length items = 0 then Inl ''random: Pick on empty slice''
     else (case intN (int (length items)) of Inl e \<Rightarrow> Inl e | Inr k \<Rightarrow> Inr (items ! nat k)))"

definition swap :: "nat \<Rightarrow> nat \<Rightarrow> 'a list \<Rightarrow> 'a list" where
  "swap i j xs = xs[i := xs ! j, j := xs ! i]"

fun shuffle_loop :: "nat \<Rightarrow> nat list \<Rightarrow> 'a list \<Rightarrow> 'a list" where
  "shuffle_loop 0 draws out = out"
| "shuffle_loop (Suc i) draws out = shuffle_loop i (tl draws) (swap (Suc i) (hd draws) out)"

definition Shuffle :: "nat list \<Rightarrow> 'a list \<Rightarrow> 'a list" where
  "Shuffle draws items = shuffle_loop (length items - 1) draws items"

text \<open>The draws \<^verbatim>\<open>Shuffle\<close> asks for: one below \<open>i + 1\<close> for every \<open>i\<close> from the last index down to one.\<close>

fun valid_draws :: "nat \<Rightarrow> nat list \<Rightarrow> bool" where
  "valid_draws 0 draws = (draws = [])"
| "valid_draws (Suc i) draws = (draws \<noteq> [] \<and> hd draws \<le> Suc i \<and> valid_draws i (tl draws))"

lemma length_swap [simp]: "length (swap i j xs) = length xs"
  by (simp add: swap_def)

lemma mset_swap: "i < length xs \<Longrightarrow> j < length xs \<Longrightarrow> mset (swap i j xs) = mset xs"
  by (simp add: swap_def mset_swap)

lemma shuffle_loop_perm:
  "i < length xs \<Longrightarrow> valid_draws i draws \<Longrightarrow> mset (shuffle_loop i draws xs) = mset xs"
proof (induction i draws xs rule: shuffle_loop.induct)
  case (2 i draws out)
  then show ?case using mset_swap [of "Suc i" out "hd draws"] by simp
qed simp

lemma length_shuffle_loop [simp]: "length (shuffle_loop i draws xs) = length xs"
  by (induction i draws xs rule: shuffle_loop.induct) auto

lemma swap_nth:
  "i < length xs \<Longrightarrow> j < length xs \<Longrightarrow> swap i j xs ! k = (if k = i then xs ! j else if k = j then xs ! i else xs ! k)"
  by (cases "k < length xs") (auto simp: swap_def nth_list_update)

text \<open>What lies behind the index is final.\<close>

lemma shuffle_loop_nth:
  "i < k \<Longrightarrow> k < length xs \<Longrightarrow> valid_draws i draws \<Longrightarrow> shuffle_loop i draws xs ! k = xs ! k"
proof (induction i draws xs rule: shuffle_loop.induct)
  case (2 i draws out)
  then have "shuffle_loop i (tl draws) (swap (Suc i) (hd draws) out) ! k = swap (Suc i) (hd draws) out ! k"
    by simp
  also have "\<dots> = out ! k" using 2(2-4) by (simp add: swap_nth)
  finally show ?case by simp
qed simp

text \<open>The element that belongs at the index is among the first ones, at one place only.\<close>

lemma place_of:
  assumes "distinct out" "mset ys = mset out" "Suc i < length out"
    and "drop (Suc (Suc i)) ys = drop (Suc (Suc i)) out"
  shows "\<exists>!j. j \<le> Suc i \<and> out ! j = ys ! Suc i"
proof -
  have len: "length ys = length out" using assms(2) by (metis size_mset)
  have "mset (take (Suc (Suc i)) ys) + mset (drop (Suc (Suc i)) ys) = mset (take (Suc (Suc i)) out) + mset (drop (Suc (Suc i)) out)"
    using assms(2) by (metis append_take_drop_id mset_append)
  then have m: "mset (take (Suc (Suc i)) ys) = mset (take (Suc (Suc i)) out)" using assms(4) by simp
  have "ys ! Suc i \<in> set (take (Suc (Suc i)) ys)"
    using assms(3) len by (auto simp: in_set_conv_nth intro!: exI [of _ "Suc i"])
  then have "ys ! Suc i \<in> set (take (Suc (Suc i)) out)" using m by (metis mset_eq_setD)
  then obtain j where j: "j < Suc (Suc i)" "out ! j = ys ! Suc i"
    using assms(3) by (auto simp: in_set_conv_nth)
  show ?thesis
  proof (rule ex1I [of _ j])
    show "j \<le> Suc i \<and> out ! j = ys ! Suc i" using j by simp
    show "k = j" if "k \<le> Suc i \<and> out ! k = ys ! Suc i" for k
      using that j assms(1,3) by (metis less_Suc_eq_le nth_eq_iff_index_eq order_le_less_trans)
  qed
qed

lemma shuffle_loop_unique:
  "i < length out \<Longrightarrow> distinct out \<Longrightarrow> mset ys = mset out \<Longrightarrow> drop (Suc i) ys = drop (Suc i) out \<Longrightarrow>
    \<exists>!draws. valid_draws i draws \<and> shuffle_loop i draws out = ys"
proof (induction i arbitrary: out)
  case 0
  then obtain x xs where out: "out = x # xs" by (cases out) auto
  moreover have "length ys = length out" using 0(3) by (metis size_mset)
  ultimately obtain y where ys: "ys = y # xs" using 0(4) by (cases ys) auto
  then have "ys = out" using 0(3) out by simp
  then show ?case by auto
next
  case (Suc i)
  obtain j where j: "j \<le> Suc i" "out ! j = ys ! Suc i" and uniq: "\<And>k. k \<le> Suc i \<Longrightarrow> out ! k = ys ! Suc i \<Longrightarrow> k = j"
    using place_of [OF Suc.prems(2,3,1,4)] by blast
  have len: "length ys = length out" using Suc.prems(3) by (metis size_mset)
  let ?out = "swap (Suc i) j out"
  have mset: "mset ?out = mset out" using mset_swap Suc.prems(1) j(1) by (metis order_le_less_trans)
  have nth: "?out ! Suc i = ys ! Suc i" using Suc.prems(1) j by (simp add: swap_nth)
  have "drop (Suc i) ys = drop (Suc i) ?out"
  proof (rule nth_equalityI)
    show "length (drop (Suc i) ys) = length (drop (Suc i) ?out)" using len by simp
    fix k
    assume k: "k < length (drop (Suc i) ys)"
    show "drop (Suc i) ys ! k = drop (Suc i) ?out ! k"
    proof (cases k)
      case 0
      then show ?thesis using nth Suc.prems(1) len by simp
    next
      case (Suc k')
      have "drop (Suc (Suc i)) ys ! k' = drop (Suc (Suc i)) out ! k'" using Suc.prems(4) by simp
      then have "ys ! (Suc i + k) = out ! (Suc i + k)" using k len Suc by simp
      moreover have "?out ! (Suc i + k) = out ! (Suc i + k)"
        using k len j(1) Suc \<open>Suc i < length out\<close> by (simp add: swap_nth)
      ultimately show ?thesis using k len by simp
    qed
  qed
  moreover have "distinct ?out" using mset Suc.prems(2) by (metis mset_eq_imp_distinct_iff)
  ultimately have "\<exists>!draws. valid_draws i draws \<and> shuffle_loop i draws ?out = ys"
    using Suc.IH [of ?out] Suc.prems(1,3) mset by simp
  then obtain ds where ds: "valid_draws i ds" "shuffle_loop i ds ?out = ys"
    and ds_uniq: "\<And>d. valid_draws i d \<Longrightarrow> shuffle_loop i d ?out = ys \<Longrightarrow> d = ds" by blast
  show ?case
  proof (rule ex1I [of _ "j # ds"])
    show "valid_draws (Suc i) (j # ds) \<and> shuffle_loop (Suc i) (j # ds) out = ys" using j ds by simp
    fix d
    assume d: "valid_draws (Suc i) d \<and> shuffle_loop (Suc i) d out = ys"
    then have "ys ! Suc i = swap (Suc i) (hd d) out ! Suc i"
      using shuffle_loop_nth [of i "Suc i" "swap (Suc i) (hd d) out" "tl d"] Suc.prems(1) by simp
    then have "hd d = j" using uniq [of "hd d"] d Suc.prems(1) by (simp add: swap_nth)
    moreover have "tl d = ds" using ds_uniq [of "tl d"] d calculation by simp
    ultimately show "d = j # ds" using d by (metis list.collapse valid_draws.simps(2))
  qed
qed

section \<open>Properties\<close>

text \<open>Shuffling is fair. The result is a permutation of the items for all draws in range, and for
  distinct items every permutation comes from exactly one sequence of draws, so independent uniform
  draws make all permutations equally likely.\<close>

theorem shuffle_fair:
  assumes "items \<noteq> []"
  shows "(valid_draws (length items - 1) draws \<longrightarrow> mset (Shuffle draws items) = mset items) \<and>
    (distinct items \<and> mset ys = mset items \<longrightarrow>
      (\<exists>!draws. valid_draws (length items - 1) draws \<and> Shuffle draws items = ys))"
proof -
  have i: "length items - 1 < length items" using assms by simp
  have "length ys = length items" if "mset ys = mset items" using that by (metis size_mset)
  then show ?thesis
    using shuffle_loop_perm [OF i] shuffle_loop_unique [OF i] by (auto simp: Shuffle_def)
qed

theorem shuffle_fair_witness:
  "Shuffle [0, 1] ''abc'' = ''cba'' \<and> (\<exists>!draws. valid_draws 2 draws \<and> Shuffle draws ''abc'' = ''bca'')"
proof -
  have "(length ''abc'' - 1) = 2" "''abc'' \<noteq> []" by simp_all
  moreover have "mset ''bca'' = mset ''abc''" by simp
  ultimately show ?thesis
    using shuffle_fair [of "''abc''" "[0, 1]" "''bca''"]
    by (simp add: Shuffle_def swap_def numeral_2_eq_2)
qed

section \<open>The shape of a UUID\<close>

lemma version_digit: "hex_digit (drop_bit 4 (or (and x 0x0f) 0x40)) = CHR ''4''" for x :: "8 word"
proof -
  have "drop_bit 4 (or (and x 0x0f) 0x40) = (4 :: 8 word)"
    by (simp add: drop_bit_or drop_bit_and)
  then show ?thesis by (simp add: hex_digit_def)
qed

lemma variant_digit: "hex_digit (drop_bit 4 (or (and x 0x3f) 0x80)) \<in> set ''89ab''" for x :: "8 word"
proof -
  have "drop_bit 4 (or (and x 0x3f) 0x80) = or (and (drop_bit 4 x) 3) (8 :: 8 word)"
    by (simp add: drop_bit_or drop_bit_and)
  moreover have "unat (and (drop_bit 4 x) 3) < 4"
  proof -
    have "and (drop_bit 4 x) 3 = take_bit 2 (drop_bit 4 x)" by (simp add: take_bit_eq_mask mask_eq_exp_minus_1)
    then show ?thesis by (simp add: take_bit_eq_mod unat_mod)
  qed
  then have "unat (and (drop_bit 4 x) 3) \<in> {0, 1, 2, 3}" by auto
  then have "and (drop_bit 4 x) 3 \<in> {0, 1, 2, 3}"
    by (auto simp: unat_eq_0 dest: arg_cong [where f = "of_nat :: nat \<Rightarrow> 8 word"])
  ultimately show ?thesis by (auto simp: hex_digit_def)
qed

lemma hex_digit_cases: "unat d < 16 \<Longrightarrow> hex_digit d \<in> set ''0123456789abcdef''"
  unfolding hex_digit_def by (rule nth_mem) simp

lemma nibbles: "unat (drop_bit 4 x) < 16" "unat (and x 0x0f) < 16" for x :: "8 word"
proof -
  have "unat x < 256" using unsigned_less [of x] by simp
  then show "unat (drop_bit 4 x) < 16" by (simp add: drop_bit_eq_div unat_div)
  have "and x 0x0f = take_bit 4 x" by (simp add: take_bit_eq_mask mask_eq_exp_minus_1)
  then show "unat (and x 0x0f) < 16" by (simp add: take_bit_eq_mod unat_mod)
qed

lemma format_loop_hex: "set (format_loop i b) \<subseteq> set ''-0123456789abcdef''"
  using hex_digit_cases [OF nibbles(1)] hex_digit_cases [OF nibbles(2)] by (induction i b rule: format_loop.induct) auto

lemma fill_bytes_length: "length (fst (fill_bytes r n g)) = n"
  by (induction n arbitrary: g) (simp_all add: split_beta)

lemma sixteen: "length b = 16 \<Longrightarrow> b = map ((!) b) [0..<16]"
  by (metis map_nth)

lemma uuid_at:
  assumes "length b = 16"
  shows "length (Random_UUID b) = 36"
    and "list_all (\<lambda>i. Random_UUID b ! i = CHR ''-'') [8, 13, 18, 23]"
    and "Random_UUID b ! 14 = hex_digit (drop_bit 4 (or (and (b ! 6) 0x0f) 0x40))"
    and "Random_UUID b ! 19 = hex_digit (drop_bit 4 (or (and (b ! 8) 0x3f) 0x80))"
proof -
  define f where "f = (!) (b[6 := or (and (b ! 6) 0x0f) 0x40, 8 := or (and (b ! 8) 0x3f) 0x80])"
  have at: "f 6 = or (and (b ! 6) 0x0f) 0x40" "f 8 = or (and (b ! 8) 0x3f) 0x80" using assms by (simp_all add: f_def)
  have "Random_UUID b = formatUUID (map f [0..<16])"
    using assms sixteen [of "b[6 := or (and (b ! 6) 0x0f) 0x40, 8 := or (and (b ! 8) 0x3f) 0x80]"]
    by (simp add: Random_UUID_def f_def)
  also have "map f [0..<16] = [f 0, f 1, f 2, f 3, f 4, f 5, f 6, f 7, f 8, f 9, f 10, f 11, f 12, f 13, f 14, f 15]"
    by (simp add: upt_conv_Cons eval_nat_numeral)
  finally have u: "Random_UUID b =
      formatUUID [f 0, f 1, f 2, f 3, f 4, f 5, f 6, f 7, f 8, f 9, f 10, f 11, f 12, f 13, f 14, f 15]" .
  show "length (Random_UUID b) = 36" "list_all (\<lambda>i. Random_UUID b ! i = CHR ''-'') [8, 13, 18, 23]"
    "Random_UUID b ! 14 = hex_digit (drop_bit 4 (or (and (b ! 6) 0x0f) 0x40))"
    "Random_UUID b ! 19 = hex_digit (drop_bit 4 (or (and (b ! 8) 0x3f) 0x80))"
    unfolding u formatUUID_def by (simp_all add: at)
qed

text \<open>Every UUID, from either source, has the form of version 4: 36 characters, four dashes in their places, the
  version and the variant digit, and hexadecimal digits elsewhere. A seeded source gives a UUID always.\<close>

theorem uuid_shape:
  assumes "Crypto_UUID read = Inr u \<and> (\<forall>b. read 16 = Inr b \<longrightarrow> length b = 16) \<or> u = fst (Seeded_UUID r g)"
  shows "length u = 36 \<and> list_all (\<lambda>i. u ! i = CHR ''-'') [8, 13, 18, 23] \<and> u ! 14 = CHR ''4'' \<and>
    u ! 19 \<in> set ''89ab'' \<and> set u \<subseteq> set ''-0123456789abcdef''"
proof -
  have "Seeded_UUID r g = (Random_UUID (fst (fill_bytes r 16 g)), snd (fill_bytes r 16 g))"
    by (simp add: Seeded_UUID_def Random_UUID_def split: prod.split)
  then obtain b where b: "u = Random_UUID b" "length b = 16"
    using assms fill_bytes_length [of r 16 g] by (auto simp: Crypto_UUID_def split: sum.splits)
  have "set u \<subseteq> set ''-0123456789abcdef''"
    unfolding b(1) Random_UUID_def formatUUID_def Let_def by (rule format_loop_hex)
  then show ?thesis
    unfolding b(1) using uuid_at [OF b(2)] version_digit variant_digit by simp
qed

text \<open>A generator that counts, which keeps the contract.\<close>

definition counting :: "nat rand" where
  "counting = \<lparr>rFloat64 = (\<lambda>g. (0, Suc g)), rIntN = (\<lambda>n g. (int g mod n, Suc g)), rUintN = (\<lambda>n g. (g mod n, Suc g))\<rparr>"

lemma counting_contract: "rand_contract counting"
  by (simp add: rand_contract_def counting_def)

theorem uuid_shape_witness:
  "fst (Seeded_UUID counting 0) ! 14 = CHR ''4'' \<and> length (fst (Seeded_UUID counting 0)) = 36"
  using uuid_shape [of "\<lambda>_. Inl ''''" "fst (Seeded_UUID counting 0)" counting 0] by simp

text \<open>Over a generator that keeps its documentation, \<^verbatim>\<open>IntRange\<close> of the seeded source is in range for every range
  that an \<^verbatim>\<open>int\<close> can count, and panics for the wider ones although they are not empty.\<close>

theorem seeded_range:
  assumes "rand_contract r" "- (2 ^ 63) \<le> lo" "lo \<le> hi" "hi < 2 ^ 63"
  shows "if hi - lo < 2 ^ 63 - 1 then \<exists>k. fst (Seeded_IntRange r lo hi g) = Inr k \<and> lo \<le> k \<and> k \<le> hi
    else fst (Seeded_IntRange r lo hi g) = Inl ''invalid argument to IntN''"
proof (cases "hi - lo < 2 ^ 63 - 1")
  case True
  then have n: "wrap64 (hi - lo + 1) = hi - lo + 1" using assms(3) by (intro wrap64_id) simp_all
  obtain k g' where k: "rIntN r (hi - lo + 1) g = (k, g')" by fastforce
  have "0 < hi - lo + 1" using assms(3) by simp
  then have "0 \<le> fst (rIntN r (hi - lo + 1) g) \<and> fst (rIntN r (hi - lo + 1) g) < hi - lo + 1"
    using assms(1) unfolding rand_contract_def by blast
  then have range: "0 \<le> k" "k < hi - lo + 1" by (simp_all add: k)
  moreover from this have "wrap64 (lo + k) = lo + k" using assms(2,4) by (intro wrap64_id) simp_all
  ultimately show ?thesis using True assms(3) by (simp add: Seeded_IntRange_def n k)
next
  case False
  define d where "d = hi - lo + 1 - 2 ^ 63"
  have "0 \<le> d" "d \<le> 2 ^ 63" using False assms(2,4) by (simp_all add: d_def)
  then have "(d + 2 ^ 64) mod 2 ^ 64 = d" by (simp add: mod_pos_pos_trivial)
  moreover have "hi - lo + 1 + 2 ^ 63 = d + 2 ^ 64" by (simp add: d_def)
  ultimately have "wrap64 (hi - lo + 1) \<le> 0" using \<open>d \<le> 2 ^ 63\<close> unfolding wrap64_def by simp
  then show ?thesis using False assms(3) by (simp add: Seeded_IntRange_def Let_def)
qed

theorem seeded_range_witness: "\<exists>k. fst (Seeded_IntRange counting 3 5 7) = Inr k \<and> 3 \<le> k \<and> k \<le> 5"
  using seeded_range [OF counting_contract, of 3 5 7] by simp

end
