(* ===== verification/Perf.thy ===== *)
theory Perf
  imports Go_Time "HOL-Library.AList"
begin

text \<open>
  Performance timings (\<^verbatim>\<open>internal/perf/perf.go\<close>, \<^verbatim>\<open>span.go\<close>). Trackers point at their parents, so they
  live in an arena and are named by their index; the readings of the clock are arguments. Entries
  are values: a parent keeps the entries its child had when it ended.
\<close>

section \<open>Entries\<close>

datatype timing_entry =
  TimingEntry (eName: string) (eDurationMs: int) (eChildren: "timing_entry list")
    (eMetrics: "(string \<times> int) list") (eAttributes: "(string \<times> string) list")

text \<open>\<^verbatim>\<open>Duration.Milliseconds\<close>: division toward zero.\<close>

definition Milliseconds :: "duration \<Rightarrow> int" where
  "Milliseconds d = (if d < 0 then - ((- d) div 1000000) else d div 1000000)"

text \<open>The copy of a map in its iteration order, nil when there is nothing to copy.\<close>

definition cloneMetrics :: "(string \<times> int) list \<Rightarrow> (string \<times> int) list" where
  "cloneMetrics metrics =
    (if length metrics = 0 then [] else fold (\<lambda>(k, v) out. AList.update k v out) metrics [])"

definition cloneAttributes :: "(string \<times> string) list \<Rightarrow> (string \<times> string) list" where
  "cloneAttributes attrs =
    (if length attrs = 0 then [] else fold (\<lambda>(k, v) out. AList.update k v out) attrs [])"

function cloneEntry :: "timing_entry \<Rightarrow> timing_entry" where
  "cloneEntry e =
    TimingEntry (eName e) (eDurationMs e)
      (if length (eChildren e) > 0 then map cloneEntry (eChildren e) else [])
      (cloneMetrics (eMetrics e)) (cloneAttributes (eAttributes e))"
  by pat_completeness auto
termination
proof (relation "measure size")
  fix e z
  assume "z \<in> set (eChildren e)"
  then have "size z < Suc (size_list size (eChildren e))"
    by (metis less_Suc_eq_le size_list_estimation' order_refl)
  then show "(z, e) \<in> measure size" by (cases e) (auto intro: order_less_le_trans)
qed simp

declare cloneEntry.simps [simp del]

section \<open>Trackers\<close>

text \<open>A handle: the tracker that does nothing, a tracker of the arena, or another implementation of
  the interface.\<close>

datatype tracker = NoopTracker | RealTracker nat | CustomTracker

record real_tracker =
  entries :: "timing_entry list"
  parent :: "nat option"
  tname :: string
  tstart :: time

type_synonym perf = "real_tracker list"

definition NewTracker :: "bool \<Rightarrow> perf \<Rightarrow> perf \<times> tracker" where
  "NewTracker enabled p =
    (if \<not> enabled then (p, NoopTracker)
     else (p @ [\<lparr>entries = [], parent = None, tname = '''', tstart = 0\<rparr>], RealTracker (length p)))"

definition IsEnabled :: "tracker \<Rightarrow> bool" where
  "IsEnabled t = (t \<noteq> NoopTracker)"

definition append_entry :: "nat \<Rightarrow> timing_entry \<Rightarrow> perf \<Rightarrow> perf" where
  "append_entry i e p = p[i := (p ! i)\<lparr>entries := entries (p ! i) @ [e]\<rparr>]"

text \<open>The tracked function may use the trackers itself, so it is a function of the arena.\<close>

definition Track :: "tracker \<Rightarrow> string \<Rightarrow> time \<Rightarrow> (perf \<Rightarrow> perf \<times> string option) \<Rightarrow> time \<Rightarrow> perf \<Rightarrow>
    perf \<times> string option" where
  "Track t name begun fn ended p =
    (let (p', err) = fn p in
     case t of
       RealTracker i \<Rightarrow>
         (append_entry i (TimingEntry name (Milliseconds (time_Sub ended begun)) [] [] []) p', err)
     | _ \<Rightarrow> (p', err))"

definition TrackVoid :: "tracker \<Rightarrow> string \<Rightarrow> time \<Rightarrow> (perf \<Rightarrow> perf) \<Rightarrow> time \<Rightarrow> perf \<Rightarrow> perf" where
  "TrackVoid t name begun fn ended p = fst (Track t name begun (\<lambda>p. (fn p, None)) ended p)"

definition Serial :: "tracker \<Rightarrow> string \<Rightarrow> time \<Rightarrow> perf \<Rightarrow> perf \<times> tracker" where
  "Serial t name now p =
    (case t of
       RealTracker i \<Rightarrow>
         (p @ [\<lparr>entries = [], parent = Some i, tname = name, tstart = now\<rparr>], RealTracker (length p))
     | _ \<Rightarrow> (p, t))"

definition End :: "tracker \<Rightarrow> time \<Rightarrow> perf \<Rightarrow> perf \<times> tracker" where
  "End t now p =
    (case t of
       RealTracker i \<Rightarrow>
         (case parent (p ! i) of
            None \<Rightarrow> (p, t)
          | Some j \<Rightarrow>
              (append_entry j
                 (TimingEntry (tname (p ! i)) (Milliseconds (time_Sub now (tstart (p ! i)))) (entries (p ! i)) [] []) p,
               RealTracker j))
     | _ \<Rightarrow> (p, t))"

definition GetTimings :: "tracker \<Rightarrow> perf \<Rightarrow> timing_entry list" where
  "GetTimings t p = (case t of RealTracker i \<Rightarrow> map cloneEntry (entries (p ! i)) | _ \<Rightarrow> [])"

definition AddEntryDetails :: "tracker \<Rightarrow> string \<Rightarrow> duration \<Rightarrow> (string \<times> int) list \<Rightarrow> (string \<times> string) list \<Rightarrow>
    perf \<Rightarrow> perf" where
  "AddEntryDetails t name dur metrics attrs p =
    (case t of
       RealTracker i \<Rightarrow>
         append_entry i (TimingEntry name (Milliseconds dur) [] (cloneMetrics metrics) (cloneAttributes attrs)) p
     | _ \<Rightarrow> p)"

definition AddEntry :: "tracker \<Rightarrow> string \<Rightarrow> duration \<Rightarrow> perf \<Rightarrow> perf" where
  "AddEntry t name dur p = AddEntryDetails t name dur [] [] p"

definition AddEntries :: "tracker \<Rightarrow> timing_entry list \<Rightarrow> perf \<Rightarrow> perf" where
  "AddEntries t es p =
    (case t of RealTracker i \<Rightarrow> fold (\<lambda>e p. append_entry i (cloneEntry e) p) es p | _ \<Rightarrow> p)"

section \<open>Spans\<close>

text \<open>The state of a span that records, over a tracker of the arena or over another implementation of
  \<^verbatim>\<open>Tracker\<close>; it is changed by its methods.\<close>

record span =
  sTracker :: tracker
  sName :: string
  sStart :: time
  sMetrics :: "(string \<times> int) list"
  sAttrs :: "(string \<times> string) list"
  sStopped :: bool

type_synonym fallback_span = span

datatype any_span = NoopSpan | RealSpan span | FallbackSpan fallback_span

definition new_span :: "tracker \<Rightarrow> string \<Rightarrow> time \<Rightarrow> span" where
  "new_span t name now = \<lparr>sTracker = t, sName = name, sStart = now, sMetrics = [], sAttrs = [], sStopped = False\<rparr>"

text \<open>A span of the package reads the tracker's clock, any other one the system's.\<close>

definition NewSpan :: "tracker option \<Rightarrow> string \<Rightarrow> time \<Rightarrow> time \<Rightarrow> any_span" where
  "NewSpan t name now systemNow =
    (case t of
       None \<Rightarrow> NoopSpan
     | Some t \<Rightarrow>
         if \<not> IsEnabled t then NoopSpan
         else (case t of
                 RealTracker i \<Rightarrow> RealSpan (new_span t name now)
               | _ \<Rightarrow> FallbackSpan (new_span t name systemNow)))"

definition SetAttr :: "string \<Rightarrow> string \<Rightarrow> span \<Rightarrow> span" where
  "SetAttr k v s = (if sStopped s then s else s\<lparr>sAttrs := AList.update k v (sAttrs s)\<rparr>)"

definition AddMetric :: "string \<Rightarrow> int \<Rightarrow> span \<Rightarrow> span" where
  "AddMetric k v s = (if sStopped s then s else s\<lparr>sMetrics := AList.update k v (sMetrics s)\<rparr>)"

definition StopSpan :: "time \<Rightarrow> span \<Rightarrow> perf \<Rightarrow> span \<times> perf" where
  "StopSpan now s p =
    (if sStopped s then (s, p)
     else
       (s\<lparr>sStopped := True\<rparr>,
        AddEntryDetails (sTracker s) (sName s) (time_Sub now (sStart s)) (sMetrics s) (sAttrs s) p))"

text \<open>The methods of the other implementation, written out a second time in the source.\<close>

definition fallback_SetAttr :: "string \<Rightarrow> string \<Rightarrow> span \<Rightarrow> span" where
  "fallback_SetAttr k v s = (if sStopped s then s else s\<lparr>sAttrs := AList.update k v (sAttrs s)\<rparr>)"

definition fallback_AddMetric :: "string \<Rightarrow> int \<Rightarrow> span \<Rightarrow> span" where
  "fallback_AddMetric k v s = (if sStopped s then s else s\<lparr>sMetrics := AList.update k v (sMetrics s)\<rparr>)"

definition fallback_Stop :: "time \<Rightarrow> span \<Rightarrow> perf \<Rightarrow> span \<times> perf" where
  "fallback_Stop systemNow s p =
    (if sStopped s then (s, p)
     else
       (s\<lparr>sStopped := True\<rparr>,
        AddEntryDetails (sTracker s) (sName s) (time_Sub systemNow (sStart s)) (sMetrics s) (sAttrs s) p))"

text \<open>The interface: the calls on a span, with both readings of the clock for \<^verbatim>\<open>Stop\<close>.\<close>

datatype span_call = CallSetAttr string string | CallAddMetric string int | CallStop time time

fun span_do :: "span_call \<Rightarrow> any_span \<times> perf \<Rightarrow> any_span \<times> perf" where
  "span_do c (NoopSpan, p) = (NoopSpan, p)"
| "span_do (CallSetAttr k v) (RealSpan s, p) = (RealSpan (SetAttr k v s), p)"
| "span_do (CallAddMetric k v) (RealSpan s, p) = (RealSpan (AddMetric k v s), p)"
| "span_do (CallStop now systemNow) (RealSpan s, p) = (case StopSpan now s p of (s', p') \<Rightarrow> (RealSpan s', p'))"
| "span_do (CallSetAttr k v) (FallbackSpan s, p) = (FallbackSpan (fallback_SetAttr k v s), p)"
| "span_do (CallAddMetric k v) (FallbackSpan s, p) = (FallbackSpan (fallback_AddMetric k v s), p)"
| "span_do (CallStop now systemNow) (FallbackSpan s, p) = (case fallback_Stop systemNow s p of (s', p') \<Rightarrow> (FallbackSpan s', p'))"

section \<open>Copies\<close>

lemma fold_update_map: "distinct (map fst (acc @ xs)) \<Longrightarrow> fold (\<lambda>(k, v) out. AList.update k v out) xs acc = acc @ xs"
proof (induction xs arbitrary: acc)
  case (Cons x xs)
  obtain k v where x: "x = (k, v)" by fastforce
  have "AList.update k v ys = ys @ [(k, v)]" if "k \<notin> fst ` set ys" for ys
    using that by (induction ys) auto
  then have "AList.update k v acc = acc @ [(k, v)]" using Cons.prems x by auto
  then show ?case using Cons.IH [of "acc @ [(k, v)]"] Cons.prems x by simp
qed simp

lemma clone_maps [simp]:
  "distinct (map fst ms) \<Longrightarrow> cloneMetrics ms = ms" "distinct (map fst attrs) \<Longrightarrow> cloneAttributes attrs = attrs"
  using fold_update_map [of "[]" ms] fold_update_map [of "[]" attrs]
  by (auto simp: cloneMetrics_def cloneAttributes_def)

text \<open>Go maps have no repeated keys, at any depth.\<close>

fun entry_wf :: "timing_entry \<Rightarrow> bool" where
  "entry_wf (TimingEntry n d cs ms attrs) \<longleftrightarrow>
    distinct (map fst ms) \<and> distinct (map fst attrs) \<and> (\<forall>c\<in>set cs. entry_wf c)"

lemma cloneEntry_id: "entry_wf e \<Longrightarrow> cloneEntry e = e"
proof (induction e rule: entry_wf.induct)
  case (1 n d cs ms attrs)
  then have "map cloneEntry cs = cs" by (intro map_idI) auto
  then show ?case using 1(2) by (cases cs) (simp_all add: cloneEntry.simps [of "TimingEntry n d _ ms attrs"])
qed

section \<open>A run of nested phases\<close>

text \<open>A program that times its work: pieces of work that take a duration and phases made of parts,
  written with the calls of the interface. Its specification is the tree of its parts.\<close>

datatype activity = Work string duration | Phase string "activity list"

fun perform :: "tracker \<Rightarrow> activity \<Rightarrow> time \<times> perf \<Rightarrow> time \<times> perf"
and performs :: "tracker \<Rightarrow> activity list \<Rightarrow> time \<times> perf \<Rightarrow> time \<times> perf" where
  "perform t (Work n d) (now, p) = (now + d, fst (Track t n now (\<lambda>p. (p, None)) (now + d) p))"
| "perform t (Phase n as) (now, p) =
    (case Serial t n now p of
       (p1, c) \<Rightarrow> (case performs c as (now, p1) of (now', p2) \<Rightarrow> (now', fst (End c now' p2))))"
| "performs t [] s = s"
| "performs t (a # as) s = performs t as (perform t a s)"

fun takes :: "activity \<Rightarrow> duration" where
  "takes (Work n d) = d"
| "takes (Phase n as) = sum_list (map takes as)"

fun tree_of :: "activity \<Rightarrow> timing_entry" where
  "tree_of (Work n d) = TimingEntry n (d div 1000000) [] [] []"
| "tree_of (Phase n as) = TimingEntry n (sum_list (map takes as) div 1000000) (map tree_of as) [] []"

fun nonneg :: "activity \<Rightarrow> bool" where
  "nonneg (Work n d) \<longleftrightarrow> 0 \<le> d"
| "nonneg (Phase n as) \<longleftrightarrow> (\<forall>a\<in>set as. nonneg a)"

lemma takes_nonneg: "nonneg a \<Longrightarrow> 0 \<le> takes a"
proof (induction a rule: nonneg.induct)
  case (2 n as)
  then have "0 \<le> x" if "x \<in> set (map takes as)" for x using that by auto
  then show ?case using sum_list_nonneg [of "map takes as"] by simp
qed simp

lemma all_takes_nonneg: "\<forall>a\<in>set as. nonneg a \<Longrightarrow> 0 \<le> sum_list (map takes as)"
  using takes_nonneg [of "Phase n as" for n] by simp

lemma tree_wf: "entry_wf (tree_of a)"
  by (induction a rule: tree_of.induct) auto

text \<open>The effect on the arena: the tracker's entries grow, the trackers there were keep theirs.\<close>

definition grows :: "nat \<Rightarrow> timing_entry list \<Rightarrow> perf \<Rightarrow> perf \<Rightarrow> bool" where
  "grows i es p p' \<longleftrightarrow> length p \<le> length p' \<and>
    (\<forall>j<length p. p' ! j = (if j = i then (p ! j)\<lparr>entries := entries (p ! j) @ es\<rparr> else p ! j))"

lemma grows_trans: "grows i es p q \<Longrightarrow> grows i fs q r \<Longrightarrow> grows i (es @ fs) p r"
  by (auto simp: grows_def)

lemma elapsed: "0 \<le> d \<Longrightarrow> d < 2 ^ 63 \<Longrightarrow> Milliseconds (time_Sub (now + d) now) = d div 1000000"
  by (simp add: Milliseconds_def time_Sub_def min_duration_def max_duration_def)

definition performs_ok :: "activity \<Rightarrow> bool" where
  "performs_ok a \<longleftrightarrow> (\<forall>i now p. i < length p \<longrightarrow> nonneg a \<longrightarrow> takes a < 2 ^ 63 \<longrightarrow>
    (\<exists>p'. perform (RealTracker i) a (now, p) = (now + takes a, p') \<and> grows i [tree_of a] p p'))"

lemma performs_grows:
  "i < length p \<Longrightarrow> \<forall>a\<in>set as. performs_ok a \<and> nonneg a \<Longrightarrow> sum_list (map takes as) < 2 ^ 63 \<Longrightarrow>
    \<exists>p'. performs (RealTracker i) as (now, p) = (now + sum_list (map takes as), p') \<and> grows i (map tree_of as) p p'"
proof (induction as arbitrary: now p)
  case Nil
  then show ?case by (simp add: grows_def)
next
  case (Cons a as)
  have nn: "0 \<le> takes a" "0 \<le> sum_list (map takes as)"
    using Cons.prems(2) takes_nonneg all_takes_nonneg by auto
  obtain p1 where p1: "perform (RealTracker i) a (now, p) = (now + takes a, p1)" "grows i [tree_of a] p p1"
  proof -
    have "performs_ok a" "nonneg a" "takes a < 2 ^ 63" using Cons.prems nn by simp_all
    then show ?thesis using that Cons.prems(1) unfolding performs_ok_def by blast
  qed
  then have "i < length p1" using Cons.prems(1) by (simp add: grows_def)
  then obtain p2 where "performs (RealTracker i) as (now + takes a, p1) = (now + takes a + sum_list (map takes as), p2)"
    "grows i (map tree_of as) p1 p2"
    using Cons.IH [of p1 "now + takes a"] Cons.prems nn by auto
  then show ?case using p1 grows_trans [OF p1(2)] by (auto simp: add.assoc)
qed

lemma perform_grows: "performs_ok a"
proof (induction a)
  case (Work n d)
  then show ?case by (auto simp: performs_ok_def Track_def append_entry_def grows_def elapsed)
next
  case (Phase n as)
  show ?case
    unfolding performs_ok_def
  proof (intro allI impI)
    fix i now and p :: perf
    assume prems: "i < length p" "nonneg (Phase n as)" "takes (Phase n as) < 2 ^ 63"
    let ?c = "\<lparr>entries = [], parent = Some i, tname = n, tstart = now\<rparr>"
    let ?d = "sum_list (map takes as)"
    obtain p2 where p2: "performs (RealTracker (length p)) as (now, p @ [?c]) = (now + ?d, p2)"
      "grows (length p) (map tree_of as) (p @ [?c]) p2"
      using performs_grows [of "length p" "p @ [?c]" as now] Phase prems by auto
    have c: "p2 ! length p = ?c\<lparr>entries := map tree_of as\<rparr>" and old: "\<And>j. j < length p \<Longrightarrow> p2 ! j = p ! j"
      and len: "length p < length p2"
      using p2(2) by (auto simp: grows_def nth_append)
    have "0 \<le> ?d" using prems(2) all_takes_nonneg by simp
    then have "End (RealTracker (length p)) (now + ?d) p2 = (append_entry i (tree_of (Phase n as)) p2, RealTracker i)"
      using prems(3) by (simp add: End_def c elapsed)
    then have "perform (RealTracker i) (Phase n as) (now, p) = (now + ?d, append_entry i (tree_of (Phase n as)) p2)"
      using p2(1) by (simp add: Serial_def)
    moreover have "grows i [tree_of (Phase n as)] p (append_entry i (tree_of (Phase n as)) p2)"
      using prems(1) old len by (auto simp: grows_def append_entry_def)
    ultimately show "\<exists>p'. perform (RealTracker i) (Phase n as) (now, p) = (now + takes (Phase n as), p') \<and> grows i [tree_of (Phase n as)] p p'" by simp
  qed
qed

section \<open>Properties\<close>

text \<open>A run of nested phases records its own structure: the timings of the tracker are the trees of
  the parts, in order, every phase with the timings of its parts below it and with a duration that
  is the time its parts took.\<close>

theorem timings_mirror_the_run:
  assumes "\<forall>a\<in>set as. nonneg a" "sum_list (map takes as) < 2 ^ 63"
  shows "GetTimings (snd (NewTracker True p)) (snd (performs (snd (NewTracker True p)) as (now, fst (NewTracker True p)))) =
    map tree_of as"
proof -
  let ?p = "p @ [\<lparr>entries = [], parent = None, tname = '''', tstart = 0\<rparr>]"
  obtain p' where p': "performs (RealTracker (length p)) as (now, ?p) = (now + sum_list (map takes as), p')"
    "grows (length p) (map tree_of as) ?p p'"
    using performs_grows [of "length p" ?p as now] perform_grows assms by auto
  then have "entries (p' ! length p) = map tree_of as" by (auto simp: grows_def nth_append)
  then have "GetTimings (RealTracker (length p)) p' = map cloneEntry (map tree_of as)"
    by (simp add: GetTimings_def)
  also have "\<dots> = map tree_of as" using tree_wf by (auto simp: cloneEntry_id)
  finally show ?thesis using p'(1) by (simp add: NewTracker_def)
qed

theorem timings_mirror_the_run_witness:
  "GetTimings (RealTracker 0) (snd (performs (RealTracker 0)
     [Phase ''scan'' [Work ''go'' 2500000, Work ''ts'' 600000]] (0, fst (NewTracker True [])))) =
    [TimingEntry ''scan'' 3 [TimingEntry ''go'' 2 [] [] [], TimingEntry ''ts'' 0 [] [] []] [] []]"
  using timings_mirror_the_run [of "[Phase ''scan'' [Work ''go'' 2500000, Work ''ts'' 600000]]" "[]" 0]
  by (simp add: NewTracker_def)

text \<open>Ending a child twice records it twice; stopping a span twice records it once.\<close>

theorem End_twice:
  assumes "i < length p" "parent (p ! i) = Some j" "j < length p" "i \<noteq> j"
  shows "entries (fst (End (RealTracker i) now2 (fst (End (RealTracker i) now p))) ! j) =
    entries (p ! j) @
    [TimingEntry (tname (p ! i)) (Milliseconds (time_Sub now (tstart (p ! i)))) (entries (p ! i)) [] [],
     TimingEntry (tname (p ! i)) (Milliseconds (time_Sub now2 (tstart (p ! i)))) (entries (p ! i)) [] []]"
  using assms by (simp add: End_def append_entry_def)

lemma StopSpan_twice: "StopSpan now2 (fst (StopSpan now s p)) q = (fst (StopSpan now s p), q)"
  by (simp add: StopSpan_def)

text \<open>A span over another implementation of the interface is dropped when it stops.\<close>

lemma StopSpan_custom: "sTracker s = CustomTracker \<Longrightarrow> snd (fallback_Stop now s p) = p"
  by (simp add: fallback_Stop_def AddEntryDetails_def)

text \<open>Once it is stopped, nothing changes a span or what it recorded.\<close>

lemma stopped_calls:
  "sStopped s \<Longrightarrow> fold span_do calls (RealSpan s, p) = (RealSpan s, p)"
proof (induction calls)
  case (Cons c calls)
  then have "span_do c (RealSpan s, p) = (RealSpan s, p)"
    by (cases c) (simp_all add: SetAttr_def AddMetric_def StopSpan_def)
  with Cons show ?case by simp
qed simp

fun is_stop :: "span_call \<Rightarrow> bool" where
  "is_stop (CallStop now systemNow) = True"
| "is_stop c = False"

definition attrs_of :: "span_call list \<Rightarrow> (string \<times> string) list" where
  "attrs_of calls = fold (\<lambda>c attrs. case c of CallSetAttr k v \<Rightarrow> AList.update k v attrs | _ \<Rightarrow> attrs) calls []"

definition metrics_of :: "span_call list \<Rightarrow> (string \<times> int) list" where
  "metrics_of calls = fold (\<lambda>c ms. case c of CallAddMetric k v \<Rightarrow> AList.update k v ms | _ \<Rightarrow> ms) calls []"

lemma open_calls:
  "\<not> sStopped s \<Longrightarrow> list_all (\<lambda>c. \<not> is_stop c) calls \<Longrightarrow>
    fold span_do calls (RealSpan s, p) =
      (RealSpan (s\<lparr>sAttrs := fold (\<lambda>c attrs. case c of CallSetAttr k v \<Rightarrow> AList.update k v attrs | _ \<Rightarrow> attrs) calls (sAttrs s),
         sMetrics := fold (\<lambda>c ms. case c of CallAddMetric k v \<Rightarrow> AList.update k v ms | _ \<Rightarrow> ms) calls (sMetrics s)\<rparr>), p)"
proof (induction calls arbitrary: s)
  case (Cons c calls)
  then show ?case by (cases c) (simp_all add: SetAttr_def AddMetric_def)
qed simp

lemma update_keys_distinct: "distinct (map fst (fold (\<lambda>c m. case f c of None \<Rightarrow> m | Some (k, v) \<Rightarrow> AList.update k v m) cs m))"
  if "distinct (map fst m)" for m :: "('k \<times> 'v) list"
  using that by (induction cs arbitrary: m) (auto simp: distinct_update split: option.split)

lemma attrs_of_distinct: "distinct (map fst (attrs_of calls))"
proof -
  have "attrs_of calls = fold (\<lambda>c m. case (case c of CallSetAttr k v \<Rightarrow> Some (k, v) | _ \<Rightarrow> None) of
      None \<Rightarrow> m | Some (k, v) \<Rightarrow> AList.update k v m) calls []"
    unfolding attrs_of_def by (rule fold_cong) (auto split: span_call.split)
  then show ?thesis by (simp add: update_keys_distinct)
qed

lemma metrics_of_distinct: "distinct (map fst (metrics_of calls))"
proof -
  have "metrics_of calls = fold (\<lambda>c m. case (case c of CallAddMetric k v \<Rightarrow> Some (k, v) | _ \<Rightarrow> None) of
      None \<Rightarrow> m | Some (k, v) \<Rightarrow> AList.update k v m) calls []"
    unfolding metrics_of_def by (rule fold_cong) (auto split: span_call.split)
  then show ?thesis by (simp add: update_keys_distinct)
qed

text \<open>A span over a tracker records one entry: whatever was set before its first \<^verbatim>\<open>Stop\<close>, with the last value of
  every attribute and metric and the time up to that call, and nothing of what is called afterwards.\<close>

theorem span_records_once:
  assumes "list_all (\<lambda>c. \<not> is_stop c) calls" "i < length p"
  shows "snd (fold span_do (calls @ CallStop ended systemNow # later) (NewSpan (Some (RealTracker i)) name begun systemBegun, p)) =
    append_entry i (TimingEntry name (Milliseconds (time_Sub ended begun)) [] (metrics_of calls) (attrs_of calls)) p"
proof -
  let ?s = "new_span (RealTracker i) name begun"
  have new: "NewSpan (Some (RealTracker i)) name begun systemBegun = RealSpan ?s"
    by (simp add: NewSpan_def IsEnabled_def)
  have calls: "fold span_do calls (RealSpan ?s, p) = (RealSpan (?s\<lparr>sAttrs := attrs_of calls, sMetrics := metrics_of calls\<rparr>), p)"
    using open_calls [OF _ assms(1), of ?s p] by (simp add: new_span_def attrs_of_def metrics_of_def)
  show ?thesis
    unfolding new fold_append o_apply calls fold_simps span_do.simps
    by (simp add: StopSpan_def new_span_def stopped_calls AddEntryDetails_def attrs_of_distinct metrics_of_distinct)
qed

theorem span_records_once_witness:
  "entries (snd (fold span_do [CallSetAttr ''url'' ''a'', CallSetAttr ''url'' ''b'', CallStop 5000000 0, CallAddMetric ''late'' 1]
     (NewSpan (Some (RealTracker 0)) ''get'' 0 0, fst (NewTracker True []))) ! 0) =
   [TimingEntry ''get'' 5 [] [] [(''url'', ''b'')]]"
  using span_records_once [of "[CallSetAttr ''url'' ''a'', CallSetAttr ''url'' ''b'']" 0 "fst (NewTracker True [])" 5000000 0
      "[CallAddMetric ''late'' 1]" "''get''" 0 0]
  by (simp add: NewTracker_def append_entry_def attrs_of_def metrics_of_def Milliseconds_def time_Sub_def
      min_duration_def max_duration_def)

end
