(* ===== verification/Perf_Render.thy ===== *)
theory Perf_Render
  imports Perf Output Go_Float
begin

text \<open>
  The rendering of timings (\<^verbatim>\<open>internal/perf/render.go\<close>): the indented tree and the flat summary.
  A \<^verbatim>\<open>Duration\<close> and an \<^verbatim>\<open>int64\<close> wrap around.
\<close>

record render_options =
  MinDuration :: duration
  SortByDuration :: bool
  HidePercents :: bool
  HideMetrics :: bool

section \<open>Numbers\<close>

text \<open>\<^verbatim>\<open>%3d\<close> and the like: at least so many characters, padded in front.\<close>

definition pad_left :: "char \<Rightarrow> nat \<Rightarrow> string \<Rightarrow> string" where
  "pad_left c n s = replicate (n - length s) c @ s"

text \<open>The quotient of two \<^verbatim>\<open>int64\<close> is cut toward zero.\<close>

definition quot64 :: "int \<Rightarrow> int \<Rightarrow> int" where
  "quot64 a b = (if (a < 0) = (b < 0) then \<bar>a\<bar> div \<bar>b\<bar> else - (\<bar>a\<bar> div \<bar>b\<bar>))"

definition rem64 :: "int \<Rightarrow> int \<Rightarrow> int" where
  "rem64 a b = a - quot64 a b * b"

text \<open>\<^verbatim>\<open>Duration.Seconds\<close> and \<^verbatim>\<open>%5.2f\<close> of it: two roundings to \<^verbatim>\<open>float64\<close>, then one to two digits.\<close>

definition seconds_float :: "duration \<Rightarrow> rat" where
  "seconds_float d =
    (let nsec = the (float64_round (of_int (rem64 d second) / 10 ^ 9))
     in the (float64_round (of_int (quot64 d second) + nsec)))"

definition format_2f :: "rat \<Rightarrow> string" where
  "format_2f q =
    (let cents = round_half_even (q * 100)
     in pad_left (CHR '' '') 5 (int_dec (cents div 100) @ ''.'' @ pad_left (CHR ''0'') 2 (int_dec (cents mod 100))))"

definition formatDur :: "int \<Rightarrow> string" where
  "formatDur ms =
    (let d = wrap64 (ms * millisecond) in
     if d \<ge> 60 * second then
       (let m = quot64 d (60 * second); s = quot64 (rem64 d (60 * second)) second
        in int_dec m @ ''m'' @ pad_left (CHR ''0'') 2 (int_dec s) @ ''s'')
     else if d \<ge> second then format_2f (seconds_float d) @ ''s''
     else if d \<ge> millisecond then pad_left (CHR '' '') 4 (int_dec ms) @ ''ms''
     else if d \<ge> 1000 then pad_left (CHR '' '') 4 (int_dec (quot64 d 1000)) @ [CHR 0xC2, CHR 0xB5] @ ''s''
     else pad_left (CHR '' '') 4 (int_dec d) @ ''ns'')"

definition percent :: "int \<Rightarrow> int \<Rightarrow> int" where
  "percent part whole = (if whole \<le> 0 then 0 else quot64 (wrap64 (part * 100)) whole)"

section \<open>Lines\<close>

text \<open>The box drawing runes, as the bytes of their encoding.\<close>

definition last_connector :: string where
  "last_connector = [CHR 0xE2, CHR 0x94, CHR 0x94, CHR 0xE2, CHR 0x94, CHR 0x80] @ '' ''"

definition mid_connector :: string where
  "mid_connector = [CHR 0xE2, CHR 0x94, CHR 0x9C, CHR 0xE2, CHR 0x94, CHR 0x80] @ '' ''"

definition bar_prefix :: string where
  "bar_prefix = [CHR 0xE2, CHR 0x94, CHR 0x82] @ ''  ''"

definition nodeConnectors :: "string \<Rightarrow> bool \<Rightarrow> bool \<Rightarrow> string \<times> string" where
  "nodeConnectors pre isRoot isLast =
    (if isRoot then ('''', '''')
     else if isLast then (last_connector, pre @ ''   '')
     else (mid_connector, pre @ bar_prefix))"

definition formatExtras :: "(string \<times> int) list \<Rightarrow> (string \<times> string) list \<Rightarrow> string" where
  "formatExtras metrics attrs =
    (if length metrics = 0 \<and> length attrs = 0 then ''''
     else
       (let parts = map (\<lambda>k. k @ ''='' @ int_dec (the (map_of metrics k))) (sort (map fst metrics)) @
          map (\<lambda>k. k @ ''='' @ the (map_of attrs k)) (sort (map fst attrs))
        in ''{'' @ strings_Join parts '' '' @ ''}''))"

definition formatNodeLine :: "string \<Rightarrow> string \<Rightarrow> timing_entry \<Rightarrow> int \<Rightarrow> render_options \<Rightarrow> string" where
  "formatNodeLine pre connector e parentMs opts =
    (let line = pre @ connector @ eName e @ '' '' @ formatDur (eDurationMs e);
         line = (if \<not> HidePercents opts \<and> parentMs > 0
           then line @ ''  '' @ pad_left (CHR '' '') 3 (int_dec (percent (eDurationMs e) parentMs)) @ ''%'' else line)
     in if HideMetrics opts then line
        else
          (let extra = formatExtras (eMetrics e) (eAttributes e)
           in if extra \<noteq> '''' then line @ ''  '' @ extra else line))"

text \<open>A stable sort by falling durations.\<close>

definition orderedChildren :: "timing_entry list \<Rightarrow> bool \<Rightarrow> timing_entry list" where
  "orderedChildren children sortByDuration =
    (if \<not> sortByDuration \<or> length children \<le> 1 then children else sort_key (\<lambda>e. - eDurationMs e) children)"

definition hidden :: "render_options \<Rightarrow> timing_entry \<Rightarrow> bool" where
  "hidden opts e \<longleftrightarrow> MinDuration opts > 0 \<and> wrap64 (eDurationMs e * millisecond) < MinDuration opts"

lemma size_orderedChildren [simp]: "size_list size (orderedChildren cs b) = size_list size cs"
proof -
  have "sum_list (map size (sort_key f cs)) = sum_list (map size cs)" for f :: "timing_entry \<Rightarrow> int"
    by (metis mset_map mset_sort sum_mset_sum_list)
  then show ?thesis by (simp add: orderedChildren_def size_list_conv_sum_list)
qed

lemma size_children: "size_list size (eChildren e) < size e"
  by (cases e) simp

lemma size_children_double: "Suc (2 * size_list size (eChildren e)) < 2 * size e"
  using size_children [of e] by linarith

text \<open>A node and its children, with the first error of the writer.\<close>

function (sequential) renderNode :: "'w writer \<Rightarrow> render_options \<Rightarrow> timing_entry \<Rightarrow> string \<Rightarrow> bool \<Rightarrow> bool \<Rightarrow> int \<Rightarrow>
    'w \<Rightarrow> 'w \<times> string option"
and renderNodes :: "'w writer \<Rightarrow> render_options \<Rightarrow> timing_entry list \<Rightarrow> string \<Rightarrow> bool \<Rightarrow> int \<Rightarrow>
    'w \<Rightarrow> 'w \<times> string option" where
  "renderNode wr opts e pre isRoot isLast parentMs w =
    (if hidden opts e then (w, None)
     else
       (let (connector, childPrefix) = nodeConnectors pre isRoot isLast;
            line = formatNodeLine pre connector e parentMs opts
        in case wr w (line @ [nl]) of
             (w', Some err) \<Rightarrow> (w', Some err)
           | (w', None) \<Rightarrow>
               renderNodes wr opts (orderedChildren (eChildren e) (SortByDuration opts)) childPrefix False (eDurationMs e) w'))"
| "renderNodes wr opts [] pre isRoot parentMs w = (w, None)"
| "renderNodes wr opts (c # cs) pre isRoot parentMs w =
    (case renderNode wr opts c pre isRoot (cs = []) parentMs w of
       (w', Some err) \<Rightarrow> (w', Some err)
     | (w', None) \<Rightarrow> renderNodes wr opts cs pre isRoot parentMs w')"
  by pat_completeness auto

termination
  by (relation "measure (\<lambda>x. case x of
    Inl (wr, opts, e, pre, isRoot, isLast, parentMs, w) \<Rightarrow> 2 * size e
  | Inr (wr, opts, cs, pre, isRoot, parentMs, w) \<Rightarrow> Suc (2 * size_list size cs))")
    (simp_all add: size_children_double)

declare renderNode.simps [simp del]

definition total_ms :: "timing_entry list \<Rightarrow> int" where
  "total_ms es = foldl (\<lambda>acc e. wrap64 (acc + eDurationMs e)) 0 es"

definition RenderTree :: "'w writer \<Rightarrow> 'w \<Rightarrow> timing_entry list \<Rightarrow> render_options \<Rightarrow> 'w \<times> string option" where
  "RenderTree wr w es opts =
    (if length es = 0 then (w, None) else renderNodes wr opts es '''' True (total_ms es) w)"

section \<open>Summary\<close>

text \<open>The totals by name, in the order in which a name is met first; the map is then visited in an
  order of Go's, and the sort is not stable, so the order of equal durations is open.\<close>

fun walk :: "timing_entry \<Rightarrow> (string \<times> int) list \<Rightarrow> (string \<times> int) list" where
  "walk (TimingEntry n d cs ms attrs) totals =
    fold walk cs (AList.update n (wrap64 ((case map_of totals n of None \<Rightarrow> 0 | Some t \<Rightarrow> t) + d)) totals)"

definition totals_of :: "timing_entry list \<Rightarrow> (string \<times> int) list" where
  "totals_of es = fold walk es []"

definition Summary :: "(string \<times> int) list \<Rightarrow> int \<Rightarrow> timing_entry list" where
  "Summary visited topN =
    (let out = sort_key (\<lambda>e. - eDurationMs e) (map (\<lambda>(n, d). TimingEntry n d [] [] []) visited) in
     if topN > 0 \<and> int (length out) > topN then take (nat topN) out else out)"

section \<open>The lines of a tree\<close>

text \<open>The entries that the tree shows, each with its line, in the order of the output.\<close>

function (sequential) placed1 :: "render_options \<Rightarrow> timing_entry \<Rightarrow> string \<Rightarrow> bool \<Rightarrow> bool \<Rightarrow> int \<Rightarrow> (timing_entry \<times> string) list"
and placed :: "render_options \<Rightarrow> timing_entry list \<Rightarrow> string \<Rightarrow> bool \<Rightarrow> int \<Rightarrow> (timing_entry \<times> string) list" where
  "placed1 opts e pre isRoot isLast parentMs =
    (if hidden opts e then []
     else (e, formatNodeLine pre (fst (nodeConnectors pre isRoot isLast)) e parentMs opts @ [nl]) #
       placed opts (orderedChildren (eChildren e) (SortByDuration opts)) (snd (nodeConnectors pre isRoot isLast))
         False (eDurationMs e))"
| "placed opts [] pre isRoot parentMs = []"
| "placed opts (c # cs) pre isRoot parentMs =
    placed1 opts c pre isRoot (cs = []) parentMs @ placed opts cs pre isRoot parentMs"
  by pat_completeness auto

termination
  by (relation "measure (\<lambda>x. case x of
    Inl (opts, e, pre, isRoot, isLast, parentMs) \<Rightarrow> 2 * size e
  | Inr (opts, cs, pre, isRoot, parentMs) \<Rightarrow> Suc (2 * size_list size cs))")
    (simp_all add: size_children_double)

declare placed1.simps [simp del]

lemma write_lines_append:
  "write_lines wr w (ls @ ls') =
    (case write_lines wr w ls of (w', Some err) \<Rightarrow> (w', Some err) | (w', None) \<Rightarrow> write_lines wr w' ls')"
  by (induction ls arbitrary: w) (auto split: prod.splits option.splits)

lemma renderNode_placed:
  "renderNode wr opts e pre isRoot isLast parentMs w =
     write_lines wr w (map snd (placed1 opts e pre isRoot isLast parentMs))"
  "renderNodes wr opts cs pre isRoot parentMs w =
     write_lines wr w (map snd (placed opts cs pre isRoot parentMs))"
  by (induction wr opts e pre isRoot isLast parentMs w and wr opts cs pre isRoot parentMs w
      rule: renderNode_renderNodes.induct)
    (simp_all add: renderNode.simps placed1.simps write_lines_append split: prod.splits option.splits)

text \<open>A node and its descendants, parents first.\<close>

fun preorder :: "timing_entry \<Rightarrow> timing_entry list" where
  "preorder (TimingEntry n d cs ms attrs) = TimingEntry n d cs ms attrs # concat (map preorder cs)"

definition all_entries :: "timing_entry list \<Rightarrow> timing_entry list" where
  "all_entries es = concat (map preorder es)"

lemma all_entries_Nil [simp]: "all_entries [] = []"
  by (simp add: all_entries_def)

lemma all_entries_Cons [simp]: "all_entries (e # es) = preorder e @ all_entries es"
  by (simp add: all_entries_def)

lemma preorder_eq: "preorder e = e # all_entries (eChildren e)"
  by (cases e) (simp add: all_entries_def)

lemma mset_all_entries: "mset xs = mset ys \<Longrightarrow> mset (all_entries xs) = mset (all_entries ys)"
  unfolding all_entries_def by (metis mset_concat mset_map map_map sum_mset_sum_list)

lemma mset_orderedChildren: "mset (orderedChildren cs b) = mset cs"
  by (simp add: orderedChildren_def)

lemma placed_entries:
  "MinDuration opts \<le> 0 \<Longrightarrow> mset (map fst (placed1 opts e pre isRoot isLast parentMs)) = mset (preorder e)"
  "MinDuration opts \<le> 0 \<Longrightarrow> mset (map fst (placed opts cs pre isRoot parentMs)) = mset (all_entries cs)"
  by (induction opts e pre isRoot isLast parentMs and opts cs pre isRoot parentMs rule: placed1_placed.induct)
    (simp_all add: placed1.simps hidden_def preorder_eq mset_all_entries [OF mset_orderedChildren])

lemma placed_lines:
  "(x, l) \<in> set (placed1 opts e pre isRoot isLast parentMs) \<Longrightarrow>
     \<not> hidden opts x \<and> (\<exists>p c ms. l = formatNodeLine p c x ms opts @ [nl])"
  "(x, l) \<in> set (placed opts cs pre isRoot parentMs) \<Longrightarrow>
     \<not> hidden opts x \<and> (\<exists>p c ms. l = formatNodeLine p c x ms opts @ [nl])"
  by (induction opts e pre isRoot isLast parentMs and opts cs pre isRoot parentMs rule: placed1_placed.induct)
    (auto simp: placed1.simps split: if_splits)

text \<open>The tree is written line by line, up to the first error of the writer: one line for every
  entry that is long enough, with its name, its duration, its share of its parent and its extras. Without
  a least duration every entry of the tree has its line, sorted or not; with one, the entries below a
  hidden entry are hidden with it.\<close>

theorem tree_lines:
  "RenderTree wr w es opts = write_lines wr w (map snd (placed opts es '''' True (total_ms es))) \<and>
   (MinDuration opts \<le> 0 \<longrightarrow> mset (map fst (placed opts es '''' True (total_ms es))) = mset (all_entries es)) \<and>
   (\<forall>(x, l)\<in>set (placed opts es '''' True (total_ms es)).
      \<not> hidden opts x \<and> (\<exists>p c ms. l = formatNodeLine p c x ms opts @ [nl]))"
  using placed_lines(2) [of _ _ opts es "''''" True "total_ms es"] placed_entries(2) [of opts es "''''" True "total_ms es"]
  by (cases es) (auto simp: RenderTree_def renderNode_placed(2))

section \<open>The totals by name\<close>

definition duration_of :: "string \<Rightarrow> timing_entry list \<Rightarrow> int" where
  "duration_of n es = sum_list (map eDurationMs (filter (\<lambda>e. eName e = n) es))"

definition book :: "timing_entry \<Rightarrow> (string \<times> int) list \<Rightarrow> (string \<times> int) list" where
  "book e totals =
    AList.update (eName e) (wrap64 ((case map_of totals (eName e) of None \<Rightarrow> 0 | Some t \<Rightarrow> t) + eDurationMs e)) totals"

lemma walk_book: "walk e totals = fold book (preorder e) totals"
proof (induction e arbitrary: totals)
  case (TimingEntry n d cs ms attrs)
  have "fold walk cs t = fold book (concat (map preorder cs)) t" for t
    using TimingEntry.IH by (induction cs arbitrary: t) auto
  then show ?case by (simp add: book_def [of "TimingEntry n d cs ms attrs"])
qed

lemma totals_book: "totals_of es = fold book (all_entries es) []"
proof -
  have "fold walk es t = fold book (all_entries es) t" for t
    by (induction es arbitrary: t) (simp_all add: walk_book)
  then show ?thesis by (simp add: totals_of_def)
qed

lemma book_distinct: "distinct (map fst totals) \<Longrightarrow> distinct (map fst (fold book es totals))"
  by (induction es arbitrary: totals) (simp_all add: book_def distinct_update)

lemma book_keys: "fst ` set (fold book es totals) = fst ` set totals \<union> eName ` set es"
  by (induction es arbitrary: totals) (auto simp: book_def dom_update)

definition booked :: "(string \<times> int) list \<Rightarrow> string \<Rightarrow> int" where
  "booked totals n = (case map_of totals n of None \<Rightarrow> 0 | Some t \<Rightarrow> t)"

lemma wrap64_wrap64 [simp]: "wrap64 (wrap64 x) = wrap64 x"
  using wrap64_add [of x 0] by simp

lemma booked_book: "booked (book e totals) n =
    (if n = eName e then wrap64 (booked totals n + eDurationMs e) else booked totals n)"
  by (simp add: booked_def book_def update_conv)

lemma book_value: "wrap64 (booked (fold book es totals) n) = wrap64 (booked totals n + duration_of n es)"
proof (induction es arbitrary: totals)
  case Nil
  then show ?case by (simp add: duration_of_def)
next
  case (Cons e es)
  then show ?case by (auto simp: booked_book duration_of_def add.assoc)
qed

lemma book_wrapped: "\<forall>n. wrap64 (booked totals n) = booked totals n \<Longrightarrow>
    wrap64 (booked (fold book es totals) n) = booked (fold book es totals) n"
  by (induction es arbitrary: totals) (simp_all add: booked_book)

lemma totals_of_distinct: "distinct (map fst (totals_of es))"
  by (simp add: totals_book book_distinct)

lemma totals_of_names: "fst ` set (totals_of es) = eName ` set (all_entries es)"
  by (simp add: totals_book book_keys)

lemma booked_totals: "booked (totals_of es) n = wrap64 (duration_of n (all_entries es))"
proof -
  have "wrap64 (booked [] m) = booked [] m" for m by (simp add: booked_def wrap64_def)
  then have "wrap64 (booked (totals_of es) n) = booked (totals_of es) n"
    unfolding totals_book by (intro book_wrapped) blast
  moreover have "booked [] n = 0" by (simp add: booked_def)
  ultimately show ?thesis using book_value [of "all_entries es" "[]" n] by (simp add: totals_book)
qed

lemma totals_of_value: "(n, t) \<in> set (totals_of es) \<Longrightarrow> t = wrap64 (duration_of n (all_entries es))"
  using booked_totals [of es n] totals_of_distinct [of es] by (simp add: booked_def)

lemma mset_map_sort_key: "mset (map f (sort_key k xs)) = mset (map f xs)"
  by simp

text \<open>What a shortened list keeps of a list in falling order.\<close>

lemma falling_take:
  assumes "sorted (map (\<lambda>e. - f e) xs)" and "x \<in> set (take n xs)" and "y \<in> set xs" and "y \<notin> set (take n xs)"
  shows "f y \<le> (f x :: int)"
proof -
  have "y \<in> set (drop n xs)" using assms(3,4) by (metis Un_iff append_take_drop_id set_append)
  then have "- f x \<le> - f y"
    using assms(1,2) sorted_append [of "map (\<lambda>e. - f e) (take n xs)" "map (\<lambda>e. - f e) (drop n xs)"]
    by (auto simp flip: map_append)
  then show ?thesis by simp
qed

text \<open>The summary holds one entry for every name of the tree, with the sum of the durations of all
  the entries of that name, in falling order, whatever the order in which the map is visited; a positive
  limit keeps so many of them, and none that is left out is longer than one that is kept.\<close>

theorem summary_exact:
  fixes topN :: int
  assumes "mset visited = mset (totals_of es)"
  defines "out \<equiv> Summary visited topN" and "names \<equiv> eName ` set (all_entries es)"
  shows "sorted (map (\<lambda>e. - eDurationMs e) out) \<and> distinct (map eName out) \<and>
    (\<forall>e\<in>set out. eName e \<in> names \<and>
       e = TimingEntry (eName e) (wrap64 (duration_of (eName e) (all_entries es))) [] [] []) \<and>
    length out = (if topN > 0 then min (nat topN) (card names) else card names) \<and>
    (\<forall>n\<in>names - eName ` set out. \<forall>e\<in>set out. wrap64 (duration_of n (all_entries es)) \<le> eDurationMs e)"
proof -
  let ?mk = "\<lambda>(n, d). TimingEntry n d [] [] []"
  let ?sorted = "sort_key (\<lambda>e. - eDurationMs e) (map ?mk visited)"
  have out: "out = take (if topN > 0 then nat topN else length ?sorted) ?sorted"
    by (simp add: out_def Summary_def Let_def)
  have keys: "set visited = set (totals_of es)" using assms(1) by (metis set_mset_mset)
  have "mset (map fst visited) = mset (map fst (totals_of es))" using assms(1) by simp
  then have dist: "distinct (map fst visited)" using totals_of_distinct mset_eq_imp_distinct_iff by blast
  have names: "fst ` set visited = names" by (simp add: keys totals_of_names names_def)
  have "length visited = card names" using dist names distinct_card [of "map fst visited"] by simp
  then have len: "length ?sorted = card names" by simp
  have "map eName (map ?mk visited) = map fst visited" by auto
  then have "mset (map eName ?sorted) = mset (map fst visited)" unfolding mset_map_sort_key by argo
  then have "distinct (map eName ?sorted)" using dist mset_eq_imp_distinct_iff by blast
  then have "distinct (map eName out)" by (simp add: out take_map [symmetric])
  moreover have entry: "e = TimingEntry (eName e) (wrap64 (duration_of (eName e) (all_entries es))) [] [] []"
    "eName e \<in> names" if "e \<in> set ?sorted" for e
    using that totals_of_value [of _ _ es] names by (auto simp: keys intro: rev_image_eqI)
  moreover have "sorted (map (\<lambda>e. - eDurationMs e) ?sorted)" by (rule sorted_sort_key)
  moreover have "wrap64 (duration_of n (all_entries es)) \<le> eDurationMs e"
    if n: "n \<in> names" "n \<notin> eName ` set out" and e: "e \<in> set out" for n e
  proof -
    obtain y where "y \<in> set ?sorted" "eName y = n" using n(1) names by fastforce
    moreover have "y \<notin> set out" using n(2) \<open>eName y = n\<close> by blast
    ultimately have "eDurationMs y \<le> eDurationMs e"
      using falling_take [OF sorted_sort_key [of "\<lambda>e. - eDurationMs e" "map ?mk visited"]] e unfolding out by blast
    moreover have "eDurationMs y = wrap64 (duration_of n (all_entries es))"
      using entry(1) [OF \<open>y \<in> set ?sorted\<close>] \<open>eName y = n\<close> by (metis timing_entry.sel(2))
    ultimately show ?thesis by simp
  qed
  ultimately show ?thesis using len by (auto simp: out sorted_wrt_take take_map [symmetric] min_def dest: in_set_takeD)
qed

text \<open>Two phases that share a name, and one entry kept.\<close>

lemma summary_exact_witness:
  "Summary (totals_of [TimingEntry ''a'' 3 [TimingEntry ''b'' 5 [] [] [], TimingEntry ''a'' 4 [] [] []] [] []]) 1 =
     [TimingEntry ''a'' 7 [] [] []] \<and>
   length (Summary (totals_of [TimingEntry ''a'' 3 [TimingEntry ''b'' 5 [] [] [], TimingEntry ''a'' 4 [] [] []] [] []]) 1) = 1"
proof
  show "Summary (totals_of [TimingEntry ''a'' 3 [TimingEntry ''b'' 5 [] [] [], TimingEntry ''a'' 4 [] [] []] [] []]) 1 =
     [TimingEntry ''a'' 7 [] [] []]" by code_simp
  show "length (Summary (totals_of [TimingEntry ''a'' 3 [TimingEntry ''b'' 5 [] [] [], TimingEntry ''a'' 4 [] [] []] [] []]) 1) = 1"
    using summary_exact [OF refl, of "[TimingEntry ''a'' 3 [TimingEntry ''b'' 5 [] [] [], TimingEntry ''a'' 4 [] [] []] [] []]" 1]
    by (simp add: all_entries_def card_insert_if)
qed

end
