(* ===== verification/Errgroup.thy ===== *)
theory Errgroup
  imports Limiter
begin

text \<open>
  The error group (\<^verbatim>\<open>internal/errgroup/errgroup.go\<close>) over the semaphore of the limiter: the calls of
  \<^verbatim>\<open>Go\<close>, the goroutines they start, and \<^verbatim>\<open>Wait\<close>, as steps that interleave freely. A limiter may be
  shared: permits that other code holds are counted in \<open>others\<close>. What a function returns, and the
  cancellation of the parent context, are choices of the environment.
\<close>

section \<open>State\<close>

text \<open>A call of \<^verbatim>\<open>Go\<close> and the goroutine it starts: in the loop of \<^verbatim>\<open>Acquire\<close> (having slept or not), with its
  permit, running its function, with its result, after recording it, after giving the permit back, and
  gone; or refused by \<^verbatim>\<open>Acquire\<close>.\<close>

datatype task = Waiting bool | Granted | Running | Returned "string option" | Recorded "string option"
  | Released "string option" | Gone "string option" | Refused string

text \<open>A context that is done has an error and a cause. \<open>glim\<close> is the installed semaphore.\<close>

record group =
  glim :: "semaphore option"
  gctx :: "(string \<times> string) option"
  gonce :: bool
  gerr :: "string option"
  tasks :: "task list"
  others :: int

definition WithContext :: "(string \<times> string) option \<Rightarrow> group" where
  "WithContext parent = \<lparr>glim = None, gctx = parent, gonce = False, gerr = None, tasks = [], others = 0\<rparr>"

definition currentLimiter :: "group \<Rightarrow> semaphore option" where
  [simp]: "currentLimiter g = glim g"

definition assertIdle :: "string \<Rightarrow> group \<Rightarrow> unit result" where
  "assertIdle method g =
    (case currentLimiter g of
       None \<Rightarrow> Inr ()
     | Some s \<Rightarrow>
         if InFlight s > 0 then Inl (''errgroup: '' @ method @ '' called while goroutines are running'') else Inr ())"

definition SetLimit :: "int \<Rightarrow> group \<Rightarrow> group result" where
  "SetLimit n g =
    (case assertIdle ''SetLimit'' g of
       Inl p \<Rightarrow> Inl p
     | Inr _ \<Rightarrow>
         if n \<le> 0 then Inr (g\<lparr>glim := None\<rparr>)
         else (case NewSemaphore n of Inl p \<Rightarrow> Inl p | Inr s \<Rightarrow> Inr (g\<lparr>glim := Some s\<rparr>)))"

definition SetLimiter :: "semaphore option \<Rightarrow> group \<Rightarrow> group result" where
  "SetLimiter lim g =
    (case assertIdle ''SetLimiter'' g of
       Inl p \<Rightarrow> Inl p
     | Inr _ \<Rightarrow> Inr (g\<lparr>glim := lim\<rparr>))"

section \<open>Operations\<close>

text \<open>The function of \<^verbatim>\<open>context.WithCancelCause\<close>: the first cancellation counts, a nil cause stands for the
  error.\<close>

definition cancel_cause :: "string option \<Rightarrow> (string \<times> string) option \<Rightarrow> (string \<times> string) option" where
  "cancel_cause cause ctx =
    (case ctx of
       Some c \<Rightarrow> Some c
     | None \<Rightarrow> Some (''context canceled'', case cause of None \<Rightarrow> ''context canceled'' | Some e \<Rightarrow> e))"

definition recordErr :: "string \<Rightarrow> group \<Rightarrow> group" where
  "recordErr e g =
    (if gonce g then g else g\<lparr>gonce := True, gerr := Some e, gctx := cancel_cause (Some e) (gctx g)\<rparr>)"

definition set_task :: "nat \<Rightarrow> task \<Rightarrow> group \<Rightarrow> group" where
  "set_task t p g = g\<lparr>tasks := (tasks g)[t := p]\<rparr>"

definition add_task :: "task \<Rightarrow> group \<Rightarrow> group" where
  "add_task p g = g\<lparr>tasks := tasks g @ [p]\<rparr>"

definition refused :: "string \<Rightarrow> string" where
  "refused e = ''errgroup: acquire: '' @ e"

text \<open>\<^verbatim>\<open>Go\<close> up to the loop of \<^verbatim>\<open>Acquire\<close>.\<close>

definition Go_call :: "group \<Rightarrow> group" where
  "Go_call g =
    (case glim g of
       None \<Rightarrow> add_task Granted g
     | Some s \<Rightarrow>
         (case acquire_entry s (map_option fst (gctx g)) 1 of
            Return None \<Rightarrow> add_task Granted g
          | Return (Some e) \<Rightarrow> add_task (Refused (refused e)) (recordErr (refused e) g)
          | Enter \<Rightarrow> add_task (Waiting False) g))"

text \<open>One turn of the loop: the permit, an error, or the sleep.\<close>

definition Acquire_turn :: "bool \<Rightarrow> nat \<Rightarrow> semaphore \<Rightarrow> group \<Rightarrow> group" where
  "Acquire_turn waited t s g =
    (if fits s 1 then set_task t Granted (g\<lparr>glim := Some (grant 1 waited s)\<rparr>)
     else (case gctx g of
             Some (e, _) \<Rightarrow> set_task t (Refused (refused e)) (recordErr (refused e) g)
           | None \<Rightarrow> set_task t (Waiting True) g))"

definition TryGo :: "group \<Rightarrow> group \<times> bool" where
  "TryGo g =
    (case glim g of
       None \<Rightarrow> (add_task Granted g, True)
     | Some s \<Rightarrow>
         (case TryAcquire s of
            (s', True) \<Rightarrow> (add_task Granted (g\<lparr>glim := Some s'\<rparr>), True)
          | (_, False) \<Rightarrow> (g, False)))"

text \<open>\<^verbatim>\<open>release\<close>: a panic of the limiter is an \<open>Inl\<close>.\<close>

definition release_task :: "group \<Rightarrow> group result" where
  "release_task g =
    (case glim g of None \<Rightarrow> Inr g | Some s \<Rightarrow> map_sum id (\<lambda>s'. g\<lparr>glim := Some s'\<rparr>) (Release s))"

text \<open>What a goroutine does next, \<open>res\<close> being what its function returns; \<open>None\<close> where it waits or is
  over.\<close>

definition run_task :: "string option \<Rightarrow> nat \<Rightarrow> group \<Rightarrow> group result option" where
  "run_task res t g =
    (case tasks g ! t of
       Granted \<Rightarrow> Some (Inr (set_task t Running g))
     | Running \<Rightarrow> Some (Inr (set_task t (Returned res) g))
     | Returned e \<Rightarrow> Some (Inr (set_task t (Recorded e) (case e of None \<Rightarrow> g | Some err \<Rightarrow> recordErr err g)))
     | Recorded e \<Rightarrow> Some (map_sum id (set_task t (Released e)) (release_task g))
     | Released e \<Rightarrow> Some (Inr (set_task t (Gone e) g))
     | _ \<Rightarrow> None)"

text \<open>The counter of the wait group, and \<^verbatim>\<open>Wait\<close>, which blocks (\<open>None\<close>) while it is positive.\<close>

fun counted :: "task \<Rightarrow> bool" where
  "counted Running = True"
| "counted (Returned e) = True"
| "counted (Recorded e) = True"
| "counted (Released e) = True"
| "counted _ = False"

definition group_Wait :: "group \<Rightarrow> (group \<times> string option) option" where
  "group_Wait g =
    (if \<exists>p\<in>set (tasks g). counted p then None
     else Some (g\<lparr>gctx := cancel_cause (gerr g) (gctx g)\<rparr>, gerr g))"

section \<open>Steps\<close>

text \<open>The group's own steps, which need no new call.\<close>

inductive group_internal :: "group \<Rightarrow> group \<Rightarrow> bool" where
  turn: "t < length (tasks g) \<Longrightarrow> tasks g ! t = Waiting waited \<Longrightarrow> glim g = Some s \<Longrightarrow>
    waited \<longrightarrow> fits s 1 \<or> gctx g \<noteq> None \<Longrightarrow> group_internal g (Acquire_turn waited t s g)"
| run: "t < length (tasks g) \<Longrightarrow> run_task res t g = Some (Inr g') \<Longrightarrow> group_internal g g'"

text \<open>All steps, with the calls and what other holders of the limiter and the parent context do.\<close>

inductive group_step :: "group \<Rightarrow> group \<Rightarrow> bool" where
  internal: "group_internal g g' \<Longrightarrow> group_step g g'"
| go: "group_step g (Go_call g)"
| try_go: "group_step g (fst (TryGo g))"
| wait: "group_Wait g = Some (g', e) \<Longrightarrow> group_step g g'"
| parent: "group_step g (g\<lparr>gctx := (case gctx g of None \<Rightarrow> Some c | Some c' \<Rightarrow> Some c')\<rparr>)"
| other_acquire: "glim g = Some s \<Longrightarrow> TryAcquire s = (s', True) \<Longrightarrow>
    group_step g (g\<lparr>glim := Some s', others := others g + 1\<rparr>)"
| other_release: "glim g = Some s \<Longrightarrow> 0 < others g \<Longrightarrow> Release s = Inr s' \<Longrightarrow>
    group_step g (g\<lparr>glim := Some s', others := others g - 1\<rparr>)"

text \<open>A group is set up before the first \<^verbatim>\<open>Go\<close>: no limiter, one of its own, or one that others use
  already.\<close>

inductive group_start :: "group \<Rightarrow> bool" where
  own: "SetLimit n (WithContext parent) = Inr g \<Longrightarrow> group_start g"
| shared: "1 \<le> capacity s \<Longrightarrow> 0 \<le> inFlight s \<Longrightarrow> inFlight s \<le> capacity s \<Longrightarrow>
    SetLimiter (Some s) (WithContext parent) = Inr g \<Longrightarrow> group_start (g\<lparr>others := inFlight s\<rparr>)"

section \<open>Invariant\<close>

fun holds :: "task \<Rightarrow> bool" where
  "holds Granted = True"
| "holds Running = True"
| "holds (Returned e) = True"
| "holds (Recorded e) = True"
| "holds _ = False"

fun task_failure :: "task \<Rightarrow> string option" where
  "task_failure (Recorded e) = e"
| "task_failure (Released e) = e"
| "task_failure (Gone e) = e"
| "task_failure (Refused e) = Some e"
| "task_failure _ = None"

definition permits :: "task list \<Rightarrow> int" where
  "permits ts = int (length (filter holds ts))"

definition failures :: "task list \<Rightarrow> string set" where
  "failures ts = (\<Union>p\<in>set ts. set_option (task_failure p))"

lemma permits_append [simp]: "permits (ts @ [p]) = permits ts + of_bool (holds p)"
  by (simp add: permits_def)

lemma failures_append [simp]: "failures (ts @ [p]) = failures ts \<union> set_option (task_failure p)"
  by (auto simp: failures_def)

lemma permits_nonneg [simp]: "0 \<le> permits ts"
  by (simp add: permits_def)

lemma permits_sum: "permits ts = (\<Sum>q\<leftarrow>ts. of_bool (holds q))"
  by (induction ts) (simp_all add: permits_def)

lemma permits_update:
  "t < length ts \<Longrightarrow> permits (ts[t := p]) = permits ts - of_bool (holds (ts ! t)) + of_bool (holds p)"
  using sum_list_move [of t ts "\<lambda>q. of_bool (holds q) :: int" p] by (simp add: permits_sum)

lemma failures_update:
  assumes "t < length ts" and "task_failure (ts ! t) = None \<or> task_failure (ts ! t) = task_failure p"
  shows "failures (ts[t := p]) = failures ts \<union> set_option (task_failure p)"
proof -
  have "set ts = insert (ts ! t) (set (take t ts) \<union> set (drop (Suc t) ts))"
    using assms(1) by (metis id_take_nth_drop list.simps(15) set_append Un_insert_right)
  moreover have "ts[t := p] = take t ts @ p # drop (Suc t) ts" using assms(1) by (rule upd_conv_take_nth_drop)
  ultimately show ?thesis using assms(2) by (auto simp: failures_def)
qed

text \<open>The permits add up, waiting needs a limiter, and the first error is there from the moment something
  failed, with the context cancelled.\<close>

definition permits_ok :: "group \<Rightarrow> bool" where
  "permits_ok g \<longleftrightarrow> 0 \<le> others g \<and>
     (case glim g of
        None \<Rightarrow> \<forall>w. Waiting w \<notin> set (tasks g)
      | Some s \<Rightarrow> inFlight s = others g + permits (tasks g) \<and> inFlight s \<le> capacity s \<and> 1 \<le> capacity s)"

definition errors_ok :: "group \<Rightarrow> bool" where
  "errors_ok g \<longleftrightarrow>
     (case gerr g of
        None \<Rightarrow> \<not> gonce g \<and> failures (tasks g) = {}
      | Some e \<Rightarrow> gonce g \<and> e \<in> failures (tasks g) \<and> gctx g \<noteq> None)"

lemma recordErr_simps [simp]:
  "tasks (recordErr e g) = tasks g" "glim (recordErr e g) = glim g" "others (recordErr e g) = others g"
  by (simp_all add: recordErr_def)

lemma set_task_simps [simp]:
  "tasks (set_task t p g) = (tasks g)[t := p]" "glim (set_task t p g) = glim g" "others (set_task t p g) = others g"
  "gerr (set_task t p g) = gerr g" "gonce (set_task t p g) = gonce g" "gctx (set_task t p g) = gctx g"
  by (simp_all add: set_task_def)

lemma add_task_simps [simp]:
  "tasks (add_task p g) = tasks g @ [p]" "glim (add_task p g) = glim g" "others (add_task p g) = others g"
  "gerr (add_task p g) = gerr g" "gonce (add_task p g) = gonce g" "gctx (add_task p g) = gctx g"
  by (simp_all add: add_task_def)

lemma cancel_cause_eq_None [simp]: "cancel_cause c ctx = None \<longleftrightarrow> False"
  by (simp add: cancel_cause_def split: option.split)

lemma errors_ok_lim [simp]: "errors_ok (g\<lparr>glim := l\<rparr>) = errors_ok g" "errors_ok (g\<lparr>others := k\<rparr>) = errors_ok g"
  by (simp_all add: errors_ok_def split: option.split)

lemma errors_keep:
  assumes "errors_ok g" "failures (tasks g') = failures (tasks g)"
    and "gerr g' = gerr g" "gonce g' = gonce g" "gctx g \<noteq> None \<Longrightarrow> gctx g' \<noteq> None"
  shows "errors_ok g'"
  using assms by (auto simp: errors_ok_def split: option.splits)

lemma errors_fail:
  assumes "errors_ok g" "failures (tasks g') = insert e (failures (tasks g))"
    and "gerr g' = gerr (recordErr e g)" "gonce g' = gonce (recordErr e g)" "gctx g' = gctx (recordErr e g)"
  shows "errors_ok g'"
  using assms by (auto simp: errors_ok_def recordErr_def split: option.splits if_splits)

lemma errors_ok_add: "errors_ok g \<Longrightarrow> task_failure p = None \<Longrightarrow> errors_ok (add_task p g)"
  by (rule errors_keep) simp_all

lemma errors_ok_add_fail: "errors_ok g \<Longrightarrow> errors_ok (add_task (Refused e) (recordErr e g))"
  by (rule errors_fail) simp_all

lemma errors_ok_set:
  assumes "errors_ok g" "t < length (tasks g)" "task_failure p = task_failure (tasks g ! t)"
  shows "errors_ok (set_task t p g)"
proof (rule errors_keep [OF assms(1)])
  have "set_option (task_failure p) \<subseteq> failures (tasks g)" using assms nth_mem by (force simp: failures_def)
  then show "failures (tasks (set_task t p g)) = failures (tasks g)" using assms by (auto simp: failures_update)
qed simp_all

lemma errors_ok_set_fail:
  assumes "errors_ok g" "t < length (tasks g)" "task_failure (tasks g ! t) = None" "task_failure p = Some e"
  shows "errors_ok (set_task t p (recordErr e g))"
  using assms by (intro errors_fail [OF assms(1)]) (simp_all add: failures_update)

lemmas errors_ok_intros = errors_ok_add errors_ok_add_fail errors_ok_set errors_ok_set_fail

lemma acquire_entry_1: "1 \<le> capacity s \<Longrightarrow>
    acquire_entry s ctxErr 1 = (case ctxErr of Some e \<Rightarrow> Return (Some e) | None \<Rightarrow> Enter)"
  by (simp add: acquire_entry_def)

lemma Waiting_update: "Waiting w \<in> set (ts[t := p]) \<Longrightarrow> Waiting w \<in> set ts \<or> p = Waiting w"
  using set_update_subset_insert by fast

lemma permits_ok_Go: "permits_ok g \<Longrightarrow> permits_ok (Go_call g)"
  by (auto simp: permits_ok_def Go_call_def acquire_entry_1 split: option.splits)

lemma errors_ok_Go: "permits_ok g \<Longrightarrow> errors_ok g \<Longrightarrow> errors_ok (Go_call g)"
  by (auto simp: permits_ok_def Go_call_def acquire_entry_1 intro: errors_ok_intros split: option.splits)

lemma permits_ok_turn:
  assumes "permits_ok g" "t < length (tasks g)" "tasks g ! t = Waiting w" "glim g = Some s"
  shows "permits_ok (Acquire_turn waited t s g)"
  using assms
  by (auto simp: permits_ok_def Acquire_turn_def permits_update fits_def grant_def split: option.splits)

lemma errors_ok_turn:
  assumes "errors_ok g" "t < length (tasks g)" "tasks g ! t = Waiting w"
  shows "errors_ok (Acquire_turn waited t s g)"
  using assms errors_ok_set_fail [of g t "Refused e" e for e]
  by (auto simp: Acquire_turn_def intro: errors_ok_set split: option.splits)

lemma permits_ok_TryGo: "permits_ok g \<Longrightarrow> permits_ok (fst (TryGo g))"
  by (auto simp: permits_ok_def TryGo_def TryAcquire_def TryAcquireN_def split: option.splits)

lemma errors_ok_TryGo: "errors_ok g \<Longrightarrow> errors_ok (fst (TryGo g))"
  by (auto simp: TryGo_def TryAcquire_def TryAcquireN_def intro: errors_ok_intros split: option.splits)

lemma permits_pos: "t < length ts \<Longrightarrow> holds (ts ! t) \<Longrightarrow> 1 \<le> permits ts"
  using permits_update [of t ts "Waiting False"] permits_nonneg [of "ts[t := Waiting False]"] by simp

lemma release_ok:
  assumes "permits_ok g" "t < length (tasks g)" "tasks g ! t = Recorded e"
  shows "\<exists>l. release_task g = Inr (g\<lparr>glim := l\<rparr>) \<and> permits_ok (set_task t (Released e) (g\<lparr>glim := l\<rparr>))"
proof (cases "glim g")
  case None
  then have "release_task g = Inr (g\<lparr>glim := None\<rparr>)" by (simp add: release_task_def)
  moreover have "permits_ok (set_task t (Released e) (g\<lparr>glim := None\<rparr>))"
    using assms None by (auto simp: permits_ok_def dest: Waiting_update)
  ultimately show ?thesis by blast
next
  case (Some s)
  then have "1 \<le> inFlight s" using assms permits_pos [OF assms(2)] by (simp add: permits_ok_def)
  then have "release_task g = Inr (g\<lparr>glim := Some (s\<lparr>inFlight := inFlight s - 1\<rparr>)\<rparr>)"
    using Some by (simp add: release_task_def Release_def ReleaseN_def)
  moreover have "permits_ok (set_task t (Released e) (g\<lparr>glim := Some (s\<lparr>inFlight := inFlight s - 1\<rparr>)\<rparr>))"
    using assms Some by (auto simp: permits_ok_def permits_update)
  ultimately show ?thesis by blast
qed

lemma permits_ok_set:
  assumes "permits_ok g" "t < length (tasks g)" "holds p = holds (tasks g ! t)" "\<forall>w. p \<noteq> Waiting w"
  shows "permits_ok (set_task t p g)"
  using assms by (auto simp: permits_ok_def permits_update split: option.splits dest: Waiting_update)

lemma permits_ok_recordErr [simp]: "permits_ok (recordErr e g) = permits_ok g"
  by (simp add: permits_ok_def split: option.split)

lemma run_ok:
  assumes "permits_ok g" "errors_ok g" "t < length (tasks g)" "run_task res t g = Some (Inr g')"
  shows "permits_ok g' \<and> errors_ok g'"
proof (cases "tasks g ! t")
  case (Recorded e)
  then obtain l where l: "release_task g = Inr (g\<lparr>glim := l\<rparr>)" "permits_ok (set_task t (Released e) (g\<lparr>glim := l\<rparr>))"
    using release_ok [OF assms(1,3)] by blast
  then have "g' = set_task t (Released e) (g\<lparr>glim := l\<rparr>)" using assms(4) Recorded by (simp add: run_task_def)
  then show ?thesis using l assms(2,3) Recorded by (auto intro!: errors_ok_intros)
next
  case (Returned e)
  then show ?thesis
    using assms errors_ok_set_fail [of g t "Recorded e" "the e"]
    by (cases e) (auto simp: run_task_def intro: errors_ok_set permits_ok_set)
qed (use assms in \<open>auto simp: run_task_def intro!: errors_ok_intros permits_ok_set\<close>)

lemma run_task_never_panics:
  assumes "permits_ok g" "t < length (tasks g)"
  shows "run_task res t g \<noteq> Some (Inl p)"
  using release_ok [OF assms] by (fastforce simp: run_task_def split: task.splits)

lemma group_internal_ok:
  assumes "group_internal g g'" "permits_ok g" "errors_ok g"
  shows "permits_ok g' \<and> errors_ok g'"
  using assms by (cases rule: group_internal.cases) (auto simp: permits_ok_turn errors_ok_turn dest: run_ok)

lemma group_step_ok:
  assumes "group_step g g'" "permits_ok g" "errors_ok g"
  shows "permits_ok g' \<and> errors_ok g'"
  using assms
proof (cases rule: group_step.cases)
  case (wait e)
  then have "g' = g\<lparr>gctx := cancel_cause (gerr g) (gctx g)\<rparr>" by (auto simp: group_Wait_def split: if_splits)
  then show ?thesis using assms(2,3) by (auto simp: permits_ok_def errors_ok_def split: option.splits)
next
  case (parent c)
  then show ?thesis using assms(2,3) by (auto simp: permits_ok_def errors_ok_def split: option.splits)
next
  case internal
  then show ?thesis using assms(2,3) group_internal_ok by blast
next
  case (other_acquire s s')
  then show ?thesis using assms(2,3) by (auto simp: permits_ok_def TryAcquire_def TryAcquireN_def split: if_splits)
next
  case (other_release s s')
  then show ?thesis using assms(2,3) by (auto simp: permits_ok_def Release_def ReleaseN_def split: if_splits)
qed (use assms(2,3) in \<open>simp_all add: permits_ok_Go errors_ok_Go permits_ok_TryGo errors_ok_TryGo\<close>)

lemma group_start_ok: "group_start g \<Longrightarrow> permits_ok g \<and> errors_ok g"
  by (cases rule: group_start.cases, assumption)
    (auto simp: SetLimit_def SetLimiter_def WithContext_def assertIdle_def NewSemaphore_def permits_ok_def errors_ok_def
      permits_def failures_def split: if_splits)

section \<open>Progress\<close>

fun task_rank :: "task \<Rightarrow> nat" where
  "task_rank (Waiting w) = (if w then 6 else 7)"
| "task_rank Granted = 5"
| "task_rank Running = 4"
| "task_rank (Returned e) = 3"
| "task_rank (Recorded e) = 2"
| "task_rank (Released e) = 1"
| "task_rank _ = 0"

definition group_rank :: "group \<Rightarrow> nat" where
  "group_rank g = sum_list (map task_rank (tasks g))"

fun over :: "task \<Rightarrow> bool" where
  "over (Gone e) = True"
| "over (Refused e) = True"
| "over _ = False"

definition at_rest :: "group \<Rightarrow> bool" where
  "at_rest g \<longleftrightarrow> others g > 0 \<or> (\<forall>p\<in>set (tasks g). over p)"

lemma rank_update:
  "t < length ts \<Longrightarrow> task_rank p < task_rank (ts ! t) \<Longrightarrow>
    sum_list (map task_rank (ts[t := p])) < sum_list (map task_rank ts)"
  using sum_list_move [of t ts task_rank p] by linarith

lemma set_task_rank: "t < length (tasks g) \<Longrightarrow> task_rank p < task_rank (tasks g ! t) \<Longrightarrow> tasks g' = tasks g \<Longrightarrow>
    group_rank (set_task t p g') < group_rank g"
  by (simp add: group_rank_def rank_update)

lemma release_task_step:
  assumes "map_sum id f (release_task g) = Inr g'"
  obtains l where "g' = f (g\<lparr>glim := l\<rparr>)"
proof (cases "glim g")
  case None
  then have "g\<lparr>glim := None\<rparr> = g" by (cases g) simp
  moreover have "g' = f g" using assms None by (simp add: release_task_def)
  ultimately show ?thesis using that [of None] by argo
next
  case (Some s)
  then show ?thesis using assms that by (cases "Release s") (auto simp: release_task_def)
qed

lemma group_internal_rank:
  assumes "group_internal g g'"
  shows "group_rank g' < group_rank g"
  using assms
proof (cases rule: group_internal.cases)
  case (turn t waited s)
  then show ?thesis by (auto simp: Acquire_turn_def intro!: set_task_rank split: option.split)
next
  case (run t res)
  then show ?thesis
    by (cases "tasks g ! t")
      (auto simp: run_task_def elim!: release_task_step intro!: set_task_rank split: option.splits)
qed

lemma group_internal_others:
  assumes "group_internal g g'"
  shows "others g' = others g \<and> length (tasks g') = length (tasks g)"
  using assms
proof (cases rule: group_internal.cases)
  case (turn t waited s)
  then show ?thesis by (auto simp: Acquire_turn_def split: option.split)
next
  case (run t res)
  then show ?thesis
    by (cases "tasks g ! t")
      (auto simp: run_task_def elim!: release_task_step split: option.splits)
qed

text \<open>A task that is not over can move, unless it waits; and if all of them wait, all permits are free.\<close>

lemma run_task_moves:
  assumes "permits_ok g" "t < length (tasks g)" "\<not> over (tasks g ! t)" "\<forall>w. tasks g ! t \<noteq> Waiting w"
  shows "\<exists>g'. group_internal g g'"
proof -
  have "run_task None t g \<noteq> None" using assms(3,4) by (cases "tasks g ! t") (auto simp: run_task_def)
  then obtain r where "run_task None t g = Some r" by blast
  then show ?thesis using run_task_never_panics [OF assms(1,2), of None] run [OF assms(2), of None] by (cases r) auto
qed

lemma group_progress:
  assumes "permits_ok g" "\<not> at_rest g"
  shows "\<exists>g'. group_internal g g'"
proof (cases "\<exists>t<length (tasks g). \<not> over (tasks g ! t) \<and> (\<forall>w. tasks g ! t \<noteq> Waiting w)")
  case True
  then show ?thesis using run_task_moves [OF assms(1)] by blast
next
  case False
  obtain t where t: "t < length (tasks g)" "\<not> over (tasks g ! t)"
    using assms(2) by (auto simp: at_rest_def in_set_conv_nth)
  then obtain w where w: "tasks g ! t = Waiting w" using False by blast
  then have "Waiting w \<in> set (tasks g)" using t(1) by (metis nth_mem)
  then obtain s where s: "glim g = Some s" using assms(1) by (auto simp: permits_ok_def split: option.splits)
  have "\<not> holds p" if "p \<in> set (tasks g)" for p
  proof -
    from that obtain u where "u < length (tasks g)" "p = tasks g ! u" by (auto simp: in_set_conv_nth)
    then have "over p \<or> (\<exists>w. p = Waiting w)" using False by blast
    then show ?thesis by (cases p) auto
  qed
  then have "permits (tasks g) = 0" by (simp add: permits_def filter_empty_conv)
  moreover have "others g = 0" using assms by (simp add: permits_ok_def at_rest_def)
  ultimately have "fits s 1" using assms(1) s by (simp add: permits_ok_def fits_def)
  then show ?thesis using turn [OF t(1) w s] by blast
qed

interpretation errgroup: draining_machine group_start group_step "\<lambda>g. permits_ok g \<and> errors_ok g"
    group_internal at_rest group_rank
  by unfold_locales
    (simp_all add: group_start_ok group_step_ok group_step.internal group_internal_rank group_progress)

section \<open>Properties\<close>

lemma recordErr_first: "errors_ok g \<Longrightarrow> gerr g = Some e \<Longrightarrow> recordErr x g = g"
  by (simp add: errors_ok_def recordErr_def)

lemma group_step_first:
  assumes "group_step g g'" "errors_ok g" "gerr g = Some e"
  shows "gerr g' = Some e"
  using assms(1)
proof (cases rule: group_step.cases)
  case internal
  then show ?thesis
  proof (cases rule: group_internal.cases)
    case (turn t waited s)
    then show ?thesis using assms(3) recordErr_first [OF assms(2,3)] by (auto simp: Acquire_turn_def split: option.split)
  next
    case (run t res)
    then show ?thesis using assms(3) recordErr_first [OF assms(2,3)]
      by (cases "tasks g ! t") (auto simp: run_task_def elim!: release_task_step split: option.splits)
  qed
qed (use assms(3) recordErr_first [OF assms(2,3)] in \<open>auto simp: Go_call_def TryGo_def group_Wait_def
      split: option.splits entry_check.splits prod.splits bool.splits if_splits\<close>)

text \<open>(C34) Fail-fast. However calls, goroutines, other users of the limiter and the parent context
  interleave, the group has an error exactly when some function has failed or some call was refused its
  permit; it is the error of one of them, the context is cancelled from then on, and no later step
  replaces it. \<^verbatim>\<open>Wait\<close> returns it, and leaves the context cancelled in any case.\<close>

theorem group_fail_fast:
  assumes "reach group_start group_step g"
  shows "(gerr g = None \<longleftrightarrow> failures (tasks g) = {}) \<and>
    (\<forall>e. gerr g = Some e \<longrightarrow>
       e \<in> failures (tasks g) \<and> gctx g \<noteq> None \<and> (\<forall>g'. group_step g g' \<longrightarrow> gerr g' = Some e)) \<and>
    (\<forall>g' r. group_Wait g = Some (g', r) \<longrightarrow> r = gerr g \<and> gctx g' \<noteq> None)"
proof -
  have ok: "errors_ok g" using errgroup.inv_reach [OF assms] by blast
  then show ?thesis
    using group_step_first [OF _ ok]
    by (auto simp: errors_ok_def group_Wait_def simp del: not_None_eq split: option.splits if_splits)
qed

text \<open>A group of one permit whose first function fails.\<close>

definition eg0 :: group where
  "eg0 = (case SetLimit 1 (WithContext None) of Inr g \<Rightarrow> g)"

definition eg1 :: group where
  "eg1 = Acquire_turn False 0 (the (glim eg0)) (Go_call eg0)"

definition eg_run :: "string option \<Rightarrow> group \<Rightarrow> group" where
  "eg_run e g = (case run_task e 0 g of Some (Inr g') \<Rightarrow> g')"

lemmas eg_defs = eg0_def eg1_def eg_run_def SetLimit_def WithContext_def assertIdle_def NewSemaphore_def Go_call_def
  acquire_entry_def Acquire_turn_def fits_def grant_def run_task_def add_task_def set_task_def recordErr_def cancel_cause_def

lemma eg_reach:
  "reach group_start group_step eg1"
  "reach group_start group_step (eg_run None (eg_run (Some ''boom'') (eg_run None eg1)))"
proof -
  have "reach group_start group_step eg0"
    by (rule reach_start, rule own [of 1 None]) (simp add: eg_defs)
  then have "reach group_start group_step (Go_call eg0)" by (rule reach_step) (rule go)
  then show 1: "reach group_start group_step eg1"
    by (rule reach_step) (unfold eg1_def, intro internal turn; simp add: eg_defs)
  then have "reach group_start group_step (eg_run None eg1)"
    by (rule reach_step) (intro internal run [of 0 _ None]; simp add: eg_defs)
  then have "reach group_start group_step (eg_run (Some ''boom'') (eg_run None eg1))"
    by (rule reach_step) (intro internal run [of 0 _ "Some ''boom''"]; simp add: eg_defs)
  then show "reach group_start group_step (eg_run None (eg_run (Some ''boom'') (eg_run None eg1)))"
    by (rule reach_step) (intro internal run [of 0 _ None]; simp add: eg_defs)
qed

lemma group_fail_fast_witness:
  "gerr (eg_run None (eg_run (Some ''boom'') (eg_run None eg1))) = Some ''boom'' \<and>
   gerr (fst (TryGo (eg_run None (eg_run (Some ''boom'') (eg_run None eg1))))) = Some ''boom''"
proof -
  have "gerr (eg_run None (eg_run (Some ''boom'') (eg_run None eg1))) = Some ''boom''" by (simp add: eg_defs)
  then show ?thesis using group_fail_fast [OF eg_reach(2)] try_go by blast
qed

text \<open>Bounded concurrency. With a limiter, the permits in flight are those of other users and one for
  every goroutine that runs or has not given its permit back, so that no more functions run at a time
  than the limiter has permits; its capacity never changes; and giving back a permit never panics.\<close>

theorem group_bounded:
  assumes "reach group_start group_step g" and "glim g = Some s"
  shows "inFlight s = others g + permits (tasks g) \<and> int (length (filter ((=) Running) (tasks g))) \<le> capacity s \<and>
    (\<forall>t res p. t < length (tasks g) \<longrightarrow> run_task res t g \<noteq> Some (Inl p)) \<and>
    (\<forall>g'. group_step g g' \<longrightarrow> map_option capacity (glim g') = Some (capacity s))"
proof (intro conjI allI impI)
  have ok: "permits_ok g" using errgroup.inv_reach [OF assms(1)] by blast
  show "inFlight s = others g + permits (tasks g)" using ok assms(2) by (simp add: permits_ok_def)
  have "length (filter ((=) Running) ts) \<le> length (filter holds ts)" for ts
    by (induction ts) auto
  then have "int (length (filter ((=) Running) (tasks g))) \<le> permits (tasks g)" by (simp add: permits_def)
  then show "int (length (filter ((=) Running) (tasks g))) \<le> capacity s" using ok assms(2) by (simp add: permits_ok_def)
  show "run_task res t g \<noteq> Some (Inl p)" if "t < length (tasks g)" for t res p
    using run_task_never_panics [OF ok that] .
  show "map_option capacity (glim g') = Some (capacity s)" if "group_step g g'" for g'
    using that
  proof (cases rule: group_step.cases)
    case internal
    then show ?thesis
    proof (cases rule: group_internal.cases)
      case (turn t waited s')
      then show ?thesis using assms(2) by (auto simp: Acquire_turn_def grant_def split: option.split)
    next
      case (run t res)
      then show ?thesis using assms(2)
        by (cases "tasks g ! t")
          (auto simp: run_task_def release_task_def Release_def ReleaseN_def split: option.splits if_splits)
    qed
  qed (use assms(2) in \<open>auto simp: Go_call_def TryGo_def TryAcquire_def TryAcquireN_def Release_def ReleaseN_def group_Wait_def
      split: option.splits entry_check.splits if_splits\<close>)
qed

lemma group_bounded_witness:
  "glim eg1 = Some \<lparr>capacity = 1, inFlight = 1, totalAcquired = 1, totalWaited = 0\<rparr> \<and> permits (tasks eg1) = 1"
proof -
  have "glim eg1 = Some \<lparr>capacity = 1, inFlight = 1, totalAcquired = 1, totalWaited = 0\<rparr>" "others eg1 = 0"
    by (simp_all add: eg_defs)
  then show ?thesis using group_bounded [OF eg_reach(1)] by auto
qed

text \<open>Draining. As long as its functions return and no one else keeps the limiter's permits, a group comes to the
  end of all its calls: no wait for a permit is a deadlock, every run of its own steps is bounded, and then
  \<^verbatim>\<open>Wait\<close> does not block, and returns no error exactly when every call ran its function without one.\<close>

theorem group_drains:
  assumes "reach group_start group_step g" and "others g = 0"
  shows "(\<exists>g' g''. group_internal\<^sup>*\<^sup>* g g' \<and> length (tasks g') = length (tasks g) \<and> (\<forall>p\<in>set (tasks g'). over p) \<and>
      group_Wait g' = Some (g'', gerr g') \<and> (gerr g' = None \<longleftrightarrow> (\<forall>p\<in>set (tasks g'). p = Gone None))) \<and>
    (\<forall>n g'. (group_internal ^^ n) g g' \<longrightarrow> n \<le> group_rank g)"
proof (intro conjI allI impI)
  obtain g' where g': "group_internal\<^sup>*\<^sup>* g g'" "at_rest g'" using errgroup.drains(1) [OF assms(1)] by blast
  have "others g' = others g \<and> length (tasks g') = length (tasks g)"
    using g'(1) by (induction rule: rtranclp_induct) (simp_all add: group_internal_others)
  moreover from this have over: "\<forall>p\<in>set (tasks g'). over p" using g'(2) assms(2) by (simp add: at_rest_def)
  moreover have "\<not> (\<exists>p\<in>set (tasks g'). counted p)" using over by (metis counted.elims(2) over.simps)
  moreover have "errors_ok g'" using errgroup.inv_internal [OF g'(1)] errgroup.inv_reach [OF assms(1)] by blast
  then have "gerr g' = None \<longleftrightarrow> failures (tasks g') = {}" by (auto simp: errors_ok_def split: option.splits)
  moreover have "failures (tasks g') = {} \<longleftrightarrow> (\<forall>p\<in>set (tasks g'). p = Gone None)"
  proof -
    have "task_failure p = None \<longleftrightarrow> p = Gone None" if "over p" for p using that by (cases p) auto
    then show ?thesis using over by (auto simp: failures_def)
  qed
  ultimately show "\<exists>g' g''. group_internal\<^sup>*\<^sup>* g g' \<and> length (tasks g') = length (tasks g) \<and> (\<forall>p\<in>set (tasks g'). over p) \<and>
      group_Wait g' = Some (g'', gerr g') \<and> (gerr g' = None \<longleftrightarrow> (\<forall>p\<in>set (tasks g'). p = Gone None))"
    using g'(1) by (auto simp: group_Wait_def)
  show "(group_internal ^^ n) g g' \<Longrightarrow> n \<le> group_rank g" for n g' by (rule errgroup.drains(2) [OF assms(1)])
qed

lemma group_drains_witness:
  "\<exists>g'. group_internal\<^sup>*\<^sup>* eg1 g' \<and> (\<forall>p\<in>set (tasks g'). over p)"
  using group_drains [OF eg_reach(1)] by (auto simp: eg_defs)

end
