(* ===== verification/Async_Writer.thy ===== *)
theory Async_Writer
  imports Go_Time "HOL-Library.Multiset"
begin

text \<open>
  The background cache writer (\<^verbatim>\<open>internal/cacheutil/async_writer.go\<close>): a bounded queue of jobs and the
  workers that run them, as steps that interleave freely. Jobs are numbered as they are accepted, and
  what job \<open>j\<close> writes and whether it fails is \<open>res j\<close>.
\<close>

section \<open>State\<close>

text \<open>A worker waits for a job, runs it, has run it, has counted its bytes and its failure, has recorded its
  error, has counted it as completed; or it has left.\<close>

datatype worker = Idle | Doing nat | Ran nat | Erring nat | Logged nat | Counted nat | Exited

text \<open>\<open>submitting\<close>: a call of \<^verbatim>\<open>Submit\<close> that has sent its job and holds the mutex. The joined error is the
  list of its parts. \<open>accepted\<close> and \<open>starts\<close> are the history: how many jobs were accepted, and which
  were started, in order.\<close>

record async_writer =
  jobs :: "nat list"
  jobsCap :: nat
  wclosed :: bool
  firstErr :: "string list"
  submitting :: bool
  jobsWG :: nat
  workers :: "worker list"
  queued :: nat
  completed :: nat
  failed :: nat
  wbytes :: int
  accepted :: nat
  starts :: "nat list"

definition NewAsyncWriter :: "int \<Rightarrow> int \<Rightarrow> async_writer" where
  "NewAsyncWriter n queueSize =
    (let n = (if n < 1 then 1 else n);
         queueSize = (if queueSize < 1 then 1 else queueSize)
     in \<lparr>jobs = [], jobsCap = nat queueSize, wclosed = False, firstErr = [], submitting = False, jobsWG = 0,
         workers = replicate (nat n) Idle, queued = 0, completed = 0, failed = 0, wbytes = 0,
         accepted = 0, starts = []\<rparr>)"

section \<open>Operations\<close>

text \<open>\<^verbatim>\<open>Submit\<close> with the mutex just taken, up to its send; then its counter, and the end of the call.\<close>

definition Submit :: "async_writer \<Rightarrow> async_writer \<times> bool" where
  "Submit w =
    (if wclosed w then (w, False)
     else if length (jobs w) < jobsCap w then
       (w\<lparr>jobsWG := jobsWG w + 1, jobs := jobs w @ [accepted w], accepted := accepted w + 1, submitting := True\<rparr>, True)
     else (w, False))"

definition Submit_end :: "async_writer \<Rightarrow> async_writer" where
  "Submit_end w = w\<lparr>queued := queued w + 1, submitting := False\<rparr>"

text \<open>A nil writer or a nil job is refused.\<close>

definition Submit_call :: "async_writer option \<Rightarrow> bool \<Rightarrow> async_writer option \<times> bool" where
  "Submit_call w hasJob =
    (case w of
       None \<Rightarrow> (None, False)
     | Some w \<Rightarrow> if \<not> hasJob then (Some w, False) else (case Submit w of (w', ok) \<Rightarrow> (Some w', ok)))"

text \<open>\<^verbatim>\<open>Flush\<close>, which blocks (\<open>None\<close>) until the counter is zero; the first half of \<^verbatim>\<open>Close\<close>, and its result.\<close>

definition Flush :: "async_writer option \<Rightarrow> string list option" where
  "Flush w =
    (case w of None \<Rightarrow> Some [] | Some w \<Rightarrow> if jobsWG w = 0 \<and> \<not> submitting w then Some (firstErr w) else None)"

definition Close_begin :: "async_writer \<Rightarrow> async_writer" where
  "Close_begin w = (if \<not> wclosed w then w\<lparr>wclosed := True\<rparr> else w)"

definition Close_end :: "async_writer option \<Rightarrow> string list option" where
  "Close_end w =
    (case w of
       None \<Rightarrow> Some []
     | Some v \<Rightarrow> (case Flush w of None \<Rightarrow> None | Some err \<Rightarrow> if \<forall>p\<in>set (workers v). p = Exited then Some err else None))"

definition WriterStats :: "async_writer option \<Rightarrow> nat \<times> nat \<times> nat \<times> int" where
  "WriterStats w =
    (case w of None \<Rightarrow> (0, 0, 0, 0) | Some w \<Rightarrow> (queued w, completed w, failed w, wbytes w))"

definition set_worker :: "nat \<Rightarrow> worker \<Rightarrow> async_writer \<Rightarrow> async_writer" where
  "set_worker i p w = w\<lparr>workers := (workers w)[i := p]\<rparr>"

definition count_result :: "int \<times> string option \<Rightarrow> async_writer \<Rightarrow> async_writer" where
  "count_result r w =
    (let w = (if fst r > 0 then w\<lparr>wbytes := wrap64 (wbytes w + fst r)\<rparr> else w)
     in if snd r \<noteq> None then w\<lparr>failed := failed w + 1\<rparr> else w)"

text \<open>The next thing worker \<open>i\<close> does, in its loop over the channel; \<open>None\<close> where it blocks.\<close>

definition worker_step :: "(nat \<Rightarrow> int \<times> string option) \<Rightarrow> nat \<Rightarrow> async_writer \<Rightarrow> async_writer option" where
  "worker_step res i w =
    (case workers w ! i of
       Idle \<Rightarrow>
         (case jobs w of
            j # js \<Rightarrow> Some (set_worker i (Doing j) (w\<lparr>jobs := js, starts := starts w @ [j]\<rparr>))
          | [] \<Rightarrow> if wclosed w then Some (set_worker i Exited w) else None)
     | Doing j \<Rightarrow> Some (set_worker i (Ran j) w)
     | Ran j \<Rightarrow> Some (set_worker i (Erring j) (count_result (res j) w))
     | Erring j \<Rightarrow>
         (case snd (res j) of
            None \<Rightarrow> Some (set_worker i (Logged j) w)
          | Some err \<Rightarrow>
              if submitting w then None else Some (set_worker i (Logged j) (w\<lparr>firstErr := firstErr w @ [err]\<rparr>)))
     | Logged j \<Rightarrow> Some (set_worker i (Counted j) (w\<lparr>completed := completed w + 1\<rparr>))
     | Counted j \<Rightarrow> Some (set_worker i Idle (w\<lparr>jobsWG := jobsWG w - 1\<rparr>))
     | Exited \<Rightarrow> None)"

section \<open>Steps\<close>

inductive writer_internal :: "(nat \<Rightarrow> int \<times> string option) \<Rightarrow> async_writer \<Rightarrow> async_writer \<Rightarrow> bool" for res where
  work: "i < length (workers w) \<Longrightarrow> worker_step res i w = Some w' \<Longrightarrow> writer_internal res w w'"
| submit_end: "submitting w \<Longrightarrow> writer_internal res w (Submit_end w)"

inductive writer_step :: "(nat \<Rightarrow> int \<times> string option) \<Rightarrow> async_writer \<Rightarrow> async_writer \<Rightarrow> bool" for res where
  internal: "writer_internal res w w' \<Longrightarrow> writer_step res w w'"
| submit: "\<not> submitting w \<Longrightarrow> writer_step res w (fst (Submit w))"
| closing: "\<not> submitting w \<Longrightarrow> writer_step res w (Close_begin w)"

definition writer_start :: "async_writer \<Rightarrow> bool" where
  "writer_start w \<longleftrightarrow> (\<exists>n q. w = NewAsyncWriter n q)"

section \<open>Accounting\<close>

text \<open>What a worker still has to book: failures, bytes, errors, completions; and its share of the wait
  group.\<close>

definition bytes_of :: "(nat \<Rightarrow> int \<times> string option) \<Rightarrow> nat \<Rightarrow> int" where
  "bytes_of res j = max 0 (fst (res j))"

definition fails :: "(nat \<Rightarrow> int \<times> string option) \<Rightarrow> nat \<Rightarrow> nat" where
  "fails res j = (if snd (res j) = None then 0 else 1)"

definition errors :: "(nat \<Rightarrow> int \<times> string option) \<Rightarrow> nat \<Rightarrow> string multiset" where
  "errors res j = (case snd (res j) of None \<Rightarrow> {#} | Some e \<Rightarrow> {#e#})"

fun due_bytes :: "(nat \<Rightarrow> int \<times> string option) \<Rightarrow> worker \<Rightarrow> int" where
  "due_bytes res (Doing j) = bytes_of res j"
| "due_bytes res (Ran j) = bytes_of res j"
| "due_bytes res _ = 0"

fun due_fails :: "(nat \<Rightarrow> int \<times> string option) \<Rightarrow> worker \<Rightarrow> nat" where
  "due_fails res (Doing j) = fails res j"
| "due_fails res (Ran j) = fails res j"
| "due_fails res _ = 0"

fun due_errors :: "(nat \<Rightarrow> int \<times> string option) \<Rightarrow> worker \<Rightarrow> string multiset" where
  "due_errors res (Doing j) = errors res j"
| "due_errors res (Ran j) = errors res j"
| "due_errors res (Erring j) = errors res j"
| "due_errors res _ = {#}"

fun due_done :: "worker \<Rightarrow> nat" where
  "due_done Idle = 0"
| "due_done Exited = 0"
| "due_done (Counted j) = 0"
| "due_done _ = 1"

fun busy_worker :: "worker \<Rightarrow> nat" where
  "busy_worker Idle = 0"
| "busy_worker Exited = 0"
| "busy_worker _ = 1"

definition writer_ok :: "(nat \<Rightarrow> int \<times> string option) \<Rightarrow> async_writer \<Rightarrow> bool" where
  "writer_ok res w \<longleftrightarrow>
     starts w @ jobs w = [0..<accepted w] \<and> length (jobs w) \<le> jobsCap w \<and> workers w \<noteq> [] \<and>
     (Exited \<in> set (workers w) \<longrightarrow> wclosed w \<and> jobs w = []) \<and> (submitting w \<longrightarrow> 0 < accepted w) \<and>
     queued w + of_bool (submitting w) = accepted w \<and>
     jobsWG w = length (jobs w) + sum_list (map busy_worker (workers w)) \<and>
     completed w + sum_list (map due_done (workers w)) = length (starts w) \<and>
     failed w + sum_list (map (due_fails res) (workers w)) = sum_list (map (fails res) (starts w)) \<and>
     wrap64 (wbytes w + sum_list (map (due_bytes res) (workers w))) = wrap64 (sum_list (map (bytes_of res) (starts w))) \<and>
     mset (firstErr w) + sum_list (map (due_errors res) (workers w)) = sum_list (map (errors res) (starts w))"

lemma wrap64_eq_iff: "wrap64 a = wrap64 b \<longleftrightarrow> 2 ^ 64 dvd (a - b)"
proof -
  have "wrap64 a = wrap64 b \<longleftrightarrow> (a + 2 ^ 63) mod 2 ^ 64 = (b + 2 ^ 63) mod 2 ^ 64" by (simp add: wrap64_def)
  also have "\<dots> \<longleftrightarrow> 2 ^ 64 dvd (a - b)" by (simp only: mod_eq_dvd_iff) simp
  finally show ?thesis .
qed

text \<open>A step of one worker keeps the accounts when what it has booked and what it still owes add up.\<close>

lemma writer_ok_worker:
  assumes ok: "writer_ok res w" and i: "i < length (workers w)"
    and same: "workers w' = (workers w)[i := p]" "jobsCap w' = jobsCap w" "submitting w' = submitting w"
      "queued w' = queued w" "accepted w' = accepted w" "wclosed w' = wclosed w"
    and queue: "starts w' @ jobs w' = starts w @ jobs w" "length (jobs w') \<le> length (jobs w)"
      "p = Exited \<longrightarrow> wclosed w \<and> jobs w = []" "jobs w = [] \<longrightarrow> jobs w' = []"
    and wg: "jobsWG w' + length (jobs w) + busy_worker (workers w ! i) = jobsWG w + length (jobs w') + busy_worker p"
    and compl: "completed w' + due_done p + length (starts w) = completed w + due_done (workers w ! i) + length (starts w')"
    and failing: "failed w' + due_fails res p + sum_list (map (fails res) (starts w)) =
      failed w + due_fails res (workers w ! i) + sum_list (map (fails res) (starts w'))"
    and bytes: "wrap64 (wbytes w' + due_bytes res p + sum_list (map (bytes_of res) (starts w))) =
      wrap64 (wbytes w + due_bytes res (workers w ! i) + sum_list (map (bytes_of res) (starts w')))"
    and errs: "mset (firstErr w') + due_errors res p + sum_list (map (errors res) (starts w)) =
      mset (firstErr w) + due_errors res (workers w ! i) + sum_list (map (errors res) (starts w'))"
  shows "writer_ok res w'"
proof -
  note up = sum_list_move [OF i, where p = p]
  have "Exited \<in> set (workers w') \<longrightarrow> wclosed w \<and> jobs w' = []"
    using ok same(1) queue(3,4) set_update_subset_insert [of "workers w" i p] by (auto simp: writer_ok_def)
  moreover have "jobsWG w' = length (jobs w') + sum_list (map busy_worker (workers w'))"
    using ok wg up [of busy_worker] unfolding same(1) writer_ok_def by linarith
  moreover have "completed w' + sum_list (map due_done (workers w')) = length (starts w')"
    using ok compl up [of due_done] unfolding same(1) writer_ok_def by linarith
  moreover have "failed w' + sum_list (map (due_fails res) (workers w')) = sum_list (map (fails res) (starts w'))"
    using ok failing up [of "due_fails res"] unfolding same(1) writer_ok_def by linarith
  moreover have "wrap64 (wbytes w' + sum_list (map (due_bytes res) (workers w'))) = wrap64 (sum_list (map (bytes_of res) (starts w')))"
  proof -
    have "2 ^ 64 dvd (wbytes w + sum_list (map (due_bytes res) (workers w)) - sum_list (map (bytes_of res) (starts w)) +
        (wbytes w' + due_bytes res p + sum_list (map (bytes_of res) (starts w)) -
         (wbytes w + due_bytes res (workers w ! i) + sum_list (map (bytes_of res) (starts w')))))"
      using ok bytes by (intro dvd_add) (simp_all only: writer_ok_def wrap64_eq_iff)
    also have "\<dots> = wbytes w' + sum_list (map (due_bytes res) (workers w')) - sum_list (map (bytes_of res) (starts w'))"
      using up [of "due_bytes res"] unfolding same(1) by simp
    finally show ?thesis by (simp only: wrap64_eq_iff)
  qed
  moreover have "mset (firstErr w') + sum_list (map (due_errors res) (workers w')) = sum_list (map (errors res) (starts w'))"
  proof -
    have "mset (firstErr w') + sum_list (map (due_errors res) (workers w')) +
        (due_errors res (workers w ! i) + sum_list (map (errors res) (starts w))) =
      mset (firstErr w') + (sum_list (map (due_errors res) (workers w)) + due_errors res p) + sum_list (map (errors res) (starts w))"
      using up [of "due_errors res"] unfolding same(1) by (simp add: ac_simps)
    also have "\<dots> = mset (firstErr w) + due_errors res (workers w ! i) + sum_list (map (errors res) (starts w')) +
        sum_list (map (due_errors res) (workers w))"
      using errs by (simp add: ac_simps)
    also have "\<dots> = sum_list (map (errors res) (starts w')) + (due_errors res (workers w ! i) + sum_list (map (errors res) (starts w)))"
      using ok by (simp add: writer_ok_def ac_simps)
    finally show ?thesis by simp
  qed
  ultimately show ?thesis using ok same queue by (simp add: writer_ok_def)
qed

lemma set_worker_simps [simp]:
  "workers (set_worker i p w) = (workers w)[i := p]" "jobs (set_worker i p w) = jobs w" "jobsCap (set_worker i p w) = jobsCap w"
  "submitting (set_worker i p w) = submitting w" "queued (set_worker i p w) = queued w" "accepted (set_worker i p w) = accepted w"
  "wclosed (set_worker i p w) = wclosed w" "starts (set_worker i p w) = starts w" "jobsWG (set_worker i p w) = jobsWG w"
  "completed (set_worker i p w) = completed w" "failed (set_worker i p w) = failed w" "wbytes (set_worker i p w) = wbytes w"
  "firstErr (set_worker i p w) = firstErr w"
  by (simp_all add: set_worker_def)

lemma count_result_simps [simp]:
  "workers (count_result r w) = workers w" "jobs (count_result r w) = jobs w" "jobsCap (count_result r w) = jobsCap w"
  "submitting (count_result r w) = submitting w" "queued (count_result r w) = queued w"
  "accepted (count_result r w) = accepted w" "wclosed (count_result r w) = wclosed w" "starts (count_result r w) = starts w"
  "jobsWG (count_result r w) = jobsWG w" "completed (count_result r w) = completed w" "firstErr (count_result r w) = firstErr w"
  by (simp_all add: count_result_def Let_def)

lemma count_result_books:
  "failed (count_result (res j) w) = failed w + fails res j"
  "wrap64 (wbytes (count_result (res j) w) + x) = wrap64 (wbytes w + bytes_of res j + x)"
  by (simp_all add: count_result_def Let_def fails_def bytes_of_def max_def)

lemma busy_counted:
  assumes "writer_ok res w" "i < length (workers w)" "busy_worker (workers w ! i) = 1"
  shows "0 < jobsWG w"
  using assms sum_list_move [OF assms(2), of busy_worker Idle] by (simp add: writer_ok_def)

lemma worker_step_ok:
  assumes ok: "writer_ok res w" and i: "i < length (workers w)" and step: "worker_step res i w = Some w'"
  shows "writer_ok res w'"
proof (cases "workers w ! i")
  case Idle
  show ?thesis
  proof (cases "jobs w")
    case Nil
    then show ?thesis
      using step Idle by (intro writer_ok_worker [OF ok i, of _ Exited]) (auto simp: worker_step_def split: if_splits)
  next
    case (Cons j js)
    then have "w' = set_worker i (Doing j) (w\<lparr>jobs := js, starts := starts w @ [j]\<rparr>)"
      using step Idle by (simp add: worker_step_def)
    then show ?thesis
      using Idle Cons by (intro writer_ok_worker [OF ok i, of _ "Doing j"]) (simp_all add: algebra_simps)
  qed
next
  case (Ran j)
  then show ?thesis
    using step
    by (intro writer_ok_worker [OF ok i, of _ "Erring j"]) (auto simp: worker_step_def count_result_books)
next
  case (Erring j)
  then show ?thesis
    using step
    by (intro writer_ok_worker [OF ok i, of _ "Logged j"])
      (auto simp: worker_step_def errors_def split: option.splits if_splits)
next
  case (Counted j)
  then show ?thesis
    using step busy_counted [OF ok i]
    by (intro writer_ok_worker [OF ok i, of _ Idle]) (auto simp: worker_step_def)
next
  case (Doing j)
  then show ?thesis
    using step by (intro writer_ok_worker [OF ok i, of _ "Ran j"]) (auto simp: worker_step_def)
next
  case (Logged j)
  then show ?thesis
    using step by (intro writer_ok_worker [OF ok i, of _ "Counted j"]) (auto simp: worker_step_def)
next
  case Exited
  then show ?thesis using step by (simp add: worker_step_def)
qed

lemma writer_step_ok:
  assumes "writer_ok res w" "writer_step res w w'"
  shows "writer_ok res w'"
  using assms(2)
proof (cases rule: writer_step.cases)
  case internal
  then show ?thesis
    using assms(1)
    by (cases rule: writer_internal.cases) (auto simp: worker_step_ok, simp add: writer_ok_def Submit_end_def)
next
  case submit
  then show ?thesis
    using assms(1) by (auto simp: writer_ok_def Submit_def simp flip: append_assoc)
next
  case closing
  then show ?thesis using assms(1) by (simp add: writer_ok_def Close_begin_def)
qed

lemma writer_start_ok: "writer_start w \<Longrightarrow> writer_ok res w"
proof -
  have none: "sum_list (replicate n 0) = 0" for n by (induction n) auto
  show "writer_start w \<Longrightarrow> writer_ok res w"
    by (auto simp: writer_start_def NewAsyncWriter_def writer_ok_def Let_def none split: if_splits)
qed

section \<open>Progress\<close>

fun worker_rank :: "worker \<Rightarrow> nat" where
  "worker_rank (Doing j) = 6"
| "worker_rank (Ran j) = 5"
| "worker_rank (Erring j) = 4"
| "worker_rank (Logged j) = 3"
| "worker_rank (Counted j) = 2"
| "worker_rank Idle = 1"
| "worker_rank Exited = 0"

definition writer_rank :: "async_writer \<Rightarrow> nat" where
  "writer_rank w = 6 * length (jobs w) + of_bool (submitting w) + sum_list (map worker_rank (workers w))"

definition quiet :: "async_writer \<Rightarrow> bool" where
  "quiet w \<longleftrightarrow> \<not> submitting w \<and> jobs w = [] \<and> (\<forall>p\<in>set (workers w). p = Exited \<or> p = Idle \<and> \<not> wclosed w)"

lemma writer_internal_rank:
  assumes "writer_internal res w w'"
  shows "writer_rank w' < writer_rank w"
  using assms
proof (cases rule: writer_internal.cases)
  case (work i)
  have up: "worker_rank p + sum_list (map worker_rank (workers w)) =
      sum_list (map worker_rank ((workers w)[i := p])) + worker_rank (workers w ! i)" for p
    using sum_list_move [OF work(1), of worker_rank p] by simp
  show ?thesis
  proof (cases "workers w ! i")
    case Idle
    then show ?thesis
      using work(2) up [of Exited] up [of "Doing (hd (jobs w))"]
      by (auto simp: worker_step_def writer_rank_def split: list.splits if_splits)
  next
    case (Doing j)
    then show ?thesis using work(2) up [of "Ran j"] by (auto simp: worker_step_def writer_rank_def)
  next
    case (Ran j)
    then show ?thesis using work(2) up [of "Erring j"] by (auto simp: worker_step_def writer_rank_def)
  next
    case (Erring j)
    then show ?thesis
      using work(2) up [of "Logged j"] by (auto simp: worker_step_def writer_rank_def split: option.splits if_splits)
  next
    case (Logged j)
    then show ?thesis using work(2) up [of "Counted j"] by (auto simp: worker_step_def writer_rank_def)
  next
    case (Counted j)
    then show ?thesis using work(2) up [of Idle] by (auto simp: worker_step_def writer_rank_def)
  next
    case Exited
    then show ?thesis using work(2) by (simp add: worker_step_def)
  qed
next
  case submit_end
  then show ?thesis by (simp add: writer_rank_def Submit_end_def)
qed

lemma writer_progress:
  assumes "writer_ok res w" "\<not> quiet w"
  shows "\<exists>w'. writer_internal res w w'"
proof (cases "submitting w")
  case True
  then show ?thesis by (blast intro: submit_end)
next
  case False
  have "\<exists>i<length (workers w). worker_step res i w \<noteq> None"
  proof (cases "jobs w")
    case Nil
    with False assms(2) obtain p where "p \<in> set (workers w)" "p \<noteq> Exited" "p \<noteq> Idle \<or> wclosed w"
      by (auto simp: quiet_def)
    then obtain i where i: "i < length (workers w)" "workers w ! i \<noteq> Exited" "workers w ! i \<noteq> Idle \<or> wclosed w"
      by (auto simp: in_set_conv_nth)
    then have "worker_step res i w \<noteq> None"
      using False Nil by (cases "workers w ! i") (auto simp: worker_step_def split: option.split)
    with i(1) show ?thesis by blast
  next
    case (Cons j js)
    then have some: "0 < length (workers w)" "Exited \<notin> set (workers w)" using assms(1) by (auto simp: writer_ok_def)
    then have "workers w ! 0 \<noteq> Exited" using nth_mem by metis
    moreover from this have "worker_step res 0 w \<noteq> None"
      using False Cons by (cases "workers w ! 0") (auto simp: worker_step_def split: option.split)
    ultimately show ?thesis using some(1) by blast
  qed
  then show ?thesis by (auto intro: work)
qed

interpretation async_writer: draining_machine writer_start "writer_step res" "writer_ok res" "writer_internal res" quiet writer_rank
  for res
  by unfold_locales
    (use writer_start_ok writer_step_ok writer_step.internal writer_internal_rank writer_progress in blast)+

section \<open>Properties\<close>

lemma sum_list_zero: "\<forall>x\<in>set xs. f x = 0 \<Longrightarrow> sum_list (map f xs) = (0 :: 'a::comm_monoid_add)"
  by (induction xs) auto

lemma not_busy: "busy_worker p = 0 \<Longrightarrow> due_done p = 0 \<and> due_fails res p = 0 \<and> due_bytes res p = 0 \<and> due_errors res p = {#}"
  by (cases p) auto


text \<open>(C38) Closing drains. Once \<^verbatim>\<open>Close\<close> has closed the queue, nothing more is accepted, and if every job
  returns, the workers run the jobs that were accepted and leave: no run of theirs is longer than the
  rank of the state, it comes to rest, and there \<^verbatim>\<open>Close\<close> returns what \<^verbatim>\<open>Flush\<close> does, with every
  accepted job run.\<close>

theorem close_drains:
  assumes "reach writer_start (writer_step res) w" and "wclosed w"
  shows "Submit w = (w, False) \<and> ((writer_internal res ^^ n) w w' \<longrightarrow> n \<le> writer_rank w) \<and>
    (\<exists>w'. (writer_internal res)\<^sup>*\<^sup>* w w' \<and> Close_end (Some w') = Some (firstErr w') \<and>
       accepted w' = accepted w \<and> completed w' = accepted w)"
proof (intro conjI impI)
  show "Submit w = (w, False)" using assms(2) by (simp add: Submit_def)
  show "n \<le> writer_rank w" if "(writer_internal res ^^ n) w w'" using async_writer.drains(2) [OF assms(1) that] .
  obtain w' where w': "(writer_internal res)\<^sup>*\<^sup>* w w'" "quiet w'" using async_writer.drains(1) [OF assms(1)] by blast
  have keep: "wclosed b = wclosed a \<and> accepted b = accepted a" if "writer_internal res a b" for a b
    using that
  proof (cases rule: writer_internal.cases)
    case (work i)
    then show ?thesis
      by (cases "workers a ! i") (auto simp: worker_step_def split: list.splits option.splits if_splits)
  qed (simp add: Submit_end_def)
  have same: "wclosed w' \<and> accepted w' = accepted w"
    using w'(1) assms(2) by (induction rule: rtranclp_induct) (auto dest: keep)
  then have gone: "\<forall>p\<in>set (workers w'). p = Exited" "jobs w' = []" "\<not> submitting w'" using w'(2) by (auto simp: quiet_def)
  have ok: "writer_ok res w'" using async_writer.inv_internal [OF w'(1)] async_writer.inv_reach [OF assms(1)] by blast
  have "sum_list (map busy_worker (workers w')) = 0" "sum_list (map due_done (workers w')) = 0"
    using gone(1) by (auto intro!: sum_list_zero)
  then have "jobsWG w' = 0" "completed w' = accepted w'" using ok gone
    by (simp_all add: writer_ok_def del: sum_list_eq_0_iff)
  then show "\<exists>w'. (writer_internal res)\<^sup>*\<^sup>* w w' \<and> Close_end (Some w') = Some (firstErr w') \<and>
       accepted w' = accepted w \<and> completed w' = accepted w"
    using w'(1) same gone by (auto simp: Close_end_def Flush_def)
qed

text \<open>One job of five bytes, accepted and then closed upon.\<close>

definition aw1 :: async_writer where
  "aw1 = Submit_end (fst (Submit (NewAsyncWriter 0 0)))"

lemma aw1_reach: "reach writer_start (writer_step res) aw1"
proof -
  have "reach writer_start (writer_step res) (NewAsyncWriter 0 0)" by (rule reach_start) (auto simp: writer_start_def)
  then have "reach writer_start (writer_step res) (fst (Submit (NewAsyncWriter 0 0)))"
    by (rule reach_step) (rule submit, simp add: NewAsyncWriter_def Let_def)
  then show ?thesis unfolding aw1_def
    by (rule reach_step) (intro writer_step.internal submit_end, simp add: Submit_def NewAsyncWriter_def Let_def)
qed

definition aw_run :: "nat \<Rightarrow> async_writer \<Rightarrow> async_writer" where
  "aw_run n = ((\<lambda>w. the (worker_step (\<lambda>_. (5, Some ''disk full'')) 0 w)) ^^ n)"


lemma close_drains_witness:
  "\<exists>w'. (writer_internal (\<lambda>_. (5, None)))\<^sup>*\<^sup>* (Close_begin aw1) w' \<and> completed w' = 1"
proof -
  have "reach writer_start (writer_step (\<lambda>_. (5, None))) (Close_begin aw1)"
    by (rule reach_step [OF aw1_reach], rule closing) (simp add: aw1_def Submit_end_def)
  moreover have "wclosed (Close_begin aw1)" "accepted (Close_begin aw1) = 1"
    by (simp_all add: Close_begin_def aw1_def Submit_end_def Submit_def NewAsyncWriter_def Let_def)
  ultimately show ?thesis using close_drains by metis
qed

end
