(* ===== verification/Fsutil.thy ===== *)
theory Fsutil
  imports Go_Paths
begin

text \<open>
  Atomic file writes (\<^verbatim>\<open>internal/fsutil/atomic.go\<close>) over a disk that maps clean paths to what they
  hold. Every system call may fail, as the answers of the environment say, and every state of the disk
  on the way is kept, as a crash may stop the program in any of them.
\<close>

section \<open>Disks\<close>

datatype disk_entry = Directory | RegularFile string nat

type_synonym disk = "string \<Rightarrow> disk_entry option"

text \<open>\<open>create\<close> answers \<^verbatim>\<open>os.CreateTemp\<close> for a disk, a directory and a pattern; the errors of the other calls; and whether
  the removal of the temporary file, whose error is ignored, works.\<close>

record write_answers =
  create :: "disk \<Rightarrow> string \<Rightarrow> string \<Rightarrow> string result"
  chmodErr :: "string option"
  syncErr :: "string option"
  closeErr :: "string option"
  renameErr :: "string option"
  removes :: bool

text \<open>What a temporary name is: a new path in the directory, with the pattern's prefix and a last part without
  a separator.\<close>

definition temp_in :: "string \<Rightarrow> string \<Rightarrow> string" where
  "temp_in dir name = (if dir \<noteq> '''' \<and> last dir = CHR ''/'' then dir @ name else dir @ ''/'' @ name)"

definition temp_contract :: "write_answers \<Rightarrow> bool" where
  "temp_contract a \<longleftrightarrow>
     (\<forall>d dir pre tmp. create a d dir (pre @ ''*'') = Inr tmp \<longrightarrow>
        d tmp = None \<and> (\<exists>r. CHR ''/'' \<notin> set (pre @ r) \<and> tmp = temp_in dir (pre @ r)))"

lemma temp_in_slash: "\<exists>p. temp_in dir name = p @ CHR ''/'' # name"
proof (cases "dir \<noteq> '''' \<and> last dir = CHR ''/''")
  case True
  then have "dir = butlast dir @ ''/''" by (metis append_butlast_last_id)
  then have "temp_in dir name = butlast dir @ CHR ''/'' # name"
    using True unfolding temp_in_def by (metis append.assoc append_Cons append_Nil)
  then show ?thesis by blast
qed (auto simp: temp_in_def)

lemma path_Base_last:
  assumes "CHR ''/'' \<notin> set x" "x \<noteq> ''''"
  shows "path_Base (p @ CHR ''/'' # x) = x"
proof -
  define l where "l = rev x @ CHR ''/'' # rev p"
  have rev: "rev (p @ CHR ''/'' # x) = l" by (simp add: l_def)
  obtain z zs where z: "rev x = z # zs" using assms(2) by (cases "rev x") auto
  then have "z \<in> set x" by (metis list.set_intros(1) set_rev)
  then have drop: "dropWhile (\<lambda>c. c = CHR ''/'') l = l" using assms(1) z by (auto simp: l_def)
  have take: "takeWhile (\<lambda>c. c \<noteq> CHR ''/'') l = rev x"
    unfolding l_def using assms(1) by (subst takeWhile_append2) auto
  have "l \<noteq> ''''" by (simp add: l_def)
  then show ?thesis by (simp only: path_Base_def rev drop take Let_def rev_rev_ident rev_is_Nil_conv) simp
qed

definition final :: "disk \<Rightarrow> disk list \<Rightarrow> disk" where
  "final d trace = last (d # trace)"

definition remove_tmp :: "write_answers \<Rightarrow> string \<Rightarrow> disk \<Rightarrow> disk list" where
  "remove_tmp a tmp d = (if removes a then [d(tmp := None)] else [])"

section \<open>The write\<close>

text \<open>The payload is the contents of the temporary file after each of its writes, and its error.\<close>

type_synonym payload = "string list \<times> string option"

definition tmp_states :: "string \<Rightarrow> nat \<Rightarrow> string list \<Rightarrow> disk \<Rightarrow> disk list" where
  "tmp_states tmp perm written d =
    d(tmp \<mapsto> RegularFile '''' 384) # map (\<lambda>c. d(tmp \<mapsto> RegularFile c perm)) ('''' # written)"

text \<open>The first call after the \<^verbatim>\<open>Chmod\<close> that fails.\<close>

definition write_error :: "payload \<Rightarrow> write_answers \<Rightarrow> string option" where
  "write_error payload a =
    (case snd payload of
       Some e \<Rightarrow> Some (''write tempfile: '' @ e)
     | None \<Rightarrow>
         (case syncErr a of
            Some e \<Rightarrow> Some (''sync tempfile: '' @ e)
          | None \<Rightarrow>
              (case closeErr a of
                 Some e \<Rightarrow> Some (''close tempfile: '' @ e)
               | None \<Rightarrow> map_option (\<lambda>e. ''rename tempfile: '' @ e) (renameErr a))))"

definition writeAtomic :: "string \<Rightarrow> nat \<Rightarrow> payload \<Rightarrow> write_answers \<Rightarrow> disk \<Rightarrow> disk list \<times> string option" where
  "writeAtomic path perm payload a d =
    (case create a d (path_Dir path) (''.'' @ path_Base path @ ''.tmp-*'') of
       Inl e \<Rightarrow> ([], Some (''write tempfile: '' @ e))
     | Inr tmp \<Rightarrow>
         (case chmodErr a of
            Some e \<Rightarrow>
              (let d0 = d(tmp \<mapsto> RegularFile '''' 384) in (d0 # remove_tmp a tmp d0, Some (''write tempfile: '' @ e)))
          | None \<Rightarrow>
              (let states = tmp_states tmp perm (fst payload) d;
                   d1 = last states
               in case write_error payload a of
                    Some e \<Rightarrow> (states @ remove_tmp a tmp d1, Some e)
                  | None \<Rightarrow> (states @ [d1(path := d1 tmp, tmp := None)], None))))"

text \<open>One write of the file: everything, or so many bytes and an error.\<close>

definition file_Write :: "(nat \<times> string) option \<Rightarrow> string \<Rightarrow> payload" where
  "file_Write failure data =
    (case failure of None \<Rightarrow> ([data], None) | Some (n, e) \<Rightarrow> ([take n data], Some e))"

definition WriteFileAtomic :: "string \<Rightarrow> string \<Rightarrow> nat \<Rightarrow> (nat \<times> string) option \<Rightarrow> write_answers \<Rightarrow> disk \<Rightarrow>
    disk list \<times> string option" where
  "WriteFileAtomic path data perm failure a d = writeAtomic path perm (file_Write failure data) a d"

section \<open>The buffered stream\<close>

text \<open>\<^verbatim>\<open>bufio.Writer\<close> over the file: 4096 bytes, an error that sticks, the contents of the file after
  each of its writes. \<open>bfail k\<close> is the failure of the \<open>k\<close>-th write.\<close>

record bufio =
  buf :: string
  contents :: "string list"
  berr :: "string option"

definition on_file :: "bufio \<Rightarrow> string" where
  "on_file b = last ('''' # contents b)"

definition raw_write :: "(nat \<Rightarrow> (nat \<times> string) option) \<Rightarrow> string \<Rightarrow> bufio \<Rightarrow> nat \<times> bufio" where
  "raw_write bfail p b =
    (case bfail (length (contents b)) of
       None \<Rightarrow> (length p, b\<lparr>contents := contents b @ [on_file b @ p]\<rparr>)
     | Some (n, e) \<Rightarrow> (n, b\<lparr>contents := contents b @ [on_file b @ take n p], berr := Some e\<rparr>))"

definition bufio_Flush :: "(nat \<Rightarrow> (nat \<times> string) option) \<Rightarrow> bufio \<Rightarrow> bufio" where
  "bufio_Flush bfail b =
    (if berr b \<noteq> None then b
     else if buf b = '''' then b
     else (case raw_write bfail (buf b) b of (n, b') \<Rightarrow> b'\<lparr>buf := (if berr b' = None then '''' else drop n (buf b'))\<rparr>))"

lemma Flush_empties: "berr (bufio_Flush bfail b) = None \<Longrightarrow> buf (bufio_Flush bfail b) = ''''"
  by (auto simp: bufio_Flush_def split: prod.splits if_splits)

function bufio_Write :: "(nat \<Rightarrow> (nat \<times> string) option) \<Rightarrow> string \<Rightarrow> bufio \<Rightarrow> bufio" where
  "bufio_Write bfail p b =
    (if berr b \<noteq> None then b
     else if length p \<le> 4096 - length (buf b) then b\<lparr>buf := buf b @ p\<rparr>
     else if buf b = '''' then snd (raw_write bfail p b)
     else
       (let n = 4096 - length (buf b);
            b' = bufio_Flush bfail (b\<lparr>buf := buf b @ take n p\<rparr>)
        in if berr b' \<noteq> None then b' else bufio_Write bfail (drop n p) b'))"
  by pat_completeness auto

termination
proof (relation "measure (\<lambda>(bfail, p, b). 2 * length p + length (buf b))")
  fix bfail p and b :: bufio and n b'
  assume "buf b \<noteq> ''''" "b' = bufio_Flush bfail (b\<lparr>buf := buf b @ take n p\<rparr>)" "\<not> berr b' \<noteq> None"
  moreover from this have "buf b' = ''''" using Flush_empties by blast
  ultimately show "((bfail, drop n p, b'), (bfail, p, b)) \<in> measure (\<lambda>(bfail, p, b). 2 * length p + length (buf b))"
    by (cases "buf b") auto
qed simp

declare bufio_Write.simps [simp del]

text \<open>The callback writes some chunks and returns an error of its own or none.\<close>

definition stream_payload :: "(nat \<Rightarrow> (nat \<times> string) option) \<Rightarrow> string list \<Rightarrow> string option \<Rightarrow> payload" where
  "stream_payload bfail chunks err =
    (let b = fold (bufio_Write bfail) chunks \<lparr>buf = '''', contents = [], berr = None\<rparr> in
     case err of
       Some e \<Rightarrow> (contents b, Some e)
     | None \<Rightarrow> (let b = bufio_Flush bfail b in (contents b, berr b)))"

definition WriteFileAtomicStream :: "string \<Rightarrow> nat \<Rightarrow> (nat \<Rightarrow> (nat \<times> string) option) \<Rightarrow> string list \<Rightarrow> string option \<Rightarrow>
    write_answers \<Rightarrow> disk \<Rightarrow> disk list \<times> string option" where
  "WriteFileAtomicStream path perm bfail chunks err a d = writeAtomic path perm (stream_payload bfail chunks err) a d"

section \<open>Properties\<close>

lemma raw_write_ok: "snd (raw_write bfail p b) = b' \<Longrightarrow> berr b' = None \<Longrightarrow>
    berr b = None \<and> on_file b' = on_file b @ p \<and> buf b' = buf b"
  by (auto simp: raw_write_def on_file_def split: option.splits)

lemma Flush_ok: "berr (bufio_Flush bfail b) = None \<Longrightarrow>
    berr b = None \<and> on_file (bufio_Flush bfail b) = on_file b @ buf b"
  using raw_write_ok [of bfail "buf b" b "snd (raw_write bfail (buf b) b)"]
  by (auto simp: bufio_Flush_def on_file_def split: prod.splits if_splits)

lemma Write_ok: "berr (bufio_Write bfail p b) = None \<Longrightarrow>
    berr b = None \<and> on_file (bufio_Write bfail p b) @ buf (bufio_Write bfail p b) = on_file b @ buf b @ p"
proof (induction bfail p b rule: bufio_Write.induct)
  case (1 bfail p b)
  let ?n = "4096 - length (buf b)"
  let ?b = "bufio_Flush bfail (b\<lparr>buf := buf b @ take ?n p\<rparr>)"
  have [simp]: "on_file (b\<lparr>buf := x\<rparr>) = on_file b" for x by (simp add: on_file_def)
  consider "berr b \<noteq> None" | "berr b = None" "length p \<le> ?n" | "berr b = None" "\<not> length p \<le> ?n" "buf b = ''''"
    | "berr b = None" "\<not> length p \<le> ?n" "buf b \<noteq> ''''" by blast
  then show ?case
  proof cases
    case 4
    define b' where "b' = bufio_Flush bfail (b\<lparr>buf := buf b @ take ?n p\<rparr>)"
    have W: "bufio_Write bfail p b = (if berr b' \<noteq> None then b' else bufio_Write bfail (drop ?n p) b')"
      unfolding bufio_Write.simps [of bfail p b] b'_def using 4 by (simp only: Let_def if_False simp_thms)
    then have none: "berr b' = None" "berr (bufio_Write bfail (drop ?n p) b') = None" using "1.prems" by (auto split: if_splits)
    have "on_file (bufio_Write bfail (drop ?n p) b') @ buf (bufio_Write bfail (drop ?n p) b') = on_file b' @ buf b' @ drop ?n p"
      using "1.IH" [OF _ _ _ refl b'_def] 4 none by blast
    moreover have "on_file b' = on_file b @ buf b @ take ?n p" "buf b' = ''''"
      using Flush_ok Flush_empties none(1) unfolding b'_def by fastforce+
    ultimately show ?thesis using 4(1) none(1) W by simp
  next
    case 3
    then show ?thesis
      using "1.prems" raw_write_ok [OF refl, of bfail p b] by (simp add: bufio_Write.simps [of bfail p b])
  qed (use "1.prems" in \<open>simp_all add: bufio_Write.simps [of bfail p b]\<close>)
qed

lemma stream_complete: "snd (stream_payload bfail chunks err) = None \<Longrightarrow>
    err = None \<and> last ('''' # fst (stream_payload bfail chunks err)) = concat chunks"
proof -
  define b0 where "b0 = \<lparr>buf = '''', contents = [], berr = None\<rparr>"
  assume none: "snd (stream_payload bfail chunks err) = None"
  have fold: "berr (fold (bufio_Write bfail) cs b) = None \<Longrightarrow>
      berr b = None \<and> on_file (fold (bufio_Write bfail) cs b) @ buf (fold (bufio_Write bfail) cs b) = on_file b @ buf b @ concat cs"
    for cs b
  proof (induction cs arbitrary: b)
    case (Cons c cs)
    then show ?case using Cons.IH [of "bufio_Write bfail c b"] Write_ok [of bfail c b] by simp
  qed simp
  let ?b = "fold (bufio_Write bfail) chunks b0"
  have err: "err = None" "berr (bufio_Flush bfail ?b) = None"
    using none by (auto simp: stream_payload_def b0_def Let_def split: option.splits)
  then have "on_file (bufio_Flush bfail ?b) = concat chunks"
    using Flush_ok [of bfail ?b] fold [of chunks b0] by (simp add: b0_def on_file_def)
  then show ?thesis using err by (simp add: stream_payload_def b0_def Let_def on_file_def)
qed

lemma temp_path:
  assumes "temp_contract a" "create a d dir (''.'' @ path_Base path @ ''.tmp-*'') = Inr tmp"
  obtains name where "d tmp = None" "CHR ''/'' \<notin> set name" "tmp = temp_in dir name" "length name > length (path_Base path)"
proof -
  define pre where "pre = ''.'' @ path_Base path @ ''.tmp-''"
  have "create a d dir (pre @ ''*'') = Inr tmp" using assms(2) by (simp add: pre_def)
  then obtain r where "d tmp = None" "CHR ''/'' \<notin> set (pre @ r)" "tmp = temp_in dir (pre @ r)"
    using assms(1) unfolding temp_contract_def by blast
  then show ?thesis by (intro that [of "pre @ r"]) (auto simp: pre_def)
qed

lemma tmp_differs:
  assumes "temp_contract a" "create a d dir (''.'' @ path_Base path @ ''.tmp-*'') = Inr tmp"
  shows "tmp \<noteq> path" "d tmp = None"
proof -
  obtain name where n: "d tmp = None" "CHR ''/'' \<notin> set name" "tmp = temp_in dir name" "length name > length (path_Base path)"
    using temp_path [OF assms] .
  obtain p where "tmp = p @ CHR ''/'' # name" using temp_in_slash n(3) by blast
  moreover have "name \<noteq> ''''" using n(4) by auto
  ultimately have "path_Base tmp = name" using path_Base_last n(2) by simp
  then show "tmp \<noteq> path" using n(4) by blast
  show "d tmp = None" by fact
qed

text \<open>Up to the rename only the temporary name changes; the rename is the last step.\<close>

lemma writeAtomic_states:
  assumes "temp_contract a" and "writeAtomic path perm payload a d = (trace, err)"
  shows "if err = None
    then \<exists>tmp ts. create a d (path_Dir path) (''.'' @ path_Base path @ ''.tmp-*'') = Inr tmp \<and>
      trace = ts @ [d(path \<mapsto> RegularFile (last ('''' # fst payload)) perm)] \<and> snd payload = None \<and>
      (\<forall>s\<in>set ts. \<exists>v. s = d(tmp := v))
    else (\<forall>s\<in>set trace. \<exists>tmp v. create a d (path_Dir path) (''.'' @ path_Base path @ ''.tmp-*'') = Inr tmp \<and> s = d(tmp := v)) \<and>
      (removes a \<longrightarrow> final d trace = d)"
proof (cases "create a d (path_Dir path) (''.'' @ path_Base path @ ''.tmp-*'')")
  case (Inl e)
  then show ?thesis using assms(2) by (auto simp: writeAtomic_def final_def)
next
  case (Inr tmp)
  let ?states = "tmp_states tmp perm (fst payload) d"
  define d1 where "d1 = d(tmp \<mapsto> RegularFile (last ('''' # fst payload)) perm)"
  have last: "last ?states = d1" by (simp add: tmp_states_def d1_def last_map)
  have tmp: "tmp \<noteq> path" "d tmp = None" using tmp_differs [OF assms(1) Inr] by blast+
  have one: "d1 = d(tmp := Some (RegularFile (last ('''' # fst payload)) perm))" by (simp add: d1_def)
  have states: "\<exists>v. s = d(tmp := v)" if "s \<in> set ?states" for s using that by (auto simp: tmp_states_def)
  have clean: "d1(tmp := None) = d" "(d(tmp \<mapsto> x))(tmp := None) = d" "d = d(tmp := None)" for x
    using tmp(2) by (auto simp: d1_def fun_eq_iff)
  have renamed: "d1(path := d1 tmp, tmp := None) = d(path \<mapsto> RegularFile (last ('''' # fst payload)) perm)"
    using tmp by (auto simp: d1_def fun_eq_iff)
  show ?thesis
  proof (cases "chmodErr a")
    case (Some e)
    then have "trace = d(tmp \<mapsto> RegularFile '''' 384) # (if removes a then [d] else [])" "err \<noteq> None"
      using assms(2) Inr clean(1,2) by (auto simp: writeAtomic_def remove_tmp_def Let_def)
    then show ?thesis using Inr clean(3) by (auto simp: final_def)
  next
    case None
    show ?thesis
    proof (cases "write_error payload a")
      case w: None
      then have "trace = ?states @ [d(path \<mapsto> RegularFile (last ('''' # fst payload)) perm)]" "err = None" "snd payload = None"
        using assms(2) Inr None last renamed by (auto simp: writeAtomic_def write_error_def split: option.splits)
      then show ?thesis using Inr states by auto
    next
      case (Some e)
      then have "trace = ?states @ (if removes a then [d] else [])" "err = Some e"
        using assms(2) Inr None last clean(1) by (auto simp: writeAtomic_def remove_tmp_def Let_def)
      then show ?thesis using Inr states clean(3) by (auto simp: final_def)
    qed
  qed
qed

lemma write_atomic:
  assumes "temp_contract a"
    and "w = WriteFileAtomic path data perm failure a d \<or>
      w = WriteFileAtomicStream path perm bfail chunks cberr a d \<and> data = concat chunks"
  shows "(\<forall>s\<in>set (fst w). (s path = d path \<or> s path = Some (RegularFile data perm)) \<and>
      (\<forall>p. p \<noteq> path \<and> s p \<noteq> d p \<longrightarrow> create a d (path_Dir path) (''.'' @ path_Base path @ ''.tmp-*'') = Inr p)) \<and>
    (if snd w = None then final d (fst w) = d(path \<mapsto> RegularFile data perm)
     else final d (fst w) path = d path \<and> (removes a \<longrightarrow> final d (fst w) = d))"
proof -
  obtain payload where w: "w = writeAtomic path perm payload a d"
    and data: "snd payload = None \<Longrightarrow> last ('''' # fst payload) = data"
    using assms(2)
  proof
    assume "w = WriteFileAtomic path data perm failure a d"
    then show thesis
      by (intro that [of "file_Write failure data"]) (auto simp: WriteFileAtomic_def file_Write_def split: option.splits)
  next
    assume "w = WriteFileAtomicStream path perm bfail chunks cberr a d \<and> data = concat chunks"
    then show thesis
      using stream_complete [of bfail chunks cberr]
      by (intro that [of "stream_payload bfail chunks cberr"]) (blast | simp only: WriteFileAtomicStream_def)+
  qed
  obtain trace err where te: "writeAtomic path perm payload a d = (trace, err)" by fastforce
  note states = writeAtomic_states [OF assms(1) te]
  note tmp = tmp_differs [OF assms(1), of d "path_Dir path" path]
  have other: "s path = d path \<and> (\<forall>p. p \<noteq> path \<and> s p \<noteq> d p \<longrightarrow> p = t)"
    if "create a d (path_Dir path) (''.'' @ path_Base path @ ''.tmp-*'') = Inr t" "s = d(t := v)" for s t v
    using tmp [OF that(1)] that(2) by auto
  have only_tmp: "\<forall>s\<in>S. s path = d path \<and>
      (\<forall>p. p \<noteq> path \<and> s p \<noteq> d p \<longrightarrow> create a d (path_Dir path) (''.'' @ path_Base path @ ''.tmp-*'') = Inr p)"
    if "\<forall>s\<in>S. \<exists>t v. create a d (path_Dir path) (''.'' @ path_Base path @ ''.tmp-*'') = Inr t \<and> s = d(t := v)" for S
    using that other by blast
  show ?thesis
  proof (cases err)
    case None
    then obtain t ts where t: "create a d (path_Dir path) (''.'' @ path_Base path @ ''.tmp-*'') = Inr t"
      "trace = ts @ [d(path \<mapsto> RegularFile (last ('''' # fst payload)) perm)]" "snd payload = None"
      "\<forall>s\<in>set ts. \<exists>v. s = d(t := v)" using states by auto
    then have new: "trace = ts @ [d(path \<mapsto> RegularFile data perm)]" using data by simp
    have "\<forall>s\<in>set ts. \<exists>t v. create a d (path_Dir path) (''.'' @ path_Base path @ ''.tmp-*'') = Inr t \<and> s = d(t := v)"
      using t(1,4) by blast
    from only_tmp [OF this] show ?thesis unfolding w te new fst_conv snd_conv None by (simp add: final_def)
  next
    case (Some e)
    then have all: "\<forall>s\<in>set trace. \<exists>t v. create a d (path_Dir path) (''.'' @ path_Base path @ ''.tmp-*'') = Inr t \<and> s = d(t := v)"
      "removes a \<longrightarrow> final d trace = d" using states by auto
    have "final d trace = d \<or> final d trace \<in> set trace" unfolding final_def by (cases trace) auto
    then have "final d trace path = d path" using only_tmp [OF all(1)] by auto
    then show ?thesis using all(2) only_tmp [OF all(1)] Some unfolding w te fst_conv snd_conv by simp
  qed
qed

text \<open>What the other components use of it.\<close>

lemma write_is_atomic_states:
  "temp_contract a \<Longrightarrow> s \<in> set (fst (WriteFileAtomic path data perm failure a d)) \<Longrightarrow>
    (s path = d path \<or> s path = Some (RegularFile data perm)) \<and>
    (\<forall>p. p \<noteq> path \<and> s p \<noteq> d p \<longrightarrow> create a d (path_Dir path) (''.'' @ path_Base path @ ''.tmp-*'') = Inr p)"
  using write_atomic [OF _ disjI1, OF _ refl] by blast

lemma write_is_atomic_final:
  "temp_contract a \<Longrightarrow> WriteFileAtomic path data perm failure a d = (tr, None) \<Longrightarrow>
    final d tr = d(path \<mapsto> RegularFile data perm)"
  using write_atomic [OF _ disjI1, OF _ refl, of a path data perm failure d] by simp

text \<open>(C39) A write is all or nothing. Whatever fails and wherever the program stops, the path holds what it
  held before or the whole new content, and no other path but the temporary one is touched. A call that
  returns no error has replaced exactly the path; one that returns an error has not, and has left the disk
  as it was if the temporary file could be removed. For the streamed form, the content is all that the
  callback wrote, through a buffer of 4096 bytes.\<close>

theorem write_is_atomic:
  assumes "temp_contract a"
    and "w = WriteFileAtomic path data perm failure a d \<or>
      w = WriteFileAtomicStream path perm bfail chunks cberr a d \<and> data = concat chunks"
  shows "(\<forall>s\<in>set (fst w). (s path = d path \<or> s path = Some (RegularFile data perm)) \<and>
      (\<forall>p. p \<noteq> path \<and> s p \<noteq> d p \<longrightarrow> create a d (path_Dir path) (''.'' @ path_Base path @ ''.tmp-*'') = Inr p)) \<and>
    (if snd w = None then final d (fst w) = d(path \<mapsto> RegularFile data perm)
     else final d (fst w) path = d path \<and> (removes a \<longrightarrow> final d (fst w) = d))"
  by (rule write_atomic [OF assms])

text \<open>A write whose rename fails, and one that works.\<close>

definition answers_ok :: write_answers where
  "answers_ok = \<lparr>create = (\<lambda>d dir pattern. let tmp = temp_in dir (butlast pattern @ ''7'') in
       if CHR ''/'' \<in> set pattern then Inl ''pattern contains path separator''
       else if d tmp \<noteq> None then Inl ''file exists'' else Inr tmp),
     chmodErr = None, syncErr = None, closeErr = None, renameErr = None, removes = True\<rparr>"

definition some_disk :: disk where
  "some_disk = [''a'' \<mapsto> RegularFile ''old'' 420]"

lemma answers_ok_contract: "temp_contract answers_ok"
  by (auto simp: temp_contract_def answers_ok_def Let_def intro!: exI [of _ "''7''"] split: if_splits)

lemma write_is_atomic_witness:
  "snd (WriteFileAtomic ''a'' ''new'' 420 None answers_ok some_disk) = None \<and>
   final some_disk (fst (WriteFileAtomic ''a'' ''new'' 420 None answers_ok some_disk)) = some_disk(''a'' \<mapsto> RegularFile ''new'' 420)"
proof -
  have "snd (WriteFileAtomic ''a'' ''new'' 420 None answers_ok some_disk) = None"
    by (simp add: WriteFileAtomic_def writeAtomic_def answers_ok_def file_Write_def write_error_def Let_def path_Base_def
      temp_in_def some_disk_def path_Dir_def upto_slash_def path_Clean_def)
  then show ?thesis using write_is_atomic [OF answers_ok_contract disjI1, OF refl] by simp
qed

end
