(* ===== verification/Versioned_Dir.thy ===== *)
theory Versioned_Dir
  imports Fsutil
begin

text \<open>
  Cache directories (\<^verbatim>\<open>internal/cacheutil\<close>): a directory of entries that is emptied when one of the declared
  schema versions changes (\<^verbatim>\<open>versioned_dir.go\<close>), and the path of an entry (\<^verbatim>\<open>sharded.go\<close>). Every
  state of the disk on the way is kept, with the partial effects of calls that fail.
\<close>

section \<open>Paths\<close>

text \<open>\<^verbatim>\<open>filepath.Join\<close>.\<close>

definition filepath_Join :: "string list \<Rightarrow> string" where
  "filepath_Join elems =
    (case filter (\<lambda>e. e \<noteq> '''') elems of [] \<Rightarrow> '''' | es \<Rightarrow> path_Clean (strings_Join es ''/''))"

definition ShardedEntryPath :: "string \<Rightarrow> string \<Rightarrow> string \<Rightarrow> string" where
  "ShardedEntryPath root hash ext =
    (if length hash < 3 then filepath_Join [root, ''_'', hash @ ext]
     else filepath_Join [root, take 2 hash, drop 2 hash @ ext])"

section \<open>Calls that leave a trace\<close>

type_synonym 'a disk_run = "disk \<Rightarrow> disk list \<times> 'a result"

definition run_return :: "'a \<Rightarrow> 'a disk_run" where
  "run_return x d = ([], Inr x)"

definition run_fail :: "string \<Rightarrow> 'a disk_run" where
  "run_fail e d = ([], Inl e)"

definition run_bind :: "'a disk_run \<Rightarrow> ('a \<Rightarrow> 'b disk_run) \<Rightarrow> 'b disk_run" where
  "run_bind m f d =
    (case m d of
       (t, Inl e) \<Rightarrow> (t, Inl e)
     | (t, Inr x) \<Rightarrow> (case f x (final d t) of (t', r) \<Rightarrow> (t @ t', r)))"

text \<open>\<open>fmt.Errorf(msg + ": %w", err)\<close>.\<close>

definition wrap_error :: "string \<Rightarrow> 'a disk_run \<Rightarrow> 'a disk_run" where
  "wrap_error msg m d = (case m d of (t, Inl e) \<Rightarrow> (t, Inl (msg @ '': '' @ e)) | (t, Inr x) \<Rightarrow> (t, Inr x))"

text \<open>A path at or below another.\<close>

definition below :: "string \<Rightarrow> string \<Rightarrow> bool" where
  "below p q \<longleftrightarrow> q = p \<or> strings_HasPrefix q (p @ ''/'')"

text \<open>\<^verbatim>\<open>os.MkdirAll\<close> makes the directories that are missing on the way to a path; when it fails, some of them.\<close>

definition os_MkdirAll :: "(string \<Rightarrow> bool) \<times> string option \<Rightarrow> string \<Rightarrow> unit disk_run" where
  "os_MkdirAll answer p d =
    (case answer of
       (some, Some e) \<Rightarrow> ([\<lambda>q. if d q = None \<and> below q p \<and> some q then Some Directory else d q], Inl e)
     | (_, None) \<Rightarrow> ([\<lambda>q. if d q = None \<and> below q p then Some Directory else d q], Inr ()))"

text \<open>\<^verbatim>\<open>os.RemoveAll\<close> removes what is at and below a path, piece by piece: a state in which some of it is
  gone, and unless it fails there, the end.\<close>

definition os_RemoveAll :: "(string \<Rightarrow> bool) \<times> string option \<Rightarrow> string \<Rightarrow> unit disk_run" where
  "os_RemoveAll answer p d =
    (case answer of
       (some, err) \<Rightarrow>
         (let part = (\<lambda>q. if below p q \<and> some q then None else d q) in
          case err of
            Some e \<Rightarrow> ([part], Inl e)
          | None \<Rightarrow> ([part, \<lambda>q. if below p q then None else d q], Inr ())))"

text \<open>\<^verbatim>\<open>os.Remove\<close> of a file and \<^verbatim>\<open>os.ReadFile\<close>, with \<^verbatim>\<open>os.IsNotExist\<close> told apart from the other
  errors, which may come at any time.\<close>

definition os_Remove :: "string option \<Rightarrow> string \<Rightarrow> disk \<Rightarrow> disk list \<times> (bool \<times> string) option" where
  "os_Remove err p d =
    (case err of
       Some e \<Rightarrow> ([], Some (False, e))
     | None \<Rightarrow> if d p = None then ([], Some (True, ''file does not exist'')) else ([d(p := None)], None))"

definition os_ReadFile :: "string option \<Rightarrow> string \<Rightarrow> disk \<Rightarrow> ((bool \<times> string) + string)" where
  "os_ReadFile err p d =
    (case err of
       Some e \<Rightarrow> Inl (False, e)
     | None \<Rightarrow>
         (case d p of
            None \<Rightarrow> Inl (True, ''file does not exist'')
          | Some Directory \<Rightarrow> Inl (False, ''is a directory'')
          | Some (RegularFile c _) \<Rightarrow> Inr c))"

section \<open>Opening\<close>

record schema_token =
  tName :: string
  tValue :: string

record versioned_dir =
  vRoot :: string
  vEntriesDir :: string
  vExtraDirs :: "string list"
  vExtraFiles :: "string list"
  vTokens :: "schema_token list"

text \<open>The answers of the system, by the number of the call where there are several.\<close>

record open_answers =
  mkdirs :: "nat \<Rightarrow> (string \<Rightarrow> bool) \<times> string option"
  reads :: "nat \<Rightarrow> string option"
  removals :: "nat \<Rightarrow> (string \<Rightarrow> bool) \<times> string option"
  unlinks :: "nat \<Rightarrow> string option"
  writes :: "nat \<Rightarrow> (nat \<times> string) option \<times> write_answers"

definition sidecar :: "versioned_dir \<Rightarrow> schema_token \<Rightarrow> string" where
  "sidecar v t = filepath_Join [vRoot v, tName t]"

definition entries_path :: "versioned_dir \<Rightarrow> string" where
  "entries_path v = filepath_Join [vRoot v, if vEntriesDir v = '''' then ''entries'' else vEntriesDir v]"

fun mismatch_loop :: "open_answers \<Rightarrow> versioned_dir \<Rightarrow> nat \<Rightarrow> schema_token list \<Rightarrow> disk \<Rightarrow> bool result" where
  "mismatch_loop a v i [] d = Inr False"
| "mismatch_loop a v i (t # ts) d =
    (case os_ReadFile (reads a i) (sidecar v t) d of
       Inl (notExist, e) \<Rightarrow>
         if notExist then mismatch_loop a v (i + 1) ts d
         else Inl (''cacheutil: read sidecar '' @ tName t @ '': '' @ e)
     | Inr c \<Rightarrow> if c \<noteq> tValue t then Inr True else mismatch_loop a v (i + 1) ts d)"

definition tokensMismatched :: "open_answers \<Rightarrow> versioned_dir \<Rightarrow> disk \<Rightarrow> bool result" where
  "tokensMismatched a v d = mismatch_loop a v 0 (vTokens v) d"

fun remove_dirs :: "open_answers \<Rightarrow> versioned_dir \<Rightarrow> nat \<Rightarrow> string list \<Rightarrow> unit disk_run" where
  "remove_dirs a v i [] = run_return ()"
| "remove_dirs a v i (extra # es) =
    (if extra = '''' then remove_dirs a v (i + 1) es
     else run_bind (wrap_error (''cacheutil: remove extra dir '' @ extra)
         (os_RemoveAll (removals a i) (filepath_Join [vRoot v, extra]))) (\<lambda>_. remove_dirs a v (i + 1) es))"

fun remove_files :: "open_answers \<Rightarrow> versioned_dir \<Rightarrow> nat \<Rightarrow> string list \<Rightarrow> unit disk_run" where
  "remove_files a v i [] = run_return ()"
| "remove_files a v i (extra # es) =
    (if extra = '''' then remove_files a v (i + 1) es
     else run_bind (\<lambda>d. case os_Remove (unlinks a i) (filepath_Join [vRoot v, extra]) d of
           (t, Some (notExist, e)) \<Rightarrow>
             (t, if notExist then Inr () else Inl (''cacheutil: remove extra file '' @ extra @ '': '' @ e))
         | (t, None) \<Rightarrow> (t, Inr ()))
       (\<lambda>_. remove_files a v (i + 1) es))"

definition nukeEntries :: "open_answers \<Rightarrow> versioned_dir \<Rightarrow> string \<Rightarrow> unit disk_run" where
  "nukeEntries a v entriesPath =
    run_bind (wrap_error ''cacheutil: remove entries'' (os_RemoveAll (removals a 0) entriesPath)) (\<lambda>_.
    run_bind (wrap_error ''cacheutil: mkdir entries after nuke'' (os_MkdirAll (mkdirs a 1) entriesPath)) (\<lambda>_.
    run_bind (remove_dirs a v 1 (vExtraDirs v)) (\<lambda>_.
    remove_files a v 0 (vExtraFiles v))))"

fun write_sidecars :: "open_answers \<Rightarrow> versioned_dir \<Rightarrow> nat \<Rightarrow> schema_token list \<Rightarrow> unit disk_run" where
  "write_sidecars a v i [] = run_return ()"
| "write_sidecars a v i (t # ts) =
    run_bind (wrap_error (''cacheutil: write sidecar '' @ tName t) (\<lambda>d.
        case WriteFileAtomic (sidecar v t) (tValue t) 420 (fst (writes a i)) (snd (writes a i)) d of
          (tr, Some e) \<Rightarrow> (tr, Inl e)
        | (tr, None) \<Rightarrow> (tr, Inr ())))
      (\<lambda>_. write_sidecars a v (i + 1) ts)"

definition VersionedDir_Open :: "open_answers \<Rightarrow> versioned_dir \<Rightarrow> string disk_run" where
  "VersionedDir_Open a v =
    run_bind (wrap_error ''cacheutil: mkdir entries'' (os_MkdirAll (mkdirs a 0) (entries_path v))) (\<lambda>_.
    run_bind (\<lambda>d. ([], tokensMismatched a v d)) (\<lambda>nuke.
    run_bind (if nuke then nukeEntries a v (entries_path v) else run_return ()) (\<lambda>_.
    run_bind (write_sidecars a v 0 (vTokens v)) (\<lambda>_.
    run_return (entries_path v)))))"

text \<open>\<^verbatim>\<open>os.RemoveAll\<close> reports no missing path.\<close>

definition VersionedDir_Clear :: "(string \<Rightarrow> bool) \<times> string option \<Rightarrow> versioned_dir \<Rightarrow> unit disk_run" where
  "VersionedDir_Clear answer v = wrap_error (''cacheutil: clear '' @ vRoot v) (os_RemoveAll answer (vRoot v))"

section \<open>What a run keeps\<close>

definition keeps :: "(disk \<Rightarrow> bool) \<Rightarrow> 'a disk_run \<Rightarrow> bool" where
  "keeps P m \<longleftrightarrow> (\<forall>d. P d \<longrightarrow> (\<forall>s\<in>set (fst (m d)). P s))"

lemma keeps_final: "keeps P m \<Longrightarrow> P d \<Longrightarrow> P (final d (fst (m d)))"
  by (cases "fst (m d)") (auto simp: keeps_def final_def)

lemma final_append: "final d (t @ t') = final (final d t) t'"
  by (cases t') (auto simp: final_def)

lemma keeps_return [simp]: "keeps P (run_return x)"
  by (simp add: keeps_def run_return_def)

lemma keeps_bind:
  assumes "keeps P m" "\<And>x. keeps P (f x)"
  shows "keeps P (run_bind m f)"
  unfolding keeps_def
proof (intro allI impI ballI)
  fix d s
  assume P: "P d" and s: "s \<in> set (fst (run_bind m f d))"
  obtain t r where m: "m d = (t, r)" by fastforce
  have t: "\<forall>s\<in>set t. P s" "P (final d t)" using assms(1) P m keeps_final [OF assms(1) P] by (auto simp: keeps_def)
  show "P s"
  proof (cases r)
    case (Inr x)
    obtain t' r' where "f x (final d t) = (t', r')" by fastforce
    then show ?thesis using s m Inr t assms(2) [of x] unfolding keeps_def run_bind_def by fastforce
  qed (use s m t in \<open>auto simp: run_bind_def\<close>)
qed

lemma wrap_error_fst [simp]: "fst (wrap_error msg m d) = fst (m d)"
  by (simp add: wrap_error_def split: prod.split sum.split)

lemma keeps_wrap [simp]: "keeps P (wrap_error msg m) = keeps P m"
  by (simp add: keeps_def)

lemma wrap_error_Inr [simp]: "wrap_error msg m d = (t, Inr x) \<longleftrightarrow> m d = (t, Inr x)"
  by (auto simp: wrap_error_def split: prod.splits sum.splits)

lemma bind_Inr:
  "run_bind m f d = (tr, Inr y) \<longleftrightarrow>
    (\<exists>t x t'. m d = (t, Inr x) \<and> f x (final d t) = (t', Inr y) \<and> tr = t @ t')"
  by (auto simp: run_bind_def split: prod.splits sum.splits)

text \<open>After a first run that keeps one thing and, when it succeeds, brings about another, which the rest
  keeps: every state has the one or the other.\<close>

lemma keeps_then:
  assumes "keeps P m" "\<And>d t x. P d \<Longrightarrow> m d = (t, Inr x) \<Longrightarrow> Q (final d t)" "\<And>x. keeps Q (f x)" "P d"
  shows "\<forall>s\<in>set (fst (run_bind m f d)). P s \<or> Q s"
proof -
  obtain t r where m: "m d = (t, r)" by fastforce
  have t: "\<forall>s\<in>set t. P s" using assms(1,4) m by (auto simp: keeps_def)
  show ?thesis
  proof (cases r)
    case (Inr x)
    then have "Q (final d t)" using assms(2,4) m by blast
    then have "\<forall>s\<in>set (fst (f x (final d t))). Q s" using assms(3) by (simp add: keeps_def)
    then show ?thesis using m Inr t by (auto simp: run_bind_def split: prod.splits)
  qed (use m t in \<open>auto simp: run_bind_def\<close>)
qed

lemma bind_assoc: "run_bind (run_bind m f) g = run_bind m (\<lambda>x. run_bind (f x) g)"
proof
  show "run_bind (run_bind m f) g d = run_bind m (\<lambda>x. run_bind (f x) g) d" for d
    by (auto simp: run_bind_def final_append split: prod.split sum.split)
qed

lemma bind_pure: "run_bind (\<lambda>d. ([], r d)) f d = (case r d of Inl e \<Rightarrow> ([], Inl e) | Inr x \<Rightarrow> f x d)"
  by (auto simp: run_bind_def final_def split: prod.split sum.split)

lemma bind_states: "s \<in> set (fst (run_bind m f d)) \<Longrightarrow>
    s \<in> set (fst (m d)) \<or> (\<exists>x. s \<in> set (fst (f x (final d (fst (m d))))))"
proof -
  assume s: "s \<in> set (fst (run_bind m f d))"
  obtain t r where m: "m d = (t, r)" by fastforce
  show ?thesis
  proof (cases r)
    case (Inr x)
    obtain t' r' where "f x (final d t) = (t', r')" by fastforce
    then have "s \<in> set t \<or> s \<in> set (fst (f x (final d t)))" using s m Inr by (auto simp: run_bind_def)
    then show ?thesis using m by auto
  qed (use s m in \<open>simp add: run_bind_def\<close>)
qed

text \<open>A file that is there and not at or below the removed path, and emptiness below a path.\<close>

definition holds_file :: "string \<Rightarrow> disk_entry \<Rightarrow> disk \<Rightarrow> bool" where
  "holds_file p x d \<longleftrightarrow> d p = Some x"

definition cleared :: "string \<Rightarrow> disk \<Rightarrow> bool" where
  "cleared p d \<longleftrightarrow> (\<forall>q. strings_HasPrefix q (p @ ''/'') \<longrightarrow> d q = None)"

lemma keeps_MkdirAll_file: "keeps (holds_file p x) (os_MkdirAll ans q)"
  by (auto simp: keeps_def holds_file_def os_MkdirAll_def split: prod.splits option.splits)

lemma keeps_RemoveAll_file: "\<not> below q p \<Longrightarrow> keeps (holds_file p x) (os_RemoveAll ans q)"
  by (auto simp: keeps_def holds_file_def os_RemoveAll_def Let_def split: prod.splits option.splits)

lemma not_both_below: "strings_HasPrefix q (p @ ''/'') \<Longrightarrow> \<not> below q p"
  unfolding below_def by (auto simp: prefix_def)

lemma keeps_MkdirAll_cleared: "keeps (cleared p) (os_MkdirAll ans p)"
  using not_both_below by (auto simp: keeps_def cleared_def os_MkdirAll_def split: prod.splits option.splits)

lemma keeps_RemoveAll_cleared: "keeps (cleared p) (os_RemoveAll ans q)"
  by (auto simp: keeps_def cleared_def os_RemoveAll_def Let_def split: prod.splits option.splits)

lemma RemoveAll_clears: "os_RemoveAll ans p d = (t, Inr x) \<Longrightarrow> cleared p (final d t)"
  by (auto simp: cleared_def os_RemoveAll_def final_def below_def Let_def split: prod.splits option.splits)

lemma keeps_remove_dirs: "keeps (cleared p) (remove_dirs a v i es)"
  by (induction es arbitrary: i) (simp_all add: keeps_bind keeps_RemoveAll_cleared)

lemma keeps_remove_files: "keeps (cleared p) (remove_files a v i es)"
proof (induction es arbitrary: i)
  case (Cons extra es)
  have "keeps (cleared p) (\<lambda>d. case os_Remove (unlinks a i) (filepath_Join [vRoot v, extra]) d of
      (t, Some (notExist, e)) \<Rightarrow>
        (t, if notExist then Inr () else Inl (''cacheutil: remove extra file '' @ extra @ '': '' @ e))
    | (t, None) \<Rightarrow> (t, Inr ()))"
    by (auto simp: keeps_def cleared_def os_Remove_def split: option.splits)
  then show ?case using Cons by (simp add: keeps_bind)
qed simp

text \<open>A temporary file is next to its target.\<close>

lemma prefix_sep:
  assumes "prefix (x @ [c]) (y @ n)" "c \<notin> set n"
  shows "prefix (x @ [c]) y"
proof (rule ccontr)
  assume "\<not> prefix (x @ [c]) y"
  moreover have "prefix y (y @ n)" by simp
  ultimately have "prefix y (x @ [c])" using assms(1) prefix_same_cases by blast
  then obtain w where w: "x @ [c] = y @ w" by (auto simp: prefix_def)
  with \<open>\<not> prefix (x @ [c]) y\<close> have "w \<noteq> []" by auto
  then have "last w = c" using w by (metis last_appendR last_snoc)
  moreover have "prefix w n" using assms(1) w by simp
  ultimately show False using assms(2) \<open>w \<noteq> []\<close> set_mono_prefix by (metis last_in_set subsetD)
qed

lemma temp_in_below:
  assumes "strings_HasPrefix (temp_in dir name) (p @ ''/'')" "CHR ''/'' \<notin> set name"
  shows "below p dir"
proof (cases "dir \<noteq> '''' \<and> last dir = CHR ''/''")
  case True
  then show ?thesis using prefix_sep [of p "CHR ''/''" dir name] assms by (simp add: temp_in_def below_def)
next
  case False
  then have "temp_in dir name = (dir @ ''/'') @ name" by (simp add: temp_in_def)
  then have "prefix (p @ ''/'') (dir @ ''/'')"
    using prefix_sep [of p "CHR ''/''" "dir @ ''/''" name] assms by simp
  then show ?thesis by (auto simp: below_def)
qed

lemma write_keeps_cleared:
  assumes "temp_contract a" "\<not> below p path" "\<not> below p (path_Dir path)" "cleared p d"
    and "s \<in> set (fst (WriteFileAtomic path data perm failure a d))"
  shows "cleared p s"
  unfolding cleared_def
proof (intro allI impI)
  fix q
  assume q: "strings_HasPrefix q (p @ ''/'')"
  then have "q \<noteq> path" using assms(2) by (auto simp: below_def)
  have "s q = d q"
  proof (rule ccontr)
    assume "s q \<noteq> d q"
    then have "create a d (path_Dir path) (''.'' @ path_Base path @ ''.tmp-*'') = Inr q"
      using write_is_atomic_states [OF assms(1,5)] \<open>q \<noteq> path\<close> by blast
    from temp_path [OF assms(1) this] obtain name where "CHR ''/'' \<notin> set name" "q = temp_in (path_Dir path) name" by metis
    then show False using temp_in_below q assms(3) by blast
  qed
  then show "s q = None" using assms(4) q by (simp add: cleared_def)
qed

lemma keeps_write_sidecars:
  assumes "\<forall>i. temp_contract (snd (writes a i))"
    and "\<forall>t\<in>set ts. \<not> below p (sidecar v t) \<and> \<not> below p (path_Dir (sidecar v t))"
  shows "keeps (cleared p) (write_sidecars a v i ts)"
  using assms(2)
proof (induction ts arbitrary: i)
  case (Cons t ts)
  have "keeps (cleared p) (\<lambda>d. case WriteFileAtomic (sidecar v t) (tValue t) 420 (fst (writes a i)) (snd (writes a i)) d of
      (tr, Some e) \<Rightarrow> (tr, Inl e) | (tr, None) \<Rightarrow> (tr, Inr ()))"
    unfolding keeps_def
  proof (intro allI impI ballI)
    fix d s
    let ?w = "WriteFileAtomic (sidecar v t) (tValue t) 420 (fst (writes a i)) (snd (writes a i)) d"
    assume "cleared p d" and "s \<in> set (fst (case ?w of (tr, Some e) \<Rightarrow> (tr, Inl e) | (tr, None) \<Rightarrow> (tr, Inr ())))"
    then have "s \<in> set (fst ?w)" by (cases ?w) (simp split: option.splits)
    then show "cleared p s"
      using write_keeps_cleared [OF assms(1) [rule_format]] Cons.prems \<open>cleared p d\<close> by (meson list.set_intros(1))
  qed
  then show ?case using Cons by (simp add: keeps_bind)
qed simp

lemma write_sidecars_final:
  assumes "\<forall>i. temp_contract (snd (writes a i))" "distinct (map (sidecar v) ts)"
    and "write_sidecars a v i ts d = (tr, Inr ())"
  shows "(\<forall>t\<in>set ts. final d tr (sidecar v t) = Some (RegularFile (tValue t) 420)) \<and>
    (\<forall>q. q \<notin> sidecar v ` set ts \<longrightarrow> final d tr q = d q)"
  using assms(2,3)
proof (induction ts arbitrary: i d tr)
  case Nil
  then show ?case by (simp add: run_return_def final_def)
next
  case (Cons t ts)
  from Cons.prems(2) obtain t1 t2 where tr: "tr = t1 @ t2"
    "WriteFileAtomic (sidecar v t) (tValue t) 420 (fst (writes a i)) (snd (writes a i)) d = (t1, None)"
    "write_sidecars a v (i + 1) ts (final d t1) = (t2, Inr ())"
    by (auto simp: bind_Inr split: prod.splits option.splits)
  have "final d t1 = d(sidecar v t \<mapsto> RegularFile (tValue t) 420)"
    using write_is_atomic_final [OF assms(1) [rule_format] tr(2)] .
  then have d1: "final d t1 (sidecar v t) = Some (RegularFile (tValue t) 420)" "q \<noteq> sidecar v t \<Longrightarrow> final d t1 q = d q" for q
    by simp_all
  have "sidecar v t \<notin> sidecar v ` set ts" "distinct (map (sidecar v) ts)" using Cons.prems(1) by auto
  with Cons.IH [OF _ tr(3)] show ?case unfolding tr(1) final_append by (auto simp: d1)
qed

section \<open>Properties\<close>

lemma mismatch_seen:
  "t \<in> set ts \<Longrightarrow> d (sidecar v t) = Some (RegularFile c perm) \<Longrightarrow> c \<noteq> tValue t \<Longrightarrow> mismatch_loop a v i ts d \<noteq> Inr False"
  by (induction ts arbitrary: i) (auto simp: os_ReadFile_def split: option.splits disk_entry.splits)

lemma open_stale:
  assumes "\<forall>i. temp_contract (snd (writes a i))"
    and "t \<in> set (vTokens v)" "d (sidecar v t) = Some (RegularFile c perm)" "c \<noteq> tValue t"
    and "\<forall>t\<in>set (vTokens v). \<not> below (entries_path v) (sidecar v t) \<and> \<not> below (entries_path v) (path_Dir (sidecar v t))"
  shows "\<forall>s\<in>set (fst (VersionedDir_Open a v d)). s (sidecar v t) = d (sidecar v t) \<or> cleared (entries_path v) s"
    and "VersionedDir_Open a v d = (tr, Inr dir) \<Longrightarrow> dir = entries_path v \<and> cleared dir (final d tr) \<and>
      (distinct (map (sidecar v) (vTokens v)) \<longrightarrow>
         (\<forall>t\<in>set (vTokens v). final d tr (sidecar v t) = Some (RegularFile (tValue t) 420)))"
proof -
  let ?E = "entries_path v"
  let ?P = "holds_file (sidecar v t) (RegularFile c perm)"
  let ?rest = "run_bind (write_sidecars a v 0 (vTokens v)) (\<lambda>_. run_return ?E)"
  let ?decide = "run_bind (\<lambda>d. ([], tokensMismatched a v d))
      (\<lambda>nuke. run_bind (if nuke then nukeEntries a v ?E else run_return ()) (\<lambda>_. ?rest))"
  have out: "\<not> below ?E (sidecar v t)" using assms(2,5) by blast
  have rest: "keeps (cleared ?E) ?rest" using keeps_write_sidecars [OF assms(1,5)] by (simp add: keeps_bind)
  have after: "keeps (cleared ?E) (run_bind (wrap_error ''cacheutil: mkdir entries after nuke'' (os_MkdirAll (mkdirs a 1) ?E))
      (\<lambda>_. run_bind (remove_dirs a v 1 (vExtraDirs v)) (\<lambda>_. remove_files a v 0 (vExtraFiles v))))"
    by (intro keeps_bind) (simp_all add: keeps_MkdirAll_cleared keeps_remove_dirs keeps_remove_files)
  have nuke: "\<forall>s\<in>set (fst (run_bind (nukeEntries a v ?E) (\<lambda>_. ?rest) d')). ?P s \<or> cleared ?E s" if "?P d'" for d'
    unfolding nukeEntries_def bind_assoc
  proof (rule keeps_then [where P = ?P and Q = "cleared ?E", OF _ _ _ that])
    show "keeps ?P (wrap_error ''cacheutil: remove entries'' (os_RemoveAll (removals a 0) ?E))"
      using keeps_RemoveAll_file [OF out] by simp
    show "cleared ?E (final e t)"
      if "wrap_error ''cacheutil: remove entries'' (os_RemoveAll (removals a 0) ?E) e = (t, Inr x)" for e t x
      using that RemoveAll_clears by simp
    show "keeps (cleared ?E) (run_bind (wrap_error ''cacheutil: mkdir entries after nuke'' (os_MkdirAll (mkdirs a 1) ?E))
        (\<lambda>x. run_bind (remove_dirs a v 1 (vExtraDirs v)) (\<lambda>x. run_bind (remove_files a v 0 (vExtraFiles v)) (\<lambda>_. ?rest))))"
      using keeps_bind [OF after rest] by (simp add: bind_assoc)
  qed
  have nuked: "cleared ?E (final d' t')" if "nukeEntries a v ?E d' = (t', Inr y)" for d' t' y
  proof -
    have "\<exists>t1 y1 t2. wrap_error ''cacheutil: remove entries'' (os_RemoveAll (removals a 0) ?E) d' = (t1, Inr y1) \<and>
      (run_bind (wrap_error ''cacheutil: mkdir entries after nuke'' (os_MkdirAll (mkdirs a 1) ?E))
        (\<lambda>_. run_bind (remove_dirs a v 1 (vExtraDirs v)) (\<lambda>_. remove_files a v 0 (vExtraFiles v)))) (final d' t1) = (t2, Inr y) \<and>
      t' = t1 @ t2"
      using that unfolding nukeEntries_def by (subst (asm) bind_Inr)
    then obtain t1 y1 t2 where t: "t' = t1 @ t2" "cleared ?E (final d' t1)"
      "(run_bind (wrap_error ''cacheutil: mkdir entries after nuke'' (os_MkdirAll (mkdirs a 1) ?E))
        (\<lambda>_. run_bind (remove_dirs a v 1 (vExtraDirs v)) (\<lambda>_. remove_files a v 0 (vExtraFiles v)))) (final d' t1) = (t2, Inr y)"
      using RemoveAll_clears unfolding wrap_error_Inr by blast
    then show ?thesis using keeps_final [OF after t(2)] by (simp add: final_append)
  qed
  have seen: "tokensMismatched a v d' \<noteq> Inr False" if "?P d'" for d'
    using mismatch_seen [OF assms(2) _ assms(4)] that by (auto simp: tokensMismatched_def holds_file_def)
  have decide: "\<forall>s\<in>set (fst (?decide d')). ?P s \<or> cleared ?E s" if "?P d'" for d'
  proof (cases "tokensMismatched a v d'")
    case (Inr b)
    then have b by (metis seen that)
    then show ?thesis unfolding bind_pure Inr using nuke [OF that] by simp
  qed (simp add: bind_pure)
  have start: "?P d" using assms(3) by (simp add: holds_file_def)
  have mk: "keeps ?P (wrap_error ''cacheutil: mkdir entries'' (os_MkdirAll (mkdirs a 0) ?E))"
    by (simp add: keeps_MkdirAll_file)
  have made: "?P (final d (fst (wrap_error ''cacheutil: mkdir entries'' (os_MkdirAll (mkdirs a 0) ?E) d)))"
    using keeps_final [OF mk start] .
  show "\<forall>s\<in>set (fst (VersionedDir_Open a v d)). s (sidecar v t) = d (sidecar v t) \<or> cleared ?E s"
  proof
    fix s
    assume "s \<in> set (fst (VersionedDir_Open a v d))"
    then have "?P s \<or> cleared ?E s"
      using bind_states mk start decide [OF made] unfolding VersionedDir_Open_def keeps_def by blast
    then show "s (sidecar v t) = d (sidecar v t) \<or> cleared ?E s" using assms(3) by (simp add: holds_file_def)
  qed
  show "dir = entries_path v \<and> cleared dir (final d tr) \<and>
      (distinct (map (sidecar v) (vTokens v)) \<longrightarrow>
         (\<forall>t\<in>set (vTokens v). final d tr (sidecar v t) = Some (RegularFile (tValue t) 420)))"
    if "VersionedDir_Open a v d = (tr, Inr dir)"
  proof -
    have "\<exists>t1 x t2. wrap_error ''cacheutil: mkdir entries'' (os_MkdirAll (mkdirs a 0) ?E) d = (t1, Inr x) \<and>
        ?decide (final d t1) = (t2, Inr dir) \<and> tr = t1 @ t2"
      using that unfolding VersionedDir_Open_def by (subst (asm) bind_Inr)
    then obtain t1 t2 where t: "tr = t1 @ t2" "os_MkdirAll (mkdirs a 0) ?E d = (t1, Inr ())" "?decide (final d t1) = (t2, Inr dir)"
      by auto
    obtain nuke where t12: "tr = t1 @ t2" "os_MkdirAll (mkdirs a 0) ?E d = (t1, Inr ())"
      "tokensMismatched a v (final d t1) = Inr nuke"
      "run_bind (if nuke then nukeEntries a v ?E else run_return ()) (\<lambda>_. ?rest) (final d t1) = (t2, Inr dir)"
      using t that by (cases "tokensMismatched a v (final d t1)") (simp_all only: bind_pure sum.case prod.inject Inl_Inr_False simp_thms)
    have nuke: nuke using seen [of "final d t1"] made t12(2,3) by (auto simp: wrap_error_def)
    then obtain t3 t4 where t34: "t2 = t3 @ t4" "nukeEntries a v ?E (final d t1) = (t3, Inr ())"
      "?rest (final (final d t1) t3) = (t4, Inr dir)"
      using t12(4) by (auto simp: bind_Inr)
    then have cl: "cleared ?E (final (final d t1) t3)" using nuked by blast
    obtain t5 where t5: "write_sidecars a v 0 (vTokens v) (final (final d t1) t3) = (t5, Inr ())" "dir = ?E" "t4 = t5"
      using t34(3) by (auto simp: bind_Inr run_return_def)
    have fin: "final d tr = final (final (final d t1) t3) t4" by (simp add: t12(1) t34(1) final_append)
    have "cleared ?E (final d tr)" using keeps_final [OF rest cl] t34(3) by (simp add: fin)
    then show ?thesis using write_sidecars_final [OF assms(1) _ t5(1)] t5(2,3) fin by simp
  qed
qed

text \<open>(C40) Stale entries are never served. When one schema version differs from its sidecar file, then
  whatever fails and wherever the program stops, the disk either still shows that old version, so that the
  next opening sees the difference too, or has no entry left. An opening that returns no error has
  emptied the directory of entries and written every version.\<close>

theorem open_never_keeps_stale_entries:
  assumes "\<forall>i. temp_contract (snd (writes a i))"
    and "t \<in> set (vTokens v)" "d (sidecar v t) = Some (RegularFile c perm)" "c \<noteq> tValue t"
    and "\<forall>t\<in>set (vTokens v). \<not> below (entries_path v) (sidecar v t) \<and> \<not> below (entries_path v) (path_Dir (sidecar v t))"
  shows "(\<forall>s\<in>set (fst (VersionedDir_Open a v d)). s (sidecar v t) = d (sidecar v t) \<or> cleared (entries_path v) s) \<and>
    (\<forall>tr dir. VersionedDir_Open a v d = (tr, Inr dir) \<longrightarrow> dir = entries_path v \<and> cleared dir (final d tr) \<and>
      (distinct (map (sidecar v) (vTokens v)) \<longrightarrow>
         (\<forall>t\<in>set (vTokens v). final d tr (sidecar v t) = Some (RegularFile (tValue t) 420))))"
  using open_stale [of a t v d c perm, OF assms] by blast

text \<open>A cache whose version goes from 1 to 2, with one entry.\<close>

definition vd :: versioned_dir where
  "vd = \<lparr>vRoot = ''/c'', vEntriesDir = '''', vExtraDirs = [], vExtraFiles = [], vTokens = [\<lparr>tName = ''version'', tValue = ''2''\<rparr>]\<rparr>"

definition vd_answers :: open_answers where
  "vd_answers = \<lparr>mkdirs = (\<lambda>_. (\<lambda>_. False, None)), reads = (\<lambda>_. None), removals = (\<lambda>_. (\<lambda>_. False, None)),
     unlinks = (\<lambda>_. None), writes = (\<lambda>_. (None, answers_ok))\<rparr>"

definition vd_disk :: disk where
  "vd_disk = [''/c/version'' \<mapsto> RegularFile ''1'' 420, ''/c/entries/x'' \<mapsto> RegularFile ''old'' 420]"

lemma vd_paths:
  "entries_path vd = ''/c/entries''" "map (sidecar vd) (vTokens vd) = [''/c/version'']" "path_Dir ''/c/version'' = ''/c''"
  by (simp_all add: vd_def entries_path_def sidecar_def filepath_Join_def path_Clean_def path_Dir_def upto_slash_def
      strings_Join_Cons)

lemma open_never_keeps_stale_entries_witness:
  "vd_disk ''/c/entries/x'' \<noteq> None \<and>
   (\<exists>tr. VersionedDir_Open vd_answers vd vd_disk = (tr, Inr ''/c/entries'') \<and> cleared ''/c/entries'' (final vd_disk tr))"
proof -
  have run: "snd (VersionedDir_Open vd_answers vd vd_disk) = Inr ''/c/entries''" by code_simp
  then obtain tr where tr: "VersionedDir_Open vd_answers vd vd_disk = (tr, Inr ''/c/entries'')"
    by (cases "VersionedDir_Open vd_answers vd vd_disk") auto
  have "\<forall>i. temp_contract (snd (writes vd_answers i))" by (simp add: vd_answers_def answers_ok_contract)
  moreover have "\<lparr>tName = ''version'', tValue = ''2''\<rparr> \<in> set (vTokens vd)" by (simp add: vd_def)
  moreover have "vd_disk (sidecar vd \<lparr>tName = ''version'', tValue = ''2''\<rparr>) = Some (RegularFile ''1'' 420)"
    using vd_paths(2) by (simp add: vd_def vd_disk_def)
  ultimately have "cleared ''/c/entries'' (final vd_disk tr)"
    using open_never_keeps_stale_entries [of vd_answers "\<lparr>tName = ''version'', tValue = ''2''\<rparr>" vd vd_disk "''1''" 420] vd_paths tr
    by (simp add: vd_def below_def)
  then show ?thesis using tr by (auto simp: vd_disk_def)
qed

section \<open>Compressed entries\<close>

text \<open>\<^verbatim>\<open>zstd_gob.go\<close>: \<^verbatim>\<open>gob\<close> and \<^verbatim>\<open>zstd\<close> are parameters, and reading the source is its bytes or an error.\<close>

definition EncodeZstdGob :: "('v \<Rightarrow> string result) \<Rightarrow> (string \<Rightarrow> string) \<Rightarrow> 'v \<Rightarrow> string result" where
  "EncodeZstdGob gob zstd v = (case gob v of Inl e \<Rightarrow> Inl e | Inr raw \<Rightarrow> Inr (zstd raw))"

definition DecodeZstdGob :: "(string \<Rightarrow> 'v result) \<Rightarrow> (string \<Rightarrow> string result) \<Rightarrow> string result \<Rightarrow> 'v result" where
  "DecodeZstdGob ungob unzstd src =
    (case src of
       Inl e \<Rightarrow> Inl e
     | Inr compressed \<Rightarrow> (case unzstd compressed of Inl e \<Rightarrow> Inl e | Inr raw \<Rightarrow> ungob raw))"

definition IsZstdFrame :: "string \<Rightarrow> bool" where
  "IsZstdFrame b \<longleftrightarrow> length b \<ge> 4 \<and> b ! 0 = CHR 0x28 \<and> b ! 1 = CHR 0xB5 \<and> b ! 2 = CHR 0x2F \<and> b ! 3 = CHR 0xFD"

lemma IsZstdFrame_iff: "IsZstdFrame b \<longleftrightarrow> strings_HasPrefix b [CHR 0x28, CHR 0xB5, CHR 0x2F, CHR 0xFD]"
proof -
  have "length b \<ge> 4 \<longleftrightarrow> (\<exists>w x y z r. b = w # x # y # z # r)" by (auto simp: numeral_eq_Suc Suc_le_length_iff)
  then show ?thesis unfolding IsZstdFrame_def prefix_def by auto
qed

text \<open>What was encoded is decoded, as far as the two libraries invert each other.\<close>

lemma zstd_gob_roundtrip:
  assumes "\<And>v raw. gob v = Inr raw \<Longrightarrow> ungob raw = Inr v" "\<And>raw. unzstd (zstd raw) = Inr raw"
    and "EncodeZstdGob gob zstd v = Inr b"
  shows "DecodeZstdGob ungob unzstd (Inr b) = Inr v"
  using assms by (auto simp: EncodeZstdGob_def DecodeZstdGob_def split: sum.splits)

end
