(* ===== verification/Test_Doubles.thy ===== *)
theory Test_Doubles
  imports Go_Json Go_Time "HOL-Library.AList" "HOL-Library.Word"
begin

text \<open>
  The boundaries to the outside and their scripted doubles: subprocesses (\<^verbatim>\<open>internal/proc/proc.go\<close>), HTTP
  (\<^verbatim>\<open>internal/httpx/httpx.go\<close>) and ids (\<^verbatim>\<open>internal/idgen/idgen.go\<close>).
  What the system and the network answer are parameters.
\<close>

section \<open>What a double records\<close>

text \<open>The contract of a double: a call is recorded behind those before it, whatever it answers.\<close>

locale call_recorder =
  fixes call :: "'r \<Rightarrow> 's \<Rightarrow> 's \<times> 'a"
    and observed :: "'s \<Rightarrow> 'c list"
    and shape :: "'r \<Rightarrow> 'c"
  assumes records: "observed (fst (call r s)) = observed s @ [shape r]"
begin

lemma records_all: "observed (fold (\<lambda>r s. fst (call r s)) rs s) = observed s @ map shape rs"
  by (induction rs arbitrary: s) (simp_all add: records)

end

section \<open>Subprocesses\<close>

record cmd =
  cName :: string
  cArgs :: "string list"
  cDir :: string
  cEnv :: "string list option"
  cStdin :: string

record proc_result =
  Stdout :: string
  Stderr :: string
  ExitCode :: int

text \<open>How \<^verbatim>\<open>exec.Cmd.Run\<close> ends: the output, the state of the process if one was started, and the error, an
  \<^verbatim>\<open>ExitError\<close> or another one. The command it is given leaves the defaults where the fields are empty.\<close>

record exec_outcome =
  eStdout :: string
  eStderr :: string
  eState :: "int option"
  eError :: "(bool \<times> string) option"

record exec_cmd =
  xName :: string
  xArgs :: "string list"
  xDir :: "string option"
  xEnv :: "string list option"
  xStdin :: "string option"

definition OS_command :: "cmd \<Rightarrow> exec_cmd" where
  "OS_command c =
    \<lparr>xName = cName c, xArgs = cArgs c, xDir = (if cDir c \<noteq> '''' then Some (cDir c) else None), xEnv = cEnv c,
     xStdin = (if length (cStdin c) > 0 then Some (cStdin c) else None)\<rparr>"

definition OS_Run :: "(exec_cmd \<Rightarrow> exec_outcome) \<Rightarrow> cmd \<Rightarrow> proc_result \<times> string option" where
  "OS_Run exec c =
    (let oc = exec (OS_command c);
         res = \<lparr>Stdout = eStdout oc, Stderr = eStderr oc,
                ExitCode = (case eState oc of Some code \<Rightarrow> code | None \<Rightarrow> - 1)\<rparr>
     in case eError oc of
          None \<Rightarrow> (res, None)
        | Some (isExitError, e) \<Rightarrow> if isExitError then (res, None) else (res, Some e))"

record proc_call =
  callName :: string
  callArgs :: "string list"
  callDir :: string

record proc_response =
  rResult :: proc_result
  rErr :: "string option"

type_synonym matcher = "cmd \<Rightarrow> bool"

fun args_match :: "string list \<Rightarrow> string list \<Rightarrow> bool" where
  "args_match [] args = True"
| "args_match (a # want) [] = False"
| "args_match (a # want) (x # args) = (if x \<noteq> a then False else args_match want args)"

definition Cmd_MatchExact :: "string \<Rightarrow> string list \<Rightarrow> matcher" where
  "Cmd_MatchExact name want c =
    (if cName c \<noteq> name then False
     else if length (cArgs c) \<noteq> length want then False
     else args_match want (cArgs c))"

definition Cmd_MatchPrefix :: "string \<Rightarrow> string list \<Rightarrow> matcher" where
  "Cmd_MatchPrefix name pre c =
    (if cName c \<noteq> name then False
     else if length (cArgs c) < length pre then False
     else args_match pre (cArgs c))"

record proc_fake =
  fRules :: "(matcher \<times> proc_response) list"
  fCalls :: "proc_call list"

definition proc_NewFake :: proc_fake where
  "proc_NewFake = \<lparr>fRules = [], fCalls = []\<rparr>"

definition proc_On :: "matcher \<Rightarrow> proc_response \<Rightarrow> proc_fake \<Rightarrow> proc_fake" where
  "proc_On m resp f = f\<lparr>fRules := fRules f @ [(m, resp)]\<rparr>"

definition proc_OnExact :: "string \<Rightarrow> string list \<Rightarrow> proc_response \<Rightarrow> proc_fake \<Rightarrow> proc_fake" where
  "proc_OnExact name args resp f = proc_On (Cmd_MatchExact name args) resp f"

definition formatCmd :: "cmd \<Rightarrow> string" where
  "formatCmd c = (if length (cArgs c) = 0 then cName c else cName c @ '' '' @ strings_Join (cArgs c) '' '')"

definition call_of :: "cmd \<Rightarrow> proc_call" where
  "call_of c = \<lparr>callName = cName c, callArgs = cArgs c, callDir = cDir c\<rparr>"

fun first_rule :: "(matcher \<times> proc_response) list \<Rightarrow> cmd \<Rightarrow> proc_response option" where
  "first_rule [] c = None"
| "first_rule ((m, resp) # rules) c = (if m c then Some resp else first_rule rules c)"

definition proc_Run :: "cmd \<Rightarrow> proc_fake \<Rightarrow> proc_fake \<times> proc_result \<times> string option" where
  "proc_Run c f =
    (let f = f\<lparr>fCalls := fCalls f @ [call_of c]\<rparr> in
     case first_rule (fRules f) c of
       Some resp \<Rightarrow> (f, rResult resp, rErr resp)
     | None \<Rightarrow> (f, \<lparr>Stdout = '''', Stderr = '''', ExitCode = - 1\<rparr>, Some (''proc.Fake: no rule matched '' @ formatCmd c)))"

definition proc_Calls :: "proc_fake \<Rightarrow> proc_call list" where
  "proc_Calls f = fCalls f"

definition proc_CallCount :: "proc_fake \<Rightarrow> nat" where
  "proc_CallCount f = length (fCalls f)"

definition proc_Reset :: "proc_fake \<Rightarrow> proc_fake" where
  "proc_Reset f = f\<lparr>fCalls := []\<rparr>"

interpretation proc_fake: call_recorder proc_Run proc_Calls call_of
  by unfold_locales (auto simp: proc_Run_def proc_Calls_def Let_def split: option.split)

lemma args_match_prefix: "args_match want args \<longleftrightarrow> prefix want args"
  by (induction want args rule: args_match.induct) auto

lemma MatchExact_iff: "Cmd_MatchExact name args c \<longleftrightarrow> cName c = name \<and> cArgs c = args"
proof -
  have "length (cArgs c) = length args \<Longrightarrow> prefix args (cArgs c) \<longleftrightarrow> cArgs c = args"
    by (metis prefix_length_prefix prefix_order.antisym prefix_order.refl order.refl)
  then show ?thesis by (auto simp: Cmd_MatchExact_def args_match_prefix)
qed

lemma MatchPrefix_iff: "Cmd_MatchPrefix name pre c \<longleftrightarrow> cName c = name \<and> prefix pre (cArgs c)"
  by (auto simp: Cmd_MatchPrefix_def args_match_prefix dest: prefix_length_le)

lemma first_rule_find: "first_rule rules c = map_option snd (find (\<lambda>(m, _). m c) rules)"
  by (induction rules c rule: first_rule.induct) auto

text \<open>A double answers with the first rule that matches, and its record of the calls is what it was asked.\<close>

theorem proc_fake_replays:
  "snd (proc_Run c f) =
     (case find (\<lambda>(m, _). m c) (fRules f) of
        Some (_, resp) \<Rightarrow> (rResult resp, rErr resp)
      | None \<Rightarrow> (\<lparr>Stdout = '''', Stderr = '''', ExitCode = - 1\<rparr>, Some (''proc.Fake: no rule matched '' @ formatCmd c))) \<and>
   proc_Calls (fold (\<lambda>c f. fst (proc_Run c f)) cs f) = proc_Calls f @ map call_of cs"
  using proc_fake.records_all by (auto simp: proc_Run_def first_rule_find Let_def split: option.split)

section \<open>HTTP\<close>

record http_request =
  hMethod :: string
  hURL :: string
  hHeaders :: "(string \<times> string list) list"
  hBody :: string

record http_response =
  Status :: int
  rHeaders :: "(string \<times> string list) list"
  rBody :: string

definition no_response :: http_response where
  "no_response = \<lparr>Status = 0, rHeaders = [], rBody = ''''\<rparr>"

definition NewReal :: "duration \<Rightarrow> duration" where
  "NewReal timeout = (if timeout \<le> 0 then 30 * second else timeout)"

definition methodOrGet :: "http_request \<Rightarrow> string" where
  "methodOrGet r = (if hMethod r = '''' then ''GET'' else hMethod r)"

text \<open>What \<^verbatim>\<open>net/http\<close> does is a parameter: building a request, its \<^verbatim>\<open>Header.Add\<close>, sending it, and reading
  the body of the answer, of which what was read before an error is dropped.\<close>

record http_system =
  build :: "string \<Rightarrow> string \<Rightarrow> string \<Rightarrow> string option"
  header_add :: "string \<Rightarrow> string \<Rightarrow> (string \<times> string list) list \<Rightarrow> (string \<times> string list) list"
  send :: "string \<Rightarrow> string \<Rightarrow> (string \<times> string list) list \<Rightarrow> string \<Rightarrow> (int \<times> (string \<times> string list) list) result"
  read_body :: "string result"

definition Real_Do :: "http_system \<Rightarrow> http_request \<Rightarrow> http_response \<times> string option" where
  "Real_Do sys req =
    (let m = methodOrGet req in
     case build sys m (hURL req) (hBody req) of
       Some e \<Rightarrow> (no_response, Some (''httpx: build request: '' @ e))
     | None \<Rightarrow>
         (let headers = fold (\<lambda>(k, vs). fold (header_add sys k) vs) (hHeaders req) [] in
          case send sys m (hURL req) headers (hBody req) of
            Inl e \<Rightarrow> (no_response, Some (''httpx: '' @ m @ '' '' @ hURL req @ '': '' @ e))
          | Inr (status, hs) \<Rightarrow>
              (case read_body sys of
                 Inl e \<Rightarrow> (no_response, Some (''httpx: read body: '' @ e))
               | Inr b \<Rightarrow> (\<lparr>Status = status, rHeaders = hs, rBody = b\<rparr>, None))))"

definition Http_MatchExact :: "string \<Rightarrow> string \<Rightarrow> http_request \<Rightarrow> bool" where
  "Http_MatchExact m url =
    (let m = (if m = '''' then ''GET'' else m)
     in (\<lambda>r. let rm = (if hMethod r = '''' then ''GET'' else hMethod r) in rm = m \<and> hURL r = url))"

definition Http_MatchPrefix :: "string \<Rightarrow> http_request \<Rightarrow> bool" where
  "Http_MatchPrefix pre r = strings_HasPrefix (hURL r) pre"

record http_stub =
  sMatch :: "(http_request \<Rightarrow> bool) option"
  sResponse :: http_response
  sErr :: "string option"
  Times :: int
  used :: int

record http_fake =
  stubs :: "http_stub list"
  hCalls :: "http_request list"

definition http_NewFake :: http_fake where
  "http_NewFake = \<lparr>stubs = [], hCalls = []\<rparr>"

definition http_Stub :: "http_stub \<Rightarrow> http_fake \<Rightarrow> http_fake" where
  "http_Stub s f = f\<lparr>stubs := stubs f @ [s]\<rparr>"

definition http_On :: "(http_request \<Rightarrow> bool) \<Rightarrow> int \<Rightarrow> string \<Rightarrow> http_fake \<Rightarrow> http_fake" where
  "http_On m status b f =
    http_Stub \<lparr>sMatch = Some m, sResponse = \<lparr>Status = status, rHeaders = [], rBody = b\<rparr>, sErr = None, Times = 0, used = 0\<rparr> f"

definition stub_skipped :: "http_request \<Rightarrow> http_stub \<Rightarrow> bool" where
  "stub_skipped req s \<longleftrightarrow>
     (case sMatch s of None \<Rightarrow> True | Some m \<Rightarrow> \<not> m req) \<or> (Times s > 0 \<and> used s \<ge> Times s)"

text \<open>The loop over the stubs: the stubs with the count of the one that answers, and its answer.\<close>

fun stub_loop :: "http_request \<Rightarrow> http_stub list \<Rightarrow> http_stub list \<times> (http_response \<times> string option) option" where
  "stub_loop req [] = ([], None)"
| "stub_loop req (s # ss) =
    (if stub_skipped req s then (case stub_loop req ss of (ss', r) \<Rightarrow> (s # ss', r))
     else (s\<lparr>used := used s + 1\<rparr> # ss,
           Some (case sErr s of Some e \<Rightarrow> (no_response, Some e) | None \<Rightarrow> (sResponse s, None))))"

definition http_Do :: "http_request \<Rightarrow> http_fake \<Rightarrow> http_fake \<times> http_response \<times> string option" where
  "http_Do req f =
    (let f = f\<lparr>hCalls := hCalls f @ [req]\<rparr> in
     case stub_loop req (stubs f) of
       (ss, Some r) \<Rightarrow> (f\<lparr>stubs := ss\<rparr>, r)
     | (ss, None) \<Rightarrow> (f\<lparr>stubs := ss\<rparr>, no_response, Some (''httpx.Fake: no stub for '' @ methodOrGet req @ '' '' @ hURL req)))"

definition CallsFor :: "(http_request \<Rightarrow> bool) \<Rightarrow> http_fake \<Rightarrow> http_request list" where
  "CallsFor m f = filter m (hCalls f)"

interpretation http_fake: call_recorder http_Do hCalls id
  by unfold_locales (auto simp: http_Do_def Let_def split: prod.split option.split)

text \<open>A stub that can answer: it matches, and its budget is not used up.\<close>

definition answers :: "http_request \<Rightarrow> http_stub \<Rightarrow> bool" where
  "answers req s \<longleftrightarrow> (\<exists>m. sMatch s = Some m \<and> m req) \<and> \<not> (Times s > 0 \<and> used s \<ge> Times s)"

definition within_budget :: "http_stub \<Rightarrow> bool" where
  "within_budget s \<longleftrightarrow> 0 \<le> used s \<and> (Times s > 0 \<longrightarrow> used s \<le> Times s)"

lemma stub_skipped_iff: "stub_skipped req s \<longleftrightarrow> \<not> answers req s"
  by (auto simp: stub_skipped_def answers_def split: option.split)

lemma stub_loop_find:
  "snd (stub_loop req ss) =
    map_option (\<lambda>s. case sErr s of Some e \<Rightarrow> (no_response, Some e) | None \<Rightarrow> (sResponse s, None)) (find (answers req) ss)"
  by (induction req ss rule: stub_loop.induct) (auto simp: stub_skipped_iff split: prod.split)

lemma answer_within_budget: "\<not> stub_skipped req s \<Longrightarrow> within_budget s \<Longrightarrow> within_budget (s\<lparr>used := used s + 1\<rparr>)"
  by (auto simp: stub_skipped_def within_budget_def)

lemma stub_loop_budget:
  "\<forall>s\<in>set ss. within_budget s \<Longrightarrow> \<forall>s\<in>set (fst (stub_loop req ss)). within_budget s"
  by (induction req ss rule: stub_loop.induct) (auto simp: answer_within_budget split: prod.splits)

text \<open>The HTTP double, over any sequence of calls: each is answered by the first stub that matches and has
  budget left, no stub answers more often than its budget, and all calls are recorded in order.\<close>

theorem http_fake_replays:
  fixes f :: http_fake and reqs :: "http_request list"
  assumes "\<forall>s\<in>set (stubs f). within_budget s"
  defines "f' \<equiv> fold (\<lambda>r f. fst (http_Do r f)) reqs f"
  shows "hCalls f' = hCalls f @ reqs \<and> (\<forall>s\<in>set (stubs f'). within_budget s) \<and>
    snd (http_Do req f') =
      (case find (answers req) (stubs f') of
         Some s \<Rightarrow> (case sErr s of Some e \<Rightarrow> (no_response, Some e) | None \<Rightarrow> (sResponse s, None))
       | None \<Rightarrow> (no_response, Some (''httpx.Fake: no stub for '' @ methodOrGet req @ '' '' @ hURL req)))"
proof (intro conjI)
  show "hCalls f' = hCalls f @ reqs" unfolding f'_def using http_fake.records_all by simp
  have one: "\<forall>s\<in>set (stubs (fst (http_Do r g))). within_budget s" if "\<forall>s\<in>set (stubs g). within_budget s" for r g
    using stub_loop_budget [OF that, of r] by (auto simp: http_Do_def Let_def split: prod.split option.split)
  show "\<forall>s\<in>set (stubs f'). within_budget s"
  proof -
    have "\<forall>s\<in>set (stubs (fold (\<lambda>r f. fst (http_Do r f)) rs g)). within_budget s"
      if "\<forall>s\<in>set (stubs g). within_budget s" for rs g
      using that
    proof (induction rs arbitrary: g)
      case (Cons r rs)
      show ?case using Cons.IH [OF one [OF Cons.prems]] by simp
    qed simp
    then show ?thesis using assms(1) by (simp add: f'_def)
  qed
  show "snd (http_Do req f') =
      (case find (answers req) (stubs f') of
         Some s \<Rightarrow> (case sErr s of Some e \<Rightarrow> (no_response, Some e) | None \<Rightarrow> (sResponse s, None))
       | None \<Rightarrow> (no_response, Some (''httpx.Fake: no stub for '' @ methodOrGet req @ '' '' @ hURL req)))"
  proof -
    obtain ss r where l: "stub_loop req (stubs f') = (ss, r)" by fastforce
    then have "r = map_option (\<lambda>s. case sErr s of Some e \<Rightarrow> (no_response, Some e) | None \<Rightarrow> (sResponse s, None))
        (find (answers req) (stubs f'))"
      using stub_loop_find [of req "stubs f'"] by simp
    then show ?thesis using l by (cases "find (answers req) (stubs f')") (simp_all add: http_Do_def Let_def)
  qed
qed

section \<open>Ids\<close>

definition hex_EncodeToString :: "8 word list \<Rightarrow> string" where
  "hex_EncodeToString src = concat (map (\<lambda>b. [hex_char (unat b div 16), hex_char (unat b mod 16)]) src)"

definition UUID_Next :: "(nat \<Rightarrow> 8 word list result) \<Rightarrow> string result" where
  "UUID_Next rand_Read =
    (case rand_Read 16 of
       Inl e \<Rightarrow> Inl (''idgen: crypto/rand.Read failed: '' @ e)
     | Inr b \<Rightarrow> Inr (hex_EncodeToString b))"

record sequence =
  sprefix :: string
  sn :: "64 word"

definition NewSequence :: "string \<Rightarrow> sequence" where
  "NewSequence pre = \<lparr>sprefix = (if pre = '''' then ''id'' else pre), sn = 0\<rparr>"

definition Sequence_Next :: "sequence \<Rightarrow> sequence \<times> string" where
  "Sequence_Next s =
    (let n = sn s + 1 in (s\<lparr>sn := n\<rparr>, sprefix s @ ''-'' @ nat_dec (unat n)))"

definition Sequence_Reset :: "sequence \<Rightarrow> sequence" where
  "Sequence_Reset s = s\<lparr>sn := 0\<rparr>"

definition nth_id :: "sequence \<Rightarrow> nat \<Rightarrow> string" where
  "nth_id s k = snd (Sequence_Next (((\<lambda>s. fst (Sequence_Next s)) ^^ k) s))"

text \<open>A sequence repeats an id only after all the values of its counter, and none is empty.\<close>

lemma sequence_ids: "(nth_id s j = nth_id s k \<longleftrightarrow> j mod 2 ^ 64 = k mod 2 ^ 64) \<and> nth_id s k \<noteq> ''''"
proof -
  have state: "((\<lambda>s. fst (Sequence_Next s)) ^^ k) s = s\<lparr>sn := sn s + of_nat k\<rparr>" for k
    by (induction k) (simp_all add: Sequence_Next_def Let_def algebra_simps)
  have id: "nth_id s k = sprefix s @ ''-'' @ nat_dec (unat (sn s + of_nat k + 1))" for k
    unfolding nth_id_def state by (simp add: Sequence_Next_def Let_def)
  have "(of_nat j :: 64 word) = of_nat k \<longleftrightarrow> j mod 2 ^ 64 = k mod 2 ^ 64"
    by (simp add: word_of_nat_eq_iff take_bit_eq_mod)
  then show ?thesis by (simp add: id nat_dec_inj flip: word_unat_eq_iff)
qed

end
