(* ===== verification/Env.thy ===== *)
theory Env
  imports Go_Json Go_Time
begin

text \<open>
  Environment variables (\<^verbatim>\<open>internal/env/env.go\<close>). A reader is its \<^verbatim>\<open>Lookup\<close>: the value of a name that is
  set. Numbers are read as \<^verbatim>\<open>strconv.Atoi\<close> does, digit by digit.
\<close>

section \<open>Readers\<close>

type_synonym env_reader = "string \<Rightarrow> string option"

text \<open>\<^verbatim>\<open>Map\<close>, whose zero value is the nil map.\<close>

definition Map_Lookup :: "(string \<rightharpoonup> string) option \<Rightarrow> env_reader" where
  "Map_Lookup m name = (case m of None \<Rightarrow> None | Some m \<Rightarrow> m name)"

definition Map_With :: "(string \<rightharpoonup> string) option \<Rightarrow> string \<Rightarrow> string \<Rightarrow> (string \<rightharpoonup> string) option" where
  "Map_With m name v = Some ((case m of None \<Rightarrow> Map.empty | Some m \<Rightarrow> m)(name \<mapsto> v))"

definition GetEnv :: "env_reader \<Rightarrow> string \<Rightarrow> string" where
  "GetEnv r name = (case r name of None \<Rightarrow> '''' | Some v \<Rightarrow> v)"

definition GetTrim :: "env_reader \<Rightarrow> string \<Rightarrow> string" where
  "GetTrim r name = strings_TrimSpace (GetEnv r name)"

section \<open>Numbers\<close>

datatype num_error = ErrSyntax | ErrRange

text \<open>The digits of \<^verbatim>\<open>strconv.ParseUint\<close>: an overflow is reported before a bad character that comes later.\<close>

fun uint_loop :: "nat \<Rightarrow> string \<Rightarrow> num_error + nat" where
  "uint_loop n [] = Inr n"
| "uint_loop n (c # cs) =
    (if \<not> is_digit c then Inl ErrSyntax
     else if n \<ge> (2 ^ 64 - 1) div 10 + 1 then Inl ErrRange
     else (let n = 10 * n + (byte c - 48) in if n \<ge> 2 ^ 64 then Inl ErrRange else uint_loop n cs))"

definition strconv_Atoi :: "string \<Rightarrow> num_error + int" where
  "strconv_Atoi s =
    (let (neg, digits) = (case s of
            c # cs \<Rightarrow> if c = CHR ''-'' then (True, cs) else if c = CHR ''+'' then (False, cs) else (False, s)
          | [] \<Rightarrow> (False, s))
     in if digits = '''' then Inl ErrSyntax
        else case uint_loop 0 digits of
            Inl e \<Rightarrow> Inl e
          | Inr n \<Rightarrow>
              if \<not> neg \<and> n \<ge> 2 ^ 63 then Inl ErrRange
              else if neg \<and> n > 2 ^ 63 then Inl ErrRange
              else Inr (if neg then - int n else int n))"

definition atoi_message :: "ucd \<Rightarrow> string \<Rightarrow> num_error \<Rightarrow> string" where
  "atoi_message u s e =
    ''strconv.Atoi: parsing '' @ strconv_Quote u s @ '': '' @
    (case e of ErrSyntax \<Rightarrow> ''invalid syntax'' | ErrRange \<Rightarrow> ''value out of range'')"

text \<open>An \<open>int result\<close> keeps the value or the error; the value beside an error is zero.\<close>

definition GetInt :: "ucd \<Rightarrow> env_reader \<Rightarrow> string \<Rightarrow> int \<Rightarrow> int result" where
  "GetInt u r name def =
    (let v = strings_TrimSpace (case r name of None \<Rightarrow> '''' | Some v \<Rightarrow> v) in
     if r name = None \<or> v = '''' then Inr def
     else (case strconv_Atoi v of
             Inl e \<Rightarrow> Inl (''env '' @ name @ '': '' @ atoi_message u v e)
           | Inr n \<Rightarrow> Inr n))"

definition GetBool :: "ucd \<Rightarrow> env_reader \<Rightarrow> string \<Rightarrow> bool \<Rightarrow> bool result" where
  "GetBool u r name def =
    (let v = strings_ToLower u (strings_TrimSpace (case r name of None \<Rightarrow> '''' | Some v \<Rightarrow> v)) in
     if r name = None \<or> v = '''' then Inr def
     else if v \<in> {''1'', ''true'', ''yes'', ''on'', ''y'', ''t''} then Inr True
     else if v \<in> {''0'', ''false'', ''no'', ''off'', ''n'', ''f''} then Inr False
     else Inl (''env '' @ name @ '': not a boolean: '' @ strconv_Quote u v))"

section \<open>Properties\<close>

lemma uint_loop_value:
  assumes "\<forall>c\<in>set ds. is_digit c"
  shows "uint_loop n ds = (if ds = [] \<or> dec_value n ds < 2 ^ 64 then Inr (dec_value n ds) else Inl ErrRange)"
  using assms
proof (induction n ds rule: uint_loop.induct)
  case (2 n c cs)
  define m where "m = 10 * n + (byte c - 48)"
  have d: "is_digit c" "\<forall>c\<in>set cs. is_digit c" using "2.prems" by auto
  have grow: "k \<le> dec_value k ds" for k ds by (induction k ds rule: dec_value.induct) (auto intro: order_trans [rotated])
  have step: "uint_loop n (c # cs) =
      (if n \<ge> (2 ^ 64 - 1) div 10 + 1 then Inl ErrRange else if m \<ge> 2 ^ 64 then Inl ErrRange else uint_loop m cs)"
    using d(1) by (simp only: uint_loop.simps(2) Let_def m_def if_False simp_thms)
  have big: "n \<ge> (2 ^ 64 - 1) div 10 + 1 \<Longrightarrow> m \<ge> 2 ^ 64" by (simp add: m_def)
  have val: "dec_value n (c # cs) = dec_value m cs" by (simp add: m_def)
  show ?case
  proof (cases "m \<ge> 2 ^ 64")
    case True
    then have "\<not> dec_value m cs < 2 ^ 64" using grow [of m cs] by linarith
    then show ?thesis unfolding step val using True by simp
  next
    case False
    then have "\<not> n \<ge> (2 ^ 64 - 1) div 10 + 1" using big by blast
    moreover have "uint_loop m cs = (if cs = [] \<or> dec_value m cs < 2 ^ 64 then Inr (dec_value m cs) else Inl ErrRange)"
      using "2.IH" [OF _ _ m_def] calculation False d by simp
    ultimately show ?thesis unfolding step val using False by auto
  qed
qed simp

lemma digits_of: "\<forall>c\<in>set (nat_dec n). is_digit c"
  using nat_dec_digits by (auto simp: is_digit_def)

lemma Atoi_nat: "strconv_Atoi (nat_dec n) = (if n < 2 ^ 63 then Inr (int n) else Inl ErrRange)"
proof -
  obtain c cs where c: "nat_dec n = c # cs" by (cases "nat_dec n") auto
  then have "is_digit c" using digits_of [of n] by simp
  then have "c \<noteq> CHR ''-''" "c \<noteq> CHR ''+''" by (auto simp: is_digit_def)
  then have "strconv_Atoi (nat_dec n) =
      (case uint_loop 0 (nat_dec n) of Inl e \<Rightarrow> Inl e | Inr k \<Rightarrow> if k \<ge> 2 ^ 63 then Inl ErrRange else Inr (int k))"
    unfolding c by (simp add: strconv_Atoi_def del: uint_loop.simps split: sum.split)
  then show ?thesis using uint_loop_value [OF digits_of, of 0 n] by simp
qed

lemma Atoi_neg: "strconv_Atoi (CHR ''-'' # nat_dec n) = (if n \<le> 2 ^ 63 then Inr (- int n) else Inl ErrRange)"
  using uint_loop_value [OF digits_of, of 0 n] by (auto simp: strconv_Atoi_def Let_def)

text \<open>Reading back a printed number: every \<^verbatim>\<open>int\<close> is read as itself, all other integers are out of range.\<close>

lemma Atoi_int_dec: "strconv_Atoi (int_dec n) = (if - (2 ^ 63) \<le> n \<and> n < 2 ^ 63 then Inr n else Inl ErrRange)"
  by (cases "n < 0") (auto simp: int_dec_def Atoi_nat Atoi_neg nat_le_iff nat_less_iff)

lemma TrimSpace_ascii:
  assumes "is_ascii (pre @ m @ post)" "\<forall>c\<in>set (pre @ post). unicode_IsSpace (byte c)"
    and "\<forall>c\<in>set m. \<not> unicode_IsSpace (byte c)" "m \<noteq> ''''"
  shows "strings_TrimSpace (pre @ m @ post) = m"
proof -
  let ?f = "\<lambda>c. (byte c, [c])"
  obtain a ms where m: "m = a # ms" using assms(4) by (cases m) auto
  obtain ms' b where m': "m = ms' @ [b]" using assms(4) by (cases m rule: rev_cases) auto
  have left: "dropWhile is_space (map ?f (pre @ m @ post)) = map ?f (m @ post)"
    unfolding map_append m using assms(2,3) m by (subst dropWhile_append2) auto
  have right: "dropWhile is_space (rev (map ?f (m @ post))) = rev (map ?f m)"
    unfolding map_append rev_append m' using assms(2,3) m' by (subst dropWhile_append2) auto
  show ?thesis
    unfolding strings_TrimSpace_def runes_ascii [OF assms(1)] left right by (simp add: o_def)
qed

lemma int_dec_chars: "c \<in> set (int_dec n) \<Longrightarrow> byte c < 128 \<and> \<not> unicode_IsSpace (byte c)"
  using nat_dec_digits [of c "nat n"] nat_dec_digits [of c "nat (- n)"]
  by (auto simp: int_dec_def unicode_IsSpace_def split: if_splits)

text \<open>Numbers from the environment. A variable that holds a printed integer, with any ASCII white
  space around it, is read as that integer if it fits an \<^verbatim>\<open>int\<close>, and reported as out of range if not; and
  the default is used exactly when the variable is not set or blank.\<close>

theorem env_int_roundtrip:
  assumes "r name = Some (pre @ int_dec n @ post)" and "\<forall>c\<in>set (pre @ post). byte c < 128 \<and> unicode_IsSpace (byte c)"
  shows "GetInt u r name def =
    (if - (2 ^ 63) \<le> n \<and> n < 2 ^ 63 then Inr n
     else Inl (''env '' @ name @ '': '' @ atoi_message u (int_dec n) ErrRange))"
proof -
  have "is_ascii (pre @ int_dec n @ post)"
    using assms(2) int_dec_chars by (auto simp: is_ascii_def list_all_iff)
  then have "strings_TrimSpace (pre @ int_dec n @ post) = int_dec n"
    using assms(2) int_dec_chars by (intro TrimSpace_ascii) (auto simp: int_dec_def)
  moreover have "int_dec n \<noteq> ''''" by (simp add: int_dec_def)
  ultimately show ?thesis using assms(1) by (simp add: GetInt_def Atoi_int_dec)
qed

lemma env_int_roundtrip_witness:
  "GetInt ascii_ucd (Map_Lookup (Map_With None ''N'' (''  '' @ int_dec (- 42) @ '' ''))) ''N'' 7 = Inr (- 42)"
  using env_int_roundtrip [of "Map_Lookup (Map_With None ''N'' (''  '' @ int_dec (- 42) @ '' ''))" "''N''" "''  ''" "- 42" "'' ''"
      ascii_ucd 7]
  by (simp add: Map_Lookup_def Map_With_def unicode_IsSpace_def)

end
