(* ===== verification/Spec2Isabelle.thy ===== *)
theory Spec2Isabelle
  imports Cli Kv Breaker Limiter Ratelimit Retry Scheduler_Run Vfs Eventbus_Async Shutdown Token_Claims Sampling
    Perf_Render Errgroup Async_Writer Versioned_Dir Test_Doubles Env
begin

text \<open>
  Verification library of mcpcheck, a static analyzer for the tools a Model Context Protocol server
  advertises, and of the service packages its repository carries.

  \<^bold>\<open>The program.\<close> An intake (\<^verbatim>\<open>internal/scanner\<close>) turns a source, which is a JSON file, a Python or
  TypeScript tree, or a running server, into a normalized tool set (\<^verbatim>\<open>internal/mcpmodel\<close>). The
  dispatcher (\<^verbatim>\<open>internal/v2\<close>) runs the registered rules (\<^verbatim>\<open>internal/rules\<close>) on it in three phases, and
  the command line (\<^verbatim>\<open>cmd/mcpcheck\<close>) prints the findings in one of three formats (\<^verbatim>\<open>internal/output\<close>)
  and exits with a status. Beside it stand packages that take no part in an analysis: clocks, stores,
  limiters, retries, a scheduler, an event bus, shutdown, tokens, random values, timings, caches and the
  doubles that tests use. Every package has its theory, and a definition keeps the name of the function
  it models, with a prefix where two packages share one.

  \<^bold>\<open>Foundations.\<close>
  \<^item> \<^verbatim>\<open>Prelude\<close>: results, reachability, the contracts of machines with an invariant and of machines that come to rest, lists.
  \<^item> \<^verbatim>\<open>Go_Strings\<close>, \<^verbatim>\<open>Go_Regexp\<close>, \<^verbatim>\<open>Go_Json\<close>: what the program uses of \<^verbatim>\<open>unicode\<close>, \<^verbatim>\<open>utf8\<close>, \<^verbatim>\<open>strings\<close>, \<^verbatim>\<open>strconv\<close>, \<^verbatim>\<open>regexp\<close> and \<^verbatim>\<open>encoding/json\<close>, executable.
  \<^item> \<^verbatim>\<open>Go_Float\<close>, \<^verbatim>\<open>Go_Time\<close>: \<^verbatim>\<open>float64\<close> on exact rationals; times, durations, \<^verbatim>\<open>int64\<close> wrap-around, and the clocks of \<^verbatim>\<open>internal/clock\<close>.
  \<^item> \<^verbatim>\<open>Go_Files\<close>, \<^verbatim>\<open>Go_Paths\<close>: \<^verbatim>\<open>path/filepath\<close>, trees of files and \<^verbatim>\<open>WalkDir\<close>; what a clean path is.

  \<^bold>\<open>The analyzer.\<close>
  \<^item> \<^verbatim>\<open>Mcp_Model\<close>, \<^verbatim>\<open>Registry\<close>: \<^verbatim>\<open>mcpmodel/tool.go\<close>; rules, registry and phases of \<^verbatim>\<open>v2/v2.go\<close>.
  \<^item> \<^verbatim>\<open>Rules_Naming\<close>, \<^verbatim>\<open>Rules_Schema\<close>, \<^verbatim>\<open>Rules_Text\<close>, \<^verbatim>\<open>Rule_Set\<close>: the eleven rules and the registry they form.
  \<^item> \<^verbatim>\<open>Output\<close>: text, JSON and SARIF reports and the rule lists.
  \<^item> \<^verbatim>\<open>Intake_Json\<close>, \<^verbatim>\<open>Intake_Source\<close>, \<^verbatim>\<open>Intake_Live\<close>: \<^verbatim>\<open>jsonintake.go\<close>; \<^verbatim>\<open>pyintake.go\<close> and \<^verbatim>\<open>tsintake.go\<close>; \<^verbatim>\<open>liveintake.go\<close>.
  \<^item> \<^verbatim>\<open>Analyze\<close>, \<^verbatim>\<open>Cli\<close>: \<^verbatim>\<open>analyzeAll\<close> and \<^verbatim>\<open>writeRules\<close>; flags, \<^verbatim>\<open>dispatch.go\<close> and the whole of \<^verbatim>\<open>main\<close>.

  \<^bold>\<open>The service packages.\<close>
  \<^item> \<^verbatim>\<open>Kv\<close>, \<^verbatim>\<open>Vfs\<close>: the sharded store with expiry; the file system interface, in memory and over \<^verbatim>\<open>os\<close>.
  \<^item> \<^verbatim>\<open>Limiter\<close>, \<^verbatim>\<open>Errgroup\<close>: the semaphore and its threads; the error group over it (\<^verbatim>\<open>errgroup.go\<close>).
  \<^item> \<^verbatim>\<open>Breaker\<close>, \<^verbatim>\<open>Ratelimit\<close>, \<^verbatim>\<open>Retry\<close>: the circuit breaker, the token bucket, backoff.
  \<^item> \<^verbatim>\<open>Scheduler\<close>, \<^verbatim>\<open>Scheduler_Run\<close>: the job table and its loop; the invocations of \<^verbatim>\<open>run\<close> step by step, composed with \<^verbatim>\<open>Limiter\<close> and \<^verbatim>\<open>Logging\<close> as the options compose them, and shown to run the table.
  \<^item> \<^verbatim>\<open>Shutdown\<close>, \<^verbatim>\<open>Logging\<close>: the hooks of a teardown; the production logger and its capturing double (\<^verbatim>\<open>logger.go\<close>).
  \<^item> \<^verbatim>\<open>Eventbus\<close>, \<^verbatim>\<open>Eventbus_Async\<close>: the synchronous and the asynchronous bus.
  \<^item> \<^verbatim>\<open>Tokens\<close>, \<^verbatim>\<open>Token_Claims\<close>, \<^verbatim>\<open>Sampling\<close>: signed tokens with Base64 and time claims; the standard claims and the options; random sources, sampling, UUIDs, shuffling.
  \<^item> \<^verbatim>\<open>Perf\<close>, \<^verbatim>\<open>Perf_Render\<close>: trackers and spans; the tree and the summary of timings.
  \<^item> \<^verbatim>\<open>Fsutil\<close>, \<^verbatim>\<open>Versioned_Dir\<close>, \<^verbatim>\<open>Async_Writer\<close>: atomic writes (\<^verbatim>\<open>fsutil/atomic.go\<close>) and, from \<^verbatim>\<open>internal/cacheutil\<close>, versioned directories over them and the background writer.
  \<^item> \<^verbatim>\<open>Test_Doubles\<close>, \<^verbatim>\<open>Env\<close>: subprocesses, HTTP and ids with their doubles (\<^verbatim>\<open>proc.go\<close>, \<^verbatim>\<open>httpx.go\<close>, \<^verbatim>\<open>idgen.go\<close>); environment variables (\<^verbatim>\<open>env.go\<close>).

  \<^bold>\<open>How state and operations correspond.\<close> A struct is a record, an enumeration a datatype, a method a
  function from the old state to the new one and the result. An error is a value: an option, or the left
  of \<^verbatim>\<open>string + 'a\<close>, and a panic is a left value as well. Code that runs under one lock is one step; where
  goroutines meet between locks (the semaphore, the breaker, the asynchronous bus, the error group, the
  scheduler under its limiter, the cache writer) the component has an inductive step relation with one step per locked
  section, and its invariant is proved for every reachable state by interpreting the locale
  \<^verbatim>\<open>invariant_machine\<close>, or \<^verbatim>\<open>draining_machine\<close> where it also has to come to rest. A map is a list of pairs or a
  function with the list of its keys, and where Go's order of visits shows, the order is an argument.

  \<^bold>\<open>What the lemmas show.\<close> For the rules, which tools and schemas each of them reports, in terms of
  specifications without loops; for the registry and the dispatcher, which rules register and in which
  order findings come; for the intakes and the reports, that printing and reading are inverse, where
  positions lie and which messages a server sees; for the command line, the exit status of a run from the
  bytes of its input, and that the intakes agree. For the service packages: refinement of an abstract map
  (store), bounds under rounding (rate limiter, retries), invariants under any interleaving, accounting
  of every accepted event and job, draining, that each failed job is logged once and that the logger's
  double sees what production logs, the order and the errors of a teardown, what an accepted token is and
  that its claims come back, that a file is replaced in one step whatever fails, and that a cache never keeps entries of an
  older version that look current.

  \<^bold>\<open>Parameters.\<close> The Unicode tables above ASCII (\<^verbatim>\<open>ucd\<close>), the JSON Schema library (\<^verbatim>\<open>schema_lib\<close>), the
  writer behind \<^verbatim>\<open>io.Writer\<close>, the file system, the subprocess and the texts of library errors (the record
  \<^verbatim>\<open>world\<close> and its parts), the MAC of a token, readings of clocks, random bytes and draws, the generator of
  \<^verbatim>\<open>math/rand/v2\<close> (\<^verbatim>\<open>rand\<close>), the functions of \<^verbatim>\<open>os\<close> behind \<^verbatim>\<open>vfs.OS\<close> (\<^verbatim>\<open>FS\<close>), contexts, and what hooks, handlers
  and jobs return. They are arguments, quantified in the theorems; the contracts that are assumed of them
  are those of \<^verbatim>\<open>os.CreateTemp\<close> (\<^verbatim>\<open>temp_contract\<close>) and of the generator's ranges (\<^verbatim>\<open>rand_contract\<close>).

  \<^bold>\<open>Bounds.\<close> \<^verbatim>\<open>int\<close> and \<^verbatim>\<open>int64\<close> values wrap around where they are computed with and can overflow (\<^verbatim>\<open>wrap64\<close>, words
  of 64 bits, \<^verbatim>\<open>nextPow2\<close>), a \<^verbatim>\<open>Duration\<close> saturates where Go's does, and \<^verbatim>\<open>float64\<close> values are exact rationals rounded at
  every operation. There is no fuel: recursion is structural or has a proof of termination, and loops that
  wait for something are steps of a relation.

  \<^bold>\<open>Not modelled.\<close> The bodies of Go's standard library beyond what the foundations state; the operating
  system behind the file and process packages; how \<^verbatim>\<open>log/slog\<close> encodes a record that its handler was given;
  \<^verbatim>\<open>gob\<close> and \<^verbatim>\<open>zstd\<close> behind the compressed cache entries; the PCG generator; the rule documents, which are a
  package comment; and the memory model below the locks.
\<close>

end
